(* ===== verification/Prelude.thy ===== *)
theory Prelude
  imports Main "HOL-Library.Monad_Syntax"
begin

text \<open>
  Shared ground of the development: C integers as HOL integers with the wrap-around written
  out, C strings and little-endian byte encodings, the part of stdio the log uses, pointer
  paths in a heap of records, and the two walks over linked structures that the server's
  loops repeat (go to the first node with a property, go to the last node).

  Conventions.  A computation that the C standard gives no meaning (a NULL or dangling
  dereference, an array access out of bounds) or that never ends is the value \<open>None\<close> of an
  option type; the library's \<open>do\<close> notation for options sequences the statements.
  A pointer is an \<open>addr option\<close>, with \<open>None\<close> for NULL.
\<close>

named_theorems heap_simps \<open>rewrites for paths and walks in a heap\<close>
named_theorems post_intros \<open>rules that follow a computation statement by statement\<close>
named_theorems inv_intros \<open>introduction rules for the invariants of the components\<close>

section \<open>C integers\<close>

type_synonym addr = nat
type_synonym cstring = string  \<comment> \<open>the bytes before the terminating NUL\<close>

definition wrap_signed :: "nat \<Rightarrow> int \<Rightarrow> int" where
  "wrap_signed w x = (x + 2 ^ (w - 1)) mod 2 ^ w - 2 ^ (w - 1)"

definition s32 :: "int \<Rightarrow> int" where
  "s32 x = (x + 2147483648) mod 4294967296 - 2147483648"

definition s64 :: "int \<Rightarrow> int" where
  "s64 x = (x + 9223372036854775808) mod 18446744073709551616 - 9223372036854775808"

definition in_s32 :: "int \<Rightarrow> bool" where
  "in_s32 x \<longleftrightarrow> - 2147483648 \<le> x \<and> x < 2147483648"

definition in_s64 :: "int \<Rightarrow> bool" where
  "in_s64 x \<longleftrightarrow> - 9223372036854775808 \<le> x \<and> x < 9223372036854775808"

lemma s32_id [simp]: "in_s32 x \<Longrightarrow> s32 x = x"
  by (simp add: in_s32_def s32_def)

lemma s64_id [simp]: "in_s64 x \<Longrightarrow> s64 x = x"
  by (simp add: in_s64_def s64_def)

lemma s32_range [simp]: "in_s32 (s32 x)"
  by (simp add: in_s32_def s32_def)

lemma s64_range [simp]: "in_s64 (s64 x)"
  by (simp add: in_s64_def s64_def)

lemma in_s64_if_s32: "in_s32 x \<Longrightarrow> in_s64 x"
  by (simp add: in_s32_def in_s64_def)

section \<open>Little-endian encodings\<close>

text \<open>\<open>fwrite(&x, n, 1, f)\<close> writes the \<open>n\<close> bytes of \<open>x\<close>, least significant first on the
  little-endian machines the server runs on; \<open>fread\<close> reads them back.\<close>

fun le_bytes :: "nat \<Rightarrow> int \<Rightarrow> char list" where
  "le_bytes 0 x = []"
| "le_bytes (Suc n) x = char_of (x mod 256) # le_bytes n (x div 256)"

fun of_le :: "char list \<Rightarrow> int" where
  "of_le [] = 0"
| "of_le (b # bs) = of_char b + 256 * of_le bs"

lemma length_le_bytes [simp]: "length (le_bytes n x) = n"
  by (induction n arbitrary: x) auto

lemma of_le_le_bytes: "of_le (le_bytes n x) = x mod 256 ^ n"
proof (induction n arbitrary: x)
  case 0
  then show ?case by simp
next
  case (Suc n)
  have "x mod (256 * 256 ^ n) = 256 * (x div 256 mod 256 ^ n) + x mod 256"
    by (simp add: zmod_zmult2_eq)
  with Suc show ?case by simp
qed

definition get_s32 :: "char list \<Rightarrow> int" where
  "get_s32 bs = s32 (of_le bs)"

definition get_s64 :: "char list \<Rightarrow> int" where
  "get_s64 bs = s64 (of_le bs)"

lemma get_s32_le [simp]: "in_s32 x \<Longrightarrow> get_s32 (le_bytes 4 x) = x"
proof -
  assume "in_s32 x"
  have "s32 (x mod 4294967296) = s32 x"
    by (simp add: s32_def mod_add_left_eq)
  then show "get_s32 (le_bytes 4 x) = x"
    using \<open>in_s32 x\<close> by (simp add: get_s32_def of_le_le_bytes)
qed

lemma get_s64_le [simp]: "in_s64 x \<Longrightarrow> get_s64 (le_bytes 8 x) = x"
proof -
  assume "in_s64 x"
  have "s64 (x mod 18446744073709551616) = s64 x"
    by (simp add: s64_def mod_add_left_eq)
  then show "get_s64 (le_bytes 8 x) = x"
    using \<open>in_s64 x\<close> by (simp add: get_s64_def of_le_le_bytes)
qed

section \<open>The part of stdio the log uses\<close>

record cfile =
  content :: "char list"
  fpos :: nat

definition fseek_end :: "cfile \<Rightarrow> cfile" where
  "fseek_end f = f\<lparr>fpos := length (content f)\<rparr>"

text \<open>A seek to a negative position fails and leaves the position as it was.\<close>

definition fseek_set :: "int \<Rightarrow> cfile \<Rightarrow> cfile" where
  "fseek_set p f = (if p < 0 then f else f\<lparr>fpos := nat p\<rparr>)"

definition fseek_cur :: "int \<Rightarrow> cfile \<Rightarrow> cfile" where
  "fseek_cur d f = fseek_set (int (fpos f) + d) f"

definition ftell :: "cfile \<Rightarrow> int" where
  "ftell f = int (fpos f)"

definition pad_to :: "nat \<Rightarrow> char list \<Rightarrow> char list" where
  "pad_to n bs = bs @ replicate (n - length bs) (CHR 0x00)"

definition fwrite :: "char list \<Rightarrow> cfile \<Rightarrow> cfile" where
  "fwrite bs f =
     (let p = fpos f; c = pad_to p (content f)
      in f\<lparr>content := take p c @ bs @ drop (p + length bs) c, fpos := p + length bs\<rparr>)"

definition fread :: "nat \<Rightarrow> cfile \<Rightarrow> char list \<times> cfile" where
  "fread n f = (let bs = take n (drop (fpos f) (content f)) in (bs, f\<lparr>fpos := fpos f + length bs\<rparr>))"

text \<open>An \<open>fread\<close> of a whole object of \<open>n\<close> bytes; a short read leaves the destination
  uninitialised, which the callers then use: \<open>None\<close>.\<close>

definition fread_obj :: "nat \<Rightarrow> cfile \<Rightarrow> (char list \<times> cfile) option" where
  "fread_obj n f = (let r = fread n f in if length (fst r) = n then Some r else None)"

lemma pad_to_id [simp]: "n \<le> length bs \<Longrightarrow> pad_to n bs = bs"
  by (simp add: pad_to_def)

text \<open>What a positioned write does to the bytes of a file.\<close>

definition pwrite_bytes :: "nat \<Rightarrow> char list \<Rightarrow> char list \<Rightarrow> char list" where
  "pwrite_bytes off bs c = (if bs = [] then c else take off (pad_to off c) @ bs @ drop (off + length bs) c)"

lemma length_pad_to [simp]: "length (pad_to n bs) = max n (length bs)"
  by (simp add: pad_to_def)

lemma pwrite_twice: "pwrite_bytes (off + length a) b (pwrite_bytes off a c) = pwrite_bytes off (a @ b) c"
  by (auto simp: pwrite_bytes_def pad_to_def min_def add.assoc add.commute add.left_commute)

lemma fwrite_at_end:
  "fpos f = length (content f) \<Longrightarrow>
   fwrite bs f = f\<lparr>content := content f @ bs, fpos := length (content f) + length bs\<rparr>"
  by (simp add: fwrite_def Let_def)

definition at_end :: "cfile \<Rightarrow> bool" where
  "at_end f \<longleftrightarrow> fpos f = length (content f)"

lemma at_end_seek [simp]: "at_end (fseek_end f)" "content (fseek_end f) = content f"
  by (simp_all add: at_end_def fseek_end_def)

lemma at_end_fwrite [simp]:
  "at_end f \<Longrightarrow> at_end (fwrite bs f)"
  "at_end f \<Longrightarrow> content (fwrite bs f) = content f @ bs"
  by (simp_all add: at_end_def fwrite_at_end)

lemma fwrite_inside:
  "content f = u @ v @ w \<Longrightarrow> fpos f = length u \<Longrightarrow> length bs = length v \<Longrightarrow>
   fwrite bs f = f\<lparr>content := u @ bs @ w, fpos := length u + length bs\<rparr>"
  by (simp add: fwrite_def Let_def)

lemma fread_obj_inside:
  "content f = u @ v @ w \<Longrightarrow> fpos f = length u \<Longrightarrow> length v = n \<Longrightarrow>
   fread_obj n f = Some (v, f\<lparr>fpos := length u + n\<rparr>)"
  by (simp add: fread_obj_def fread_def Let_def)

section \<open>Paths in a heap of records\<close>

text \<open>
  \<open>lpath h sel p as q\<close>: starting from pointer \<open>p\<close> and following the link field \<open>sel\<close>, the
  cells visited are exactly \<open>as\<close>, all allocated, and the walk arrives at pointer \<open>q\<close>.
\<close>

fun lpath :: "(addr \<Rightarrow> 'n option) \<Rightarrow> ('n \<Rightarrow> addr option) \<Rightarrow> addr option \<Rightarrow> addr list \<Rightarrow> addr option \<Rightarrow> bool" where
  "lpath h sel p [] q = (p = q)"
| "lpath h sel p (a # as) q =
     (p = Some a \<and> (case h a of None \<Rightarrow> False | Some n \<Rightarrow> lpath h sel (sel n) as q))"

lemma lpath_Cons_iff:
  "lpath h sel p (a # as) q \<longleftrightarrow> p = Some a \<and> (\<exists>n. h a = Some n \<and> lpath h sel (sel n) as q)"
  by (auto split: option.splits)

declare lpath.simps(2) [simp del]
declare lpath_Cons_iff [simp]

lemma lpath_None_iff [simp]: "lpath h sel None as q \<longleftrightarrow> as = [] \<and> q = None"
  by (cases as) auto

lemma lpath_append [heap_simps]:
  "lpath h sel p (as @ bs) q \<longleftrightarrow> (\<exists>r. lpath h sel p as r \<and> lpath h sel r bs q)"
  by (induction as arbitrary: p) (auto split: option.splits)

lemma lpath_upd_other [heap_simps]:
  "u \<notin> set as \<Longrightarrow> lpath (h(u := v)) sel p as q = lpath h sel p as q"
  by (induction as arbitrary: p) (auto split: option.splits)

lemma lpath_upd_same_link:
  "h u = Some n \<Longrightarrow> sel n' = sel n \<Longrightarrow> lpath (h(u \<mapsto> n')) sel p as q = lpath h sel p as q"
  by (induction as arbitrary: p) (auto split: option.splits)

lemma lpath_cong:
  "(\<And>a. a \<in> set as \<Longrightarrow> map_option sel (h' a) = map_option sel (h a)) \<Longrightarrow>
   lpath h' sel p as q = lpath h sel p as q"
proof (induction as arbitrary: p)
  case Nil
  then show ?case by simp
next
  case (Cons a as)
  then have "map_option sel (h' a) = map_option sel (h a)" by simp
  with Cons show ?case by (cases "h a"; cases "h' a") auto
qed

lemma lpath_alloc: "lpath h sel p as q \<Longrightarrow> a \<in> set as \<Longrightarrow> \<exists>n. h a = Some n"
  by (induction as arbitrary: p) (auto split: option.splits)

lemma lpath_unique:
  "lpath h sel p as None \<Longrightarrow> lpath h sel p bs None \<Longrightarrow> as = bs"
proof (induction as arbitrary: p bs)
  case Nil
  then show ?case by (cases bs) auto
next
  case (Cons a as)
  then show ?case by (cases bs) (auto split: option.splits)
qed

lemma lpath_hd_notin_tl:
  assumes "lpath h sel p (a # as) None"
  shows "a \<notin> set as"
proof
  assume "a \<in> set as"
  then obtain us vs where "as = us @ a # vs" by (auto simp: in_set_conv_decomp)
  with assms have "lpath h sel (Some a) (a # vs) None" "lpath h sel (Some a) (a # us @ a # vs) None"
    by (auto simp: lpath_append)
  then have "a # vs = a # us @ a # vs" by (rule lpath_unique)
  then show False by simp
qed

lemma lpath_distinct: "lpath h sel p as None \<Longrightarrow> distinct as"
proof (induction as arbitrary: p)
  case Nil
  then show ?case by simp
next
  case (Cons a as)
  then have "a \<notin> set as" by (rule_tac lpath_hd_notin_tl)
  with Cons show ?case by (auto split: option.splits)
qed

text \<open>
  Fuel.  The allocator never hands out an address twice and counts its cells in \<open>brk\<close>, so a
  chain that ends visits at most \<open>brk\<close> cells.  A walk gets \<open>Suc brk\<close> units of fuel and runs
  out only when the chain is cyclic, where the C loop would not end.
\<close>

lemma lpath_length_le:
  assumes "lpath h sel p as None" and "\<And>a n. h a = Some n \<Longrightarrow> a < b"
  shows "length as \<le> b"
proof -
  have "set as \<subseteq> {..<b}" using assms lpath_alloc by fastforce
  then have "card (set as) \<le> b" by (metis card_lessThan card_mono finite_lessThan)
  then show ?thesis using lpath_distinct [OF assms(1)] by (simp add: distinct_card)
qed

section \<open>Walks\<close>

text \<open>\<open>while (!P(ptr)) ptr = ptr->sel;\<close> with no test for NULL: reaching NULL is a fault.\<close>

fun walk_find :: "(addr \<Rightarrow> 'n option) \<Rightarrow> ('n \<Rightarrow> addr option) \<Rightarrow> ('n \<Rightarrow> bool) \<Rightarrow> nat \<Rightarrow> addr option \<Rightarrow> addr option" where
  "walk_find h sel P 0 p = None"
| "walk_find h sel P (Suc k) p =
     do { a \<leftarrow> p; n \<leftarrow> h a; if P n then Some a else walk_find h sel P k (sel n) }"

text \<open>\<open>while (ptr->sel != NULL) ptr = ptr->sel;\<close>\<close>

fun walk_last :: "(addr \<Rightarrow> 'n option) \<Rightarrow> ('n \<Rightarrow> addr option) \<Rightarrow> nat \<Rightarrow> addr \<Rightarrow> addr option" where
  "walk_last h sel 0 a = None"
| "walk_last h sel (Suc k) a =
     do { n \<leftarrow> h a; case sel n of None \<Rightarrow> Some a | Some b \<Rightarrow> walk_last h sel k b }"

lemma walk_last_path:
  "lpath h sel (Some a) as None \<Longrightarrow> length as \<le> k \<Longrightarrow> walk_last h sel k a = Some (last as)"
proof (induction as arbitrary: a k)
  case Nil
  then show ?case by simp
next
  case (Cons b as)
  from Cons.prems(1) have ba: "b = a" by simp
  from Cons.prems(1) obtain n where n: "h a = Some n" "lpath h sel (sel n) as None" by auto
  from Cons.prems(2) obtain k' where k: "k = Suc k'" "length as \<le> k'" by (cases k) auto
  show ?case
  proof (cases "sel n")
    case None
    with n ba k show ?thesis by simp
  next
    case (Some c)
    with n have c: "lpath h sel (Some c) as None" by simp
    then have "walk_last h sel k' c = Some (last as)" using k(2) by (rule Cons.IH)
    moreover from c have "as \<noteq> []" by auto
    ultimately show ?thesis using n Some ba k by simp
  qed
qed

lemma walk_find_path:
  assumes "lpath h sel p (us @ a # vs) None" and "h a = Some n" and "P n"
    and "\<And>u m. u \<in> set us \<Longrightarrow> h u = Some m \<Longrightarrow> \<not> P m" and "length us < k"
  shows "walk_find h sel P k p = Some a"
  using assms
proof (induction us arbitrary: p k)
  case Nil
  then show ?case by (cases k) auto
next
  case (Cons u us)
  from Cons.prems(1) obtain m where m: "p = Some u" "h u = Some m" "lpath h sel (sel m) (us @ a # vs) None"
    by auto
  have "\<not> P m" using Cons.prems(4) [of u m] m(2) by simp
  obtain k' where k: "k = Suc k'" "length us < k'" using Cons.prems(5) by (cases k) auto
  have "walk_find h sel P k' (sel m) = Some a"
    using Cons.prems(2,3,4) m(3) k(2) by (intro Cons.IH) auto
  then show ?case using m k \<open>\<not> P m\<close> by simp
qed

lemma walk_find_SomeD:
  "walk_find h sel P k p = Some a \<Longrightarrow> \<exists>n. h a = Some n \<and> P n"
  by (induction k arbitrary: p) (auto simp: Option.bind_eq_Some_conv split: if_splits)

section \<open>Lists and functions\<close>

text \<open>Record simplification expands updated function fields; this folds them again.\<close>

lemma fold_fun_upd [simp]: "(\<lambda>b. if b = a then x else h b) = h(a := x)"
  by (rule ext) simp

lemma takeWhile_all_dropWhile: "(\<forall>x \<in> set xs. P x) \<Longrightarrow> dropWhile P xs = []"
  by (induction xs) auto

text \<open>A statement repeated for each element of a list; a fault ends it.\<close>

fun fold_opt :: "('k \<Rightarrow> 't \<Rightarrow> 't option) \<Rightarrow> 'k list \<Rightarrow> 't \<Rightarrow> 't option" where
  "fold_opt f [] t = Some t"
| "fold_opt f (k # ks) t = (case f k t of None \<Rightarrow> None | Some t' \<Rightarrow> fold_opt f ks t')"

lemma fold_opt_append:
  "fold_opt f (xs @ ys) t = (case fold_opt f xs t of None \<Rightarrow> None | Some t' \<Rightarrow> fold_opt f ys t')"
  by (induction xs arbitrary: t) (auto split: option.splits)

lemma bind_Some_eq [simp]: "Option.bind m Some = m"
  by (cases m) auto

section \<open>What holds of a result\<close>

text \<open>\<open>post m P\<close>: if the computation \<open>m\<close> has a result, the result satisfies \<open>P\<close>.  The rules
  collect the results of the statements passed on the way as hypotheses.\<close>

definition post :: "'a option \<Rightarrow> ('a \<Rightarrow> bool) \<Rightarrow> bool" where
  "post m P \<longleftrightarrow> (\<forall>x. m = Some x \<longrightarrow> P x)"

lemma postD: "post m P \<Longrightarrow> m = Some x \<Longrightarrow> P x"
  by (simp add: post_def)

lemma postI: "(\<And>x. m = Some x \<Longrightarrow> P x) \<Longrightarrow> post m P"
  by (simp add: post_def)

lemma post_weaken: "post m P \<Longrightarrow> (\<And>x. P x \<Longrightarrow> Q x) \<Longrightarrow> post m Q"
  by (simp add: post_def)

lemma post_Some [post_intros]: "P x \<Longrightarrow> post (Some x) P"
  by (simp add: post_def)

lemma post_None [post_intros]: "post None P"
  by (simp add: post_def)

lemma post_bind [post_intros]: "(\<And>x. m = Some x \<Longrightarrow> post (k x) P) \<Longrightarrow> post (Option.bind m k) P"
  by (auto simp: post_def Option.bind_eq_Some_conv)

lemma post_if [post_intros]: "(c \<Longrightarrow> post a P) \<Longrightarrow> (\<not> c \<Longrightarrow> post b P) \<Longrightarrow> post (if c then a else b) P"
  by simp

lemma post_option [post_intros]:
  "(x = None \<Longrightarrow> post a P) \<Longrightarrow> (\<And>y. x = Some y \<Longrightarrow> post (b y) P) \<Longrightarrow> post (case x of None \<Rightarrow> a | Some y \<Rightarrow> b y) P"
  by (cases x) auto

lemma post_prod [post_intros]: "(\<And>a b. p = (a, b) \<Longrightarrow> post (f a b) P) \<Longrightarrow> post (case p of (a, b) \<Rightarrow> f a b) P"
  by (cases p) auto

lemma post_let [post_intros]: "post (f x) P \<Longrightarrow> post (let y = x in f y) P"
  by simp

end
