(* ===== verification/ServerState.thy ===== *)
theory ServerState
  imports Prelude
begin

text \<open>
  The shared state of the server (my_header.h): the C structures as records with the source's
  fields, the globals as one record \<open>server\<close>.  Nodes of the lock list and write records are
  reached through several pointers at once (the global list, the list of the owning
  transaction, the list of shared holders), so they live in explicit heaps.  The transaction
  list and the wait list are only linked through their own \<open>next\<close> field; they are lists of
  records in the order of that field, and a pointer to one of their nodes is the key the
  code finds it by.  \<open>fd_dir\<close> and \<open>delayed_write\<close> of struct file_lock are never read by the
  server and have no field here.
\<close>

section \<open>Enumerations\<close>

datatype txn_state = RUNNING | WAITING | ABORTING | COMMIT

datatype log_type = TXN_BEG | UPDATE | RENAME | CREAT | UNLINK | TXN_COMMIT | TXN_ABORT | TXN_END

datatype bck_state = INACTIVE | ACTIVE

fun log_type_code :: "log_type \<Rightarrow> int" where
  "log_type_code TXN_BEG = 1"
| "log_type_code UPDATE = 2"
| "log_type_code RENAME = 3"
| "log_type_code CREAT = 4"
| "log_type_code UNLINK = 5"
| "log_type_code TXN_COMMIT = 6"
| "log_type_code TXN_ABORT = 7"
| "log_type_code TXN_END = 8"

lemma log_type_code_inj: "log_type_code a = log_type_code b \<Longrightarrow> a = b"
  by (cases a; cases b) simp_all

lemma log_type_code_s32 [simp]: "in_s32 (log_type_code t)"
  by (cases t) (simp_all add: in_s32_def)

section \<open>Structures\<close>

record file_lock =
  fl_file_inode :: int
  fl_file_mode :: int
  fl_fd :: int
  fl_file_offset :: int
  fl_file_size :: int
  fl_flags :: int
  fl_parent_txn :: int
  fl_next_txn :: "addr option"
  fl_prev_shared_rec :: "addr option"
  fl_next_shared_rec :: "addr option"
  fl_next :: "addr option"
  fl_prev :: "addr option"
  fl_writes_at :: "addr option"

record write_records =
  wr_initial_off :: int
  wr_write_length :: int
  wr_LRN :: int
  wr_next :: "addr option"
  wr_prev :: "addr option"

record txn_node =
  tn_txn_id :: int
  tn_cur_state :: txn_state
  tn_first_LRN :: int
  tn_last_LRN :: int
  tn_file_rec_no :: "addr option"
  tn_wait_mode :: int
  tn_waiting_for_inode :: int
  tn_blocked_tid :: int
  tn_before_after :: int

record log_record =
  lr_LRN :: int
  lr_txn_id :: int
  lr_prev_LRN :: int
  lr_next_LRN :: int
  lr_record_type :: int
  lr_fd :: int
  lr_offset :: int
  lr_data :: "char list"
  lr_data1 :: "char list"

text \<open>A condition variable: the transactions asleep on it, and those a signal or broadcast
  has woken that have not yet run again.\<close>

record cond =
  sleeping :: "int list"
  woken :: "int list"

definition cond_init :: cond where
  "cond_init = \<lparr>sleeping = [], woken = []\<rparr>"

definition cond_wait :: "int \<Rightarrow> cond \<Rightarrow> cond" where
  "cond_wait t c = c\<lparr>sleeping := sleeping c @ [t]\<rparr>"

definition cond_broadcast :: "cond \<Rightarrow> cond" where
  "cond_broadcast c = \<lparr>sleeping = [], woken = woken c @ sleeping c\<rparr>"

definition cond_signal :: "cond \<Rightarrow> cond" where
  "cond_signal c = (case sleeping c of [] \<Rightarrow> c
     | t # ts \<Rightarrow> \<lparr>sleeping = ts, woken = woken c @ [t]\<rparr>)"

text \<open>A thread that runs again: it was woken, or it wakes on its own, as POSIX allows.\<close>

definition cond_leave :: "int \<Rightarrow> cond \<Rightarrow> cond" where
  "cond_leave t c = (if t \<in> set (woken c) then c\<lparr>woken := remove1 t (woken c)\<rparr>
     else c\<lparr>sleeping := remove1 t (sleeping c)\<rparr>)"

record wait_node =
  wn_file_inode :: int
  wn_in_wait :: int
  wn_f_lock :: cond
  wn_txnid_abort :: int
  wn_woke_up :: int
  wn_wake_cond :: cond

record pause_node =
  pn_txnid :: int
  pn_pause_times :: int

section \<open>Globals\<close>

record lockmem =
  fl_heap :: "addr \<Rightarrow> file_lock option"
  wr_heap :: "addr \<Rightarrow> write_records option"
  brk :: addr
  head_lock_list :: "addr option"

record pauses =
  pause_array :: "pause_node list"
  index_pause_array :: int

record stats =
  u_conflict :: int
  tb_conflict :: int
  no_of_abrt :: int
  no_on_wait :: int
  total_wait_time :: int
  abrt_after_pause :: int
  abrt_on_dead :: int

text \<open>Calls on the file system, in the order they are made.  The file system proper is below
  this layer; what it answers is in the record \<open>fs_env\<close> of CLib.\<close>

datatype fs_call =
  Tr_close int int
| Tr_close_abort int int
| Fs_lseek int int
| Fs_write int "char list"
| Fs_rename cstring cstring
| Fs_sync cstring
| Fs_unlink cstring
| Flush_log
| Tr_open cstring int
| Tr_creat cstring int
| Tr_write int cstring int int
| Tr_read int int
| Tr_lseek int int int
| Fs_chmod cstring bool
| Fs_close int
| Bck_write cstring
| Bck_copy

record server =
  lk :: lockmem
  head_txn_list :: "txn_node list"
  head_wait_list :: "wait_node list"
  event_log :: cfile
  log_mutex :: bool      \<comment> \<open>held\<close>
  log_dev_ok :: bool     \<comment> \<open>whether the device under the log accepts writes\<close>
  last_txn_id :: int
  BACKUP :: bck_state
  pz :: pauses
  st :: stats
  fs_calls :: "fs_call list"

text \<open>Start-up: all lists empty, the pause table zeroed, identifier 0 reserved for the backup
  transaction.  The log file is opened as it was left.\<close>

definition empty_lockmem :: lockmem where
  "empty_lockmem = \<lparr>fl_heap = Map.empty, wr_heap = Map.empty, brk = 0, head_lock_list = None\<rparr>"

definition NUM_PAUSE :: nat where
  "NUM_PAUSE = 100"

definition global_init :: "char list \<Rightarrow> server" where
  "global_init logdata =
     \<lparr>lk = empty_lockmem, head_txn_list = [], head_wait_list = [],
      event_log = \<lparr>content = logdata, fpos = 0\<rparr>, log_mutex = False, log_dev_ok = True, last_txn_id = 0, BACKUP = INACTIVE,
      pz = \<lparr>pause_array = replicate NUM_PAUSE \<lparr>pn_txnid = 0, pn_pause_times = 0\<rparr>,
            index_pause_array = 0\<rparr>,
      st = \<lparr>u_conflict = 0, tb_conflict = 0, no_of_abrt = 0, no_on_wait = 0,
            total_wait_time = 0, abrt_after_pause = 0, abrt_on_dead = 0\<rparr>,
      fs_calls = []\<rparr>"

section \<open>Reading and writing through pointers\<close>

definition fl_get :: "lockmem \<Rightarrow> addr option \<Rightarrow> file_lock option" where
  "fl_get m p = do { a \<leftarrow> p; fl_heap m a }"

definition fl_set :: "addr option \<Rightarrow> (file_lock \<Rightarrow> file_lock) \<Rightarrow> lockmem \<Rightarrow> lockmem option" where
  "fl_set p g m = do { a \<leftarrow> p; n \<leftarrow> fl_heap m a; Some (m\<lparr>fl_heap := (fl_heap m)(a \<mapsto> g n)\<rparr>) }"

definition fl_alloc :: "file_lock \<Rightarrow> lockmem \<Rightarrow> addr \<times> lockmem" where
  "fl_alloc n m = (brk m, m\<lparr>fl_heap := (fl_heap m)(brk m \<mapsto> n), brk := Suc (brk m)\<rparr>)"

definition fl_free :: "addr \<Rightarrow> lockmem \<Rightarrow> lockmem option" where
  "fl_free a m = do { _ \<leftarrow> fl_heap m a; Some (m\<lparr>fl_heap := (fl_heap m)(a := None)\<rparr>) }"

definition wr_set :: "addr option \<Rightarrow> (write_records \<Rightarrow> write_records) \<Rightarrow> lockmem \<Rightarrow> lockmem option" where
  "wr_set p g m = do { a \<leftarrow> p; n \<leftarrow> wr_heap m a; Some (m\<lparr>wr_heap := (wr_heap m)(a \<mapsto> g n)\<rparr>) }"

definition wr_alloc :: "write_records \<Rightarrow> lockmem \<Rightarrow> addr \<times> lockmem" where
  "wr_alloc n m = (brk m, m\<lparr>wr_heap := (wr_heap m)(brk m \<mapsto> n), brk := Suc (brk m)\<rparr>)"

definition wr_free :: "addr \<Rightarrow> lockmem \<Rightarrow> lockmem option" where
  "wr_free a m = do { _ \<leftarrow> wr_heap m a; Some (m\<lparr>wr_heap := (wr_heap m)(a := None)\<rparr>) }"

text \<open>The allocator's promise: every live cell lies below \<open>brk\<close>.\<close>

definition mem_ok :: "lockmem \<Rightarrow> bool" where
  "mem_ok m \<longleftrightarrow> (\<forall>a n. fl_heap m a = Some n \<longrightarrow> a < brk m) \<and> (\<forall>a n. wr_heap m a = Some n \<longrightarrow> a < brk m)"

lemma mem_okD:
  "mem_ok m \<Longrightarrow> fl_heap m a = Some n \<Longrightarrow> a < brk m"
  "mem_ok m \<Longrightarrow> wr_heap m a = Some w \<Longrightarrow> a < brk m"
  by (auto simp: mem_ok_def)

lemma mem_ok_fresh [simp]: "mem_ok m \<Longrightarrow> fl_heap m (brk m) = None" "mem_ok m \<Longrightarrow> wr_heap m (brk m) = None"
  by (cases "fl_heap m (brk m)"; auto simp: mem_ok_def)
    (cases "wr_heap m (brk m)"; auto simp: mem_ok_def)

lemma mem_ok_empty [inv_intros]: "mem_ok empty_lockmem"
  by (simp add: mem_ok_def empty_lockmem_def)

lemma mem_ok_fl_alloc [inv_intros]: "mem_ok m \<Longrightarrow> fl_alloc n m = (a, m') \<Longrightarrow> mem_ok m'"
  by (auto simp: mem_ok_def fl_alloc_def less_SucI split: if_splits)

lemma mem_ok_wr_alloc [inv_intros]: "mem_ok m \<Longrightarrow> wr_alloc n m = (a, m') \<Longrightarrow> mem_ok m'"
  by (auto simp: mem_ok_def wr_alloc_def less_SucI split: if_splits)

lemma mem_ok_fl_set [inv_intros]: "mem_ok m \<Longrightarrow> fl_set p g m = Some m' \<Longrightarrow> mem_ok m'"
  by (auto simp: mem_ok_def fl_set_def Option.bind_eq_Some_conv split: if_splits)

lemma mem_ok_wr_set [inv_intros]: "mem_ok m \<Longrightarrow> wr_set p g m = Some m' \<Longrightarrow> mem_ok m'"
  by (auto simp: mem_ok_def wr_set_def Option.bind_eq_Some_conv split: if_splits)

lemma mem_ok_fl_free [inv_intros]: "mem_ok m \<Longrightarrow> fl_free a m = Some m' \<Longrightarrow> mem_ok m'"
  by (auto simp: mem_ok_def fl_free_def Option.bind_eq_Some_conv split: if_splits)

lemma mem_ok_wr_free [inv_intros]: "mem_ok m \<Longrightarrow> wr_free a m = Some m' \<Longrightarrow> mem_ok m'"
  by (auto simp: mem_ok_def wr_free_def Option.bind_eq_Some_conv split: if_splits)

lemma mem_ok_path_length:
  "mem_ok m \<Longrightarrow> lpath (fl_heap m) sel p as None \<Longrightarrow> length as \<le> brk m"
  by (rule lpath_length_le) (auto dest: mem_okD)

lemma mem_ok_wr_path_length:
  "mem_ok m \<Longrightarrow> lpath (wr_heap m) sel p as None \<Longrightarrow> length as \<le> brk m"
  by (rule lpath_length_le) (auto dest: mem_okD)

text \<open>Loops over the lock list and over write records: walks with \<open>Suc brk\<close> units of fuel.\<close>

definition fl_last :: "(file_lock \<Rightarrow> addr option) \<Rightarrow> lockmem \<Rightarrow> addr \<Rightarrow> addr option" where
  "fl_last sel m a = walk_last (fl_heap m) sel (Suc (brk m)) a"

definition fl_find :: "(file_lock \<Rightarrow> bool) \<Rightarrow> lockmem \<Rightarrow> addr option" where
  "fl_find P m = walk_find (fl_heap m) fl_next P (Suc (brk m)) (head_lock_list m)"

definition wr_last :: "lockmem \<Rightarrow> addr \<Rightarrow> addr option" where
  "wr_last m a = walk_last (wr_heap m) wr_next (Suc (brk m)) a"

lemma fl_last_path:
  "mem_ok m \<Longrightarrow> lpath (fl_heap m) sel (Some a) as None \<Longrightarrow> fl_last sel m a = Some (last as)"
  unfolding fl_last_def
  by (rule walk_last_path) (auto dest: mem_ok_path_length)

lemma wr_last_path:
  "mem_ok m \<Longrightarrow> lpath (wr_heap m) wr_next (Some a) as None \<Longrightarrow> wr_last m a = Some (last as)"
  unfolding wr_last_def
  by (rule walk_last_path) (auto dest: mem_ok_wr_path_length)

end
