(* ===== verification/LockList.thy ===== *)
theory LockList
  imports ServerState
begin

text \<open>
  The list of locked files (the list part of Lock_manager1.c): nodes in one doubly linked
  list in the order of their inodes, where the \<open>prev\<close> field of the first node points to the
  node itself.  The operations work on the heap, pointer by pointer; \<open>lock_list m xs\<close> says
  that the list in memory \<open>m\<close> consists of the cells \<open>xs\<close>, and the lemmas state each
  operation as an operation on \<open>xs\<close>.
\<close>

section \<open>Operations\<close>

definition get_file_node :: "int \<Rightarrow> int \<Rightarrow> int \<Rightarrow> int \<Rightarrow> file_lock" where
  "get_file_node f_inode f_length f_flags txnid =
     \<lparr>fl_file_inode = f_inode, fl_file_mode = (if f_flags = 0 then 0 else 1), fl_fd = - 1,
      fl_file_offset = - 1, fl_file_size = f_length, fl_flags = f_flags, fl_parent_txn = txnid,
      fl_next_txn = None, fl_prev_shared_rec = None, fl_next_shared_rec = None,
      fl_next = None, fl_prev = None, fl_writes_at = None\<rparr>"

definition free_file_node :: "addr \<Rightarrow> lockmem \<Rightarrow> lockmem option" where
  "free_file_node a m = do {
     m \<leftarrow> fl_set (Some a) (\<lambda>n. n\<lparr>fl_next_txn := None, fl_prev_shared_rec := None,
                 fl_next_shared_rec := None, fl_next := None, fl_prev := None\<rparr>) m;
     fl_free a m }"

fun search_loop :: "(addr \<Rightarrow> file_lock option) \<Rightarrow> int \<Rightarrow> nat \<Rightarrow> addr \<Rightarrow> addr option \<Rightarrow> (addr \<times> addr option) option" where
  "search_loop h f_inode 0 foll ptr = None"
| "search_loop h f_inode (Suc k) foll ptr =
     (case ptr of None \<Rightarrow> Some (foll, None)
      | Some a \<Rightarrow> do { n \<leftarrow> h a;
                      if fl_file_inode n \<ge> f_inode then Some (foll, Some a)
                      else search_loop h f_inode k a (fl_next n) })"

definition search_file_list :: "int \<Rightarrow> lockmem \<Rightarrow> (int \<times> addr option) option" where
  "search_file_list f_inode m =
     (case head_lock_list m of
        None \<Rightarrow> Some (0, None)
      | Some foll0 \<Rightarrow> do {
          n0 \<leftarrow> fl_heap m foll0;
          (foll, ptr) \<leftarrow> search_loop (fl_heap m) f_inode (Suc (brk m)) foll0 (fl_next n0);
          nf \<leftarrow> fl_heap m foll;
          case ptr of
            Some p \<Rightarrow> do {
              np \<leftarrow> fl_heap m p;
              if fl_file_inode np = f_inode then Some (1, Some p)
              else if fl_file_inode nf = f_inode then Some (1, Some foll)
              else Some (0, Some foll) }
          | None \<Rightarrow>
              if fl_file_inode nf = f_inode then Some (1, Some foll) else Some (0, Some foll) })"

definition delete_file_list :: "addr \<Rightarrow> lockmem \<Rightarrow> lockmem option" where
  "delete_file_list a m = do {
     n \<leftarrow> fl_heap m a;
     if head_lock_list m = Some a then do {
       let m = m\<lparr>head_lock_list := fl_next n\<rparr>;
       m \<leftarrow> (if fl_next n \<noteq> None then fl_set (fl_next n) (\<lambda>x. x\<lparr>fl_prev := head_lock_list m\<rparr>) m else Some m);
       free_file_node a m }
     else if fl_next n = None then do {
       m \<leftarrow> fl_set (fl_prev n) (\<lambda>x. x\<lparr>fl_next := None\<rparr>) m;
       free_file_node a m }
     else do {
       m \<leftarrow> fl_set (fl_prev n) (\<lambda>x. x\<lparr>fl_next := fl_next n\<rparr>) m;
       m \<leftarrow> fl_set (fl_next n) (\<lambda>x. x\<lparr>fl_prev := fl_prev n\<rparr>) m;
       free_file_node a m } }"

text \<open>The linking of a new node in \<open>insert_file_list\<close> when the file was not locked: \<open>loc\<close> is
  what \<open>search_file_list\<close> returned.\<close>

definition link_unlocked :: "addr \<Rightarrow> int \<Rightarrow> addr option \<Rightarrow> lockmem \<Rightarrow> lockmem option" where
  "link_unlocked new f_inode loc m =
     (case loc of
        None \<Rightarrow> do {
          let m = m\<lparr>head_lock_list := Some new\<rparr>;
          fl_set (Some new) (\<lambda>x. x\<lparr>fl_prev := head_lock_list m\<rparr>) m }
      | Some l \<Rightarrow> do {
          nl \<leftarrow> fl_heap m l;
          if head_lock_list m = Some l \<and> fl_file_inode nl > f_inode then do {
            m \<leftarrow> fl_set (Some new) (\<lambda>x. x\<lparr>fl_next := loc\<rparr>) m;
            m \<leftarrow> fl_set loc (\<lambda>x. x\<lparr>fl_prev := Some new\<rparr>) m;
            m \<leftarrow> fl_set (Some new) (\<lambda>x. x\<lparr>fl_prev := Some new\<rparr>) m;
            Some (m\<lparr>head_lock_list := Some new\<rparr>) }
          else do {
            m \<leftarrow> fl_set (Some new) (\<lambda>x. x\<lparr>fl_next := fl_next nl\<rparr>) m;
            m \<leftarrow> (if fl_next nl \<noteq> None then fl_set (fl_next nl) (\<lambda>x. x\<lparr>fl_prev := Some new\<rparr>) m else Some m);
            m \<leftarrow> fl_set loc (\<lambda>x. x\<lparr>fl_next := Some new\<rparr>) m;
            fl_set (Some new) (\<lambda>x. x\<lparr>fl_prev := loc\<rparr>) m } })"

text \<open>The linking of a new shared holder behind the last one, \<open>ptr\<close>.\<close>

definition link_shared :: "addr \<Rightarrow> addr \<Rightarrow> lockmem \<Rightarrow> lockmem option" where
  "link_shared new ptr m = do {
     np \<leftarrow> fl_heap m ptr;
     m \<leftarrow> fl_set (Some new) (\<lambda>x. x\<lparr>fl_next := fl_next np\<rparr>) m;
     m \<leftarrow> (if fl_next np \<noteq> None then fl_set (fl_next np) (\<lambda>x. x\<lparr>fl_prev := Some new\<rparr>) m else Some m);
     m \<leftarrow> fl_set (Some ptr) (\<lambda>x. x\<lparr>fl_next := Some new\<rparr>) m;
     m \<leftarrow> fl_set (Some new) (\<lambda>x. x\<lparr>fl_prev := Some ptr\<rparr>) m;
     m \<leftarrow> fl_set (Some new) (\<lambda>x. x\<lparr>fl_prev_shared_rec := Some ptr\<rparr>) m;
     fl_set (Some ptr) (\<lambda>x. x\<lparr>fl_next_shared_rec := Some new\<rparr>) m }"

section \<open>The list in memory\<close>

fun dseg :: "(addr \<Rightarrow> file_lock option) \<Rightarrow> addr \<Rightarrow> addr option \<Rightarrow> addr list \<Rightarrow> addr option \<Rightarrow> bool" where
  "dseg h pv p [] q = (p = q)"
| "dseg h pv p (a # as) q =
     (p = Some a \<and> (\<exists>n. h a = Some n \<and> fl_prev n = Some pv \<and> dseg h a (fl_next n) as q))"

definition lock_list :: "lockmem \<Rightarrow> addr list \<Rightarrow> bool" where
  "lock_list m xs \<longleftrightarrow> mem_ok m \<and> dseg (fl_heap m) (hd xs) (head_lock_list m) xs None"

definition ino :: "lockmem \<Rightarrow> addr \<Rightarrow> int" where
  "ino m a = (case fl_heap m a of Some n \<Rightarrow> fl_file_inode n | None \<Rightarrow> 0)"

definition fl_core :: "file_lock \<Rightarrow> file_lock" where
  "fl_core n = n\<lparr>fl_next := None, fl_prev := None\<rparr>"

text \<open>Apart from their place in the list, the nodes other than those in \<open>A\<close> are the same.\<close>

definition same_nodes :: "addr set \<Rightarrow> lockmem \<Rightarrow> lockmem \<Rightarrow> bool" where
  "same_nodes A m m' \<longleftrightarrow> (\<forall>b. b \<notin> A \<longrightarrow> map_option fl_core (fl_heap m' b) = map_option fl_core (fl_heap m b))"

lemma dseg_lpath: "dseg h pv p as q \<Longrightarrow> lpath h fl_next p as q"
  by (induction as arbitrary: pv p) auto

lemma dseg_append [heap_simps]:
  "dseg h pv p (as @ bs) q \<longleftrightarrow> (\<exists>r. dseg h pv p as r \<and> dseg h (last (pv # as)) r bs q)"
  by (induction as arbitrary: pv p) auto

lemma dseg_upd_other [heap_simps]:
  "u \<notin> set as \<Longrightarrow> dseg (h(u := v)) pv p as q = dseg h pv p as q"
  by (induction as arbitrary: pv p) auto

lemma dseg_None_iff [simp]: "dseg h pv None as q \<longleftrightarrow> as = [] \<and> q = None"
  by (cases as) auto

lemma dseg_Some_iff:
  "dseg h pv (Some a) as None \<longleftrightarrow>
   (\<exists>as' n. as = a # as' \<and> h a = Some n \<and> fl_prev n = Some pv \<and> dseg h a (fl_next n) as' None)"
  by (cases as) auto

lemma lock_list_path: "lock_list m xs \<Longrightarrow> lpath (fl_heap m) fl_next (head_lock_list m) xs None"
  unfolding lock_list_def using dseg_lpath by blast

lemma lock_list_distinct: "lock_list m xs \<Longrightarrow> distinct xs"
  using lock_list_path lpath_distinct by blast

lemma lock_list_unique: "lock_list m xs \<Longrightarrow> lock_list m ys \<Longrightarrow> xs = ys"
  using lock_list_path lpath_unique by blast

lemma lock_list_alloc: "lock_list m xs \<Longrightarrow> a \<in> set xs \<Longrightarrow> \<exists>n. fl_heap m a = Some n"
  using lock_list_path lpath_alloc by blast

lemma lock_list_length: "lock_list m xs \<Longrightarrow> length xs \<le> brk m"
  using mem_ok_path_length lock_list_path unfolding lock_list_def by blast

lemma lock_list_head: "lock_list m xs \<Longrightarrow> head_lock_list m = (case xs of [] \<Rightarrow> None | x # _ \<Rightarrow> Some x)"
  by (cases xs) (auto simp: lock_list_def)

lemma fl_core_simps [simp]:
  "fl_core (n\<lparr>fl_next := p\<rparr>) = fl_core n" "fl_core (n\<lparr>fl_prev := p\<rparr>) = fl_core n"
  by (simp_all add: fl_core_def)

lemma fl_core_sel [simp]:
  "fl_file_inode (fl_core n) = fl_file_inode n" "fl_file_mode (fl_core n) = fl_file_mode n"
  "fl_fd (fl_core n) = fl_fd n" "fl_flags (fl_core n) = fl_flags n"
  "fl_parent_txn (fl_core n) = fl_parent_txn n" "fl_next_txn (fl_core n) = fl_next_txn n"
  "fl_prev_shared_rec (fl_core n) = fl_prev_shared_rec n"
  "fl_next_shared_rec (fl_core n) = fl_next_shared_rec n" "fl_writes_at (fl_core n) = fl_writes_at n"
  by (simp_all add: fl_core_def)

lemma same_nodes_refl [simp]: "same_nodes A m m"
  by (simp add: same_nodes_def)

lemma same_nodes_trans: "same_nodes A m1 m2 \<Longrightarrow> same_nodes B m2 m3 \<Longrightarrow> same_nodes (A \<union> B) m1 m3"
  by (simp add: same_nodes_def)

lemma same_nodes_field:
  assumes "same_nodes A m m'" and "b \<notin> A" and "\<And>n. F (fl_core n) = F n"
  shows "map_option F (fl_heap m' b) = map_option F (fl_heap m b)"
proof -
  have F: "map_option F p = map_option F (map_option fl_core p)" for p
    by (cases p) (simp_all add: assms(3))
  have "map_option fl_core (fl_heap m' b) = map_option fl_core (fl_heap m b)"
    using assms(1,2) by (simp add: same_nodes_def)
  then show ?thesis unfolding F [of "fl_heap m b"] F [of "fl_heap m' b"] by (rule arg_cong)
qed

lemma ino_alt: "ino m a = (case map_option fl_file_inode (fl_heap m a) of Some i \<Rightarrow> i | None \<Rightarrow> 0)"
  by (simp add: ino_def split: option.splits)

lemma same_nodes_ino: "same_nodes A m m' \<Longrightarrow> b \<notin> A \<Longrightarrow> ino m' b = ino m b"
  unfolding ino_alt by (simp add: same_nodes_field [where F = fl_file_inode])

section \<open>Search\<close>

lemma search_loop_path:
  "lpath h fl_next ptr as None \<Longrightarrow> length as < k \<Longrightarrow>
   search_loop h f k foll ptr =
     Some (last (foll # takeWhile (\<lambda>a. fl_file_inode (the (h a)) < f) as),
           case dropWhile (\<lambda>a. fl_file_inode (the (h a)) < f) as of [] \<Rightarrow> None | b # _ \<Rightarrow> Some b)"
proof (induction as arbitrary: ptr k foll)
  case Nil
  then show ?case by (cases k) auto
next
  case (Cons a as)
  from Cons.prems obtain n k' where n: "ptr = Some a" "h a = Some n" "lpath h fl_next (fl_next n) as None"
      "k = Suc k'" "length as < k'"
    by (cases k) auto
  show ?case
  proof (cases "fl_file_inode n \<ge> f")
    case True
    with n show ?thesis by simp
  next
    case False
    with n Cons.IH [OF n(3,5), of a] show ?thesis by auto
  qed
qed

definition below :: "lockmem \<Rightarrow> int \<Rightarrow> addr list \<Rightarrow> addr list" where
  "below m f as = takeWhile (\<lambda>a. ino m a < f) as"

definition above :: "lockmem \<Rightarrow> int \<Rightarrow> addr list \<Rightarrow> addr list" where
  "above m f as = dropWhile (\<lambda>a. ino m a < f) as"

lemma search_Nil: "lock_list m [] \<Longrightarrow> search_file_list f m = Some (0, None)"
  by (simp add: search_file_list_def lock_list_head)

lemma search_Cons:
  assumes "lock_list m (x # as)"
  shows "search_file_list f m =
    (let foll = last (x # below m f as)
     in case above m f as of
          b # _ \<Rightarrow> if ino m b = f then Some (1, Some b)
                 else if ino m foll = f then Some (1, Some foll) else Some (0, Some foll)
        | [] \<Rightarrow> if ino m foll = f then Some (1, Some foll) else Some (0, Some foll))"
proof -
  have p: "lpath (fl_heap m) fl_next (Some x) (x # as) None" and hd: "head_lock_list m = Some x"
    using lock_list_path [OF assms] by auto
  then obtain n0 where n0: "fl_heap m x = Some n0" "lpath (fl_heap m) fl_next (fl_next n0) as None"
    by auto
  have len: "length as < Suc (brk m)" using lock_list_length [OF assms] by simp
  have al: "\<exists>n. fl_heap m a = Some n" if "a \<in> set (x # as)" for a
    using that lpath_alloc [OF p] by blast
  have tw: "takeWhile (\<lambda>a. fl_file_inode (the (fl_heap m a)) < f) as = below m f as"
    unfolding below_def using al by (intro takeWhile_cong) (force simp: ino_def)+
  have dw: "dropWhile (\<lambda>a. fl_file_inode (the (fl_heap m a)) < f) as = above m f as"
    unfolding above_def using al by (intro dropWhile_cong) (force simp: ino_def)+
  let ?foll = "last (x # below m f as)"
  have "?foll \<in> set (x # as)"
    using last_in_set [of "x # below m f as"] set_takeWhileD by (fastforce simp: below_def)
  then obtain nf where nf: "fl_heap m ?foll = Some nf" using al by blast
  have ab: "b \<in> set (x # as)" if "above m f as = b # bs" for b bs
    using that set_dropWhileD [of b _ as] by (metis above_def list.set_intros(1,2))
  show ?thesis
  proof (cases "above m f as")
    case Nil
    then show ?thesis
      using hd n0 nf search_loop_path [OF n0(2) len, of f x]
      by (simp add: search_file_list_def tw dw Let_def ino_def)
  next
    case (Cons b bs)
    then obtain nb where "fl_heap m b = Some nb" using al ab by blast
    then show ?thesis
      using hd n0 nf Cons search_loop_path [OF n0(2) len, of f x]
      by (simp add: search_file_list_def tw dw Let_def ino_def)
  qed
qed

definition inodes_sorted :: "lockmem \<Rightarrow> addr list \<Rightarrow> bool" where
  "inodes_sorted m xs \<longleftrightarrow> sorted (map (ino m) xs)"

lemma above_sorted_hd:
  assumes "inodes_sorted m as" and "y \<in> set as" and "ino m y = f"
  shows "\<exists>b bs. above m f as = b # bs \<and> ino m b = f"
  using assms
proof (induction as)
  case Nil
  then show ?case by simp
next
  case (Cons a as)
  show ?case
  proof (cases "ino m a < f")
    case True
    with Cons show ?thesis by (auto simp: inodes_sorted_def above_def)
  next
    case False
    with Cons.prems have "ino m a = f" by (auto simp: inodes_sorted_def)
    with False show ?thesis by (simp add: above_def)
  qed
qed

text \<open>A locked inode is found, at a node of that inode.\<close>

lemma search_found:
  assumes "lock_list m xs" and "inodes_sorted m xs" and "y \<in> set xs" and "ino m y = f"
  shows "\<exists>a \<in> set xs. ino m a = f \<and> search_file_list f m = Some (1, Some a)"
proof (cases xs)
  case Nil
  with assms show ?thesis by simp
next
  case (Cons x as)
  show ?thesis
  proof (cases "y \<in> set as")
    case True
    then obtain b bs where b: "above m f as = b # bs" "ino m b = f"
      using above_sorted_hd [of m as y f] assms(2,4) Cons by (auto simp: inodes_sorted_def)
    have "b \<in> set as" using b(1) set_dropWhileD [of b] by (metis above_def list.set_intros(1))
    with b show ?thesis using search_Cons [of m x as f] assms(1) Cons by auto
  next
    case False
    with assms(3,4) Cons have "ino m x = f" by simp
    then have tw: "below m f as = []" and above: "above m f as = as"
      using assms(2) Cons by (cases as; auto simp: inodes_sorted_def below_def above_def)+
    have "ino m b \<noteq> f \<Longrightarrow> search_file_list f m = Some (1, Some x)" if "as = b # bs" for b bs
      using search_Cons [of m x as f] assms(1) Cons tw above that \<open>ino m x = f\<close> by simp
    moreover have "ino m b = f \<Longrightarrow> search_file_list f m = Some (1, Some b)" if "as = b # bs" for b bs
      using search_Cons [of m x as f] assms(1) Cons tw above that by simp
    moreover have "search_file_list f m = Some (1, Some x)" if "as = []"
      using search_Cons [of m x as f] assms(1) Cons tw above that \<open>ino m x = f\<close> by simp
    ultimately show ?thesis using Cons \<open>ino m x = f\<close> by (cases as) auto
  qed
qed

text \<open>An unlocked inode is not found; the node returned is the last one with a smaller inode,
  or the first node of the list when there is none.\<close>

lemma search_not_found:
  assumes "lock_list m (x # as)" and "\<And>y. y \<in> set (x # as) \<Longrightarrow> ino m y \<noteq> f"
  shows "search_file_list f m = Some (0, Some (last (x # below m f as)))"
proof -
  let ?foll = "last (x # below m f as)"
  have "?foll \<in> set (x # as)"
    using last_in_set [of "x # below m f as"] set_takeWhileD by (fastforce simp: below_def)
  then have "ino m ?foll \<noteq> f" by (rule assms(2))
  moreover have "ino m b \<noteq> f" if "above m f as = b # bs" for b bs
    using that set_dropWhileD [of b _ as] assms(2) by (metis above_def list.set_intros(1,2))
  ultimately show ?thesis
    using search_Cons [OF assms(1), of f] by (cases "above m f as") (auto simp: Let_def)
qed

section \<open>Removal\<close>

lemma fl_set_Some: "fl_heap m a = Some n \<Longrightarrow> fl_set (Some a) g m = Some (m\<lparr>fl_heap := (fl_heap m)(a \<mapsto> g n)\<rparr>)"
  by (simp add: fl_set_def)

lemma free_file_node_eq:
  "fl_heap m a = Some n \<Longrightarrow> free_file_node a m = Some (m\<lparr>fl_heap := (fl_heap m)(a := None)\<rparr>)"
  by (simp add: free_file_node_def fl_set_Some fl_free_def)

lemma mem_ok_upd:
  "mem_ok m \<Longrightarrow> fl_heap m a = Some n \<Longrightarrow> mem_ok (m\<lparr>fl_heap := (fl_heap m)(a \<mapsto> n')\<rparr>)"
  "mem_ok m \<Longrightarrow> mem_ok (m\<lparr>fl_heap := (fl_heap m)(a := None)\<rparr>)"
  "mem_ok m \<Longrightarrow> mem_ok (m\<lparr>head_lock_list := p\<rparr>)"
  by (auto simp: mem_ok_def)

lemma delete_file_list_spec:
  assumes "lock_list m (us @ a # vs)"
  shows "\<exists>m'. delete_file_list a m = Some m' \<and> lock_list m' (us @ vs) \<and> fl_heap m' a = None \<and>
     same_nodes {a} m m' \<and> wr_heap m' = wr_heap m \<and> brk m' = brk m"
proof -
  have ok: "mem_ok m" and d: "dseg (fl_heap m) (hd (us @ a # vs)) (head_lock_list m) (us @ a # vs) None"
    using assms by (auto simp: lock_list_def)
  have dist: "distinct (us @ a # vs)" using lock_list_distinct [OF assms] .
  show ?thesis
  proof (cases us rule: rev_cases)
    case Nil
    with d obtain n where n: "head_lock_list m = Some a" "fl_heap m a = Some n" "dseg (fl_heap m) a (fl_next n) vs None"
      by auto
    show ?thesis
    proof (cases vs)
      case Nil': Nil
      with n have "fl_next n = None" by simp
      with n Nil Nil' ok show ?thesis
        by (auto simp: delete_file_list_def free_file_node_eq lock_list_def mem_ok_def same_nodes_def)
    next
      case (Cons w ws)
      with n obtain nw where w: "fl_next n = Some w" "fl_heap m w = Some nw" "fl_prev nw = Some a"
          "dseg (fl_heap m) w (fl_next nw) ws None" by auto
      have ne: "w \<noteq> a" "a \<notin> set ws" "w \<notin> set ws" using dist Cons by auto
      let ?m = "m\<lparr>head_lock_list := Some w, fl_heap := (fl_heap m)(w \<mapsto> nw\<lparr>fl_prev := Some w\<rparr>, a := None)\<rparr>"
      have "delete_file_list a m = Some ?m"
        using n w ne by (simp add: delete_file_list_def fl_set_Some free_file_node_eq)
      moreover have "lock_list ?m (us @ vs)"
        using w ne ok Nil Cons by (auto simp: lock_list_def mem_ok_def dseg_upd_other)
      moreover have "same_nodes {a} m ?m" using w by (simp add: same_nodes_def)
      ultimately show ?thesis by simp
    qed
  next
    case (snoc us' v)
    have hd: "hd (us' @ v # a # vs) = hd (us' @ [v])" by (cases us') auto
    from d snoc obtain nv n r where seg: "dseg (fl_heap m) (hd (us' @ [v])) (head_lock_list m) us' (Some v)"
      and v: "fl_heap m v = Some nv" "fl_prev nv = Some r" "fl_next nv = Some a"
      and r: "r = last (hd (us' @ [v]) # us')"
      and n: "fl_heap m a = Some n" "fl_prev n = Some v" "dseg (fl_heap m) a (fl_next n) vs None"
      by (auto simp: dseg_append hd)
    have nh: "head_lock_list m \<noteq> Some a"
      using lock_list_head [OF assms] snoc dist by (cases us') auto
    have ne: "v \<noteq> a" "v \<notin> set us'" "a \<notin> set us'" "v \<notin> set vs" "a \<notin> set vs"
      using dist snoc by auto
    show ?thesis
    proof (cases vs)
      case Nil
      with n have nn: "fl_next n = None" by simp
      let ?m = "m\<lparr>fl_heap := (fl_heap m)(v \<mapsto> nv\<lparr>fl_next := None\<rparr>, a := None)\<rparr>"
      have "delete_file_list a m = Some ?m"
        using n v nn nh ne by (simp add: delete_file_list_def fl_set_Some free_file_node_eq)
      moreover have "lock_list ?m (us @ vs)"
        using seg v r ne ok snoc Nil by (auto simp: lock_list_def mem_ok_def dseg_append dseg_upd_other)
      moreover have "same_nodes {a} m ?m" using v by (simp add: same_nodes_def)
      ultimately show ?thesis by auto
    next
      case (Cons w ws)
      with n obtain nw where w: "fl_next n = Some w" "fl_heap m w = Some nw" "fl_prev nw = Some a"
          "dseg (fl_heap m) w (fl_next nw) ws None" by auto
      have ne': "w \<noteq> a" "w \<noteq> v" "w \<notin> set us'" "w \<notin> set ws" "v \<notin> set ws" "a \<notin> set ws"
        using dist snoc Cons by auto
      let ?m = "m\<lparr>fl_heap := (fl_heap m)(v \<mapsto> nv\<lparr>fl_next := Some w\<rparr>, w \<mapsto> nw\<lparr>fl_prev := Some v\<rparr>, a := None)\<rparr>"
      have "delete_file_list a m = Some ?m"
        using n v w nh ne ne' by (simp add: delete_file_list_def fl_set_Some free_file_node_eq)
      moreover have "lock_list ?m (us @ vs)"
        using seg v r w ne ne' ok snoc Cons
        by (auto simp: lock_list_def mem_ok_def dseg_append dseg_upd_other)
      moreover have "same_nodes {a} m ?m" using v w by (simp add: same_nodes_def)
      ultimately show ?thesis by auto
    qed
  qed
qed

section \<open>Insertion\<close>

lemma lock_list_split:
  assumes "lock_list m (us @ l # vs)"
  obtains nl where "fl_heap m l = Some nl"
    and "dseg (fl_heap m) (hd (us @ [l])) (head_lock_list m) us (Some l)"
    and "fl_prev nl = Some (last (hd (us @ [l]) # us))"
    and "dseg (fl_heap m) l (fl_next nl) vs None"
proof -
  have "hd (us @ l # vs) = hd (us @ [l])" by (cases us) auto
  then show ?thesis using assms that by (auto simp: lock_list_def dseg_append)
qed

text \<open>The heap after a node is put behind \<open>l\<close>: \<open>g\<close> and \<open>k\<close> stand for what else is stored in the
  new node and in \<open>l\<close>.\<close>

lemma lock_list_insert_after:
  assumes ll: "lock_list m (us @ l # vs)" and new: "fl_heap m new = Some nn" "new \<notin> set (us @ l # vs)"
    and nl: "fl_heap m l = Some nl"
    and n1: "fl_prev n1 = Some l" "fl_next n1 = fl_next nl"
    and l1: "fl_prev l1 = fl_prev nl" "fl_next l1 = Some new"
    and h': "h' = (case vs of [] \<Rightarrow> fl_heap m
                 | w # _ \<Rightarrow> (fl_heap m)(w \<mapsto> (the (fl_heap m w))\<lparr>fl_prev := Some new\<rparr>))(l \<mapsto> l1, new \<mapsto> n1)"
  shows "lock_list (m\<lparr>fl_heap := h'\<rparr>) (us @ l # new # vs)"
proof -
  have ok: "mem_ok m" using ll by (simp add: lock_list_def)
  have dist: "distinct (us @ l # vs)" using lock_list_distinct [OF ll] .
  have hd: "hd (us @ l # new # vs) = hd (us @ [l])" by (cases us) auto
  from ll obtain nl' where seg: "dseg (fl_heap m) (hd (us @ [l])) (head_lock_list m) us (Some l)"
    and p: "fl_prev nl = Some (last (hd (us @ [l]) # us))"
    and r: "dseg (fl_heap m) l (fl_next nl) vs None"
    using nl by (auto elim: lock_list_split)
  have ne: "new \<noteq> l" "l \<notin> set us" "new \<notin> set us" "l \<notin> set vs" "new \<notin> set vs"
    using dist new(2) by auto
  have seg': "dseg h' (hd (us @ [l])) (head_lock_list m) us (Some l)"
    using seg ne dist by (cases vs) (auto simp: h' dseg_upd_other)
  have vs': "dseg h' new (fl_next nl) vs None"
  proof (cases vs)
    case Nil
    then show ?thesis using r by simp
  next
    case (Cons w ws)
    then obtain nw where w: "fl_next nl = Some w" "fl_heap m w = Some nw" "dseg (fl_heap m) w (fl_next nw) ws None"
      using r by auto
    have "l \<notin> set ws" "new \<notin> set ws" "w \<notin> set ws" "w \<noteq> l" "w \<noteq> new" using Cons ne dist by auto
    then show ?thesis using Cons w by (simp add: h' dseg_upd_other)
  qed
  have "mem_ok (m\<lparr>fl_heap := h'\<rparr>)"
  proof -
    have "w < brk m" if "vs = w # ws" for w ws
      using lock_list_alloc [OF ll, of w] that mem_okD(1) [OF ok] by auto
    then show ?thesis using ok new(1) nl by (cases vs) (auto simp: mem_ok_def h')
  qed
  moreover have "h' l = Some l1" "h' new = Some n1" using ne by (auto simp: h')
  then have "dseg h' (hd (us @ [l])) (head_lock_list m) (us @ l # new # vs) None"
    using seg' vs' p n1 l1 by (auto simp: dseg_append)
  ultimately show ?thesis by (simp add: lock_list_def hd)
qed

text \<open>What an insertion of a node \<open>new\<close> gives: the list with the node in its place, the
  nodes otherwise as they were.\<close>

definition inserted :: "addr \<Rightarrow> addr list \<Rightarrow> lockmem \<Rightarrow> lockmem \<Rightarrow> bool" where
  "inserted new xs m m' \<longleftrightarrow> lock_list m' xs \<and> wr_heap m' = wr_heap m \<and> brk m' = brk m"

lemma fl_heap_cong: "(\<And>b. h1 b = h2 b) \<Longrightarrow> m\<lparr>fl_heap := h1\<rparr> = m\<lparr>fl_heap := h2\<rparr>"
proof -
  assume "\<And>b. h1 b = h2 b"
  then have "h1 = h2" by (rule ext)
  then show ?thesis by simp
qed

lemma link_unlocked_Nil:
  assumes "lock_list m []" and "fl_heap m new = Some nn" and "fl_next nn = None"
  shows "\<exists>m'. link_unlocked new f None m = Some m' \<and> inserted new [new] m m' \<and> same_nodes {} m m'"
proof -
  let ?m = "m\<lparr>head_lock_list := Some new, fl_heap := (fl_heap m)(new \<mapsto> nn\<lparr>fl_prev := Some new\<rparr>)\<rparr>"
  have "mem_ok m" using assms(1) by (simp add: lock_list_def)
  then have "mem_ok ?m" using assms(2) by (auto simp: mem_ok_def)
  then show ?thesis
    using assms by (auto simp: link_unlocked_def fl_set_Some lock_list_def inserted_def same_nodes_def)
qed

lemma link_unlocked_front:
  assumes ll: "lock_list m (x # xs)" and new: "fl_heap m new = Some nn" "new \<notin> set (x # xs)"
    and f: "ino m x > f"
  shows "\<exists>m'. link_unlocked new f (Some x) m = Some m' \<and> inserted new (new # x # xs) m m' \<and> same_nodes {} m m'"
proof -
  have ok: "mem_ok m" using ll by (simp add: lock_list_def)
  from ll obtain nx where hd: "head_lock_list m = Some x" and nx: "fl_heap m x = Some nx" "fl_prev nx = Some x"
      "dseg (fl_heap m) x (fl_next nx) xs None"
    by (auto simp: lock_list_def)
  have ne: "x \<noteq> new" "x \<notin> set xs" "new \<notin> set xs" using new(2) lock_list_distinct [OF ll] by auto
  let ?n1 = "nn\<lparr>fl_next := Some x, fl_prev := Some new\<rparr>"
  let ?m = "m\<lparr>fl_heap := (fl_heap m)(x \<mapsto> nx\<lparr>fl_prev := Some new\<rparr>, new \<mapsto> ?n1), head_lock_list := Some new\<rparr>"
  have "link_unlocked new f (Some x) m = Some ?m"
    using hd nx(1) new(1) ne f by (simp add: link_unlocked_def fl_set_Some ino_def fun_upd_twist [of new x])
  moreover have "mem_ok ?m" using ok new(1) nx(1) by (auto simp: mem_ok_def)
  then have "inserted new (new # x # xs) m ?m"
    using nx ne by (auto simp: inserted_def lock_list_def dseg_upd_other)
  moreover have "same_nodes {} m ?m" using new(1) nx(1) by (auto simp: same_nodes_def)
  ultimately show ?thesis by blast
qed

lemma link_unlocked_after:
  assumes ll: "lock_list m (us @ l # vs)" and new: "fl_heap m new = Some nn" "new \<notin> set (us @ l # vs)"
    and f: "us \<noteq> [] \<or> ino m l \<le> f"
  shows "\<exists>m'. link_unlocked new f (Some l) m = Some m' \<and> inserted new (us @ l # new # vs) m m' \<and> same_nodes {} m m'"
proof -
  have dist: "distinct (us @ l # vs)" using lock_list_distinct [OF ll] .
  obtain nl where nl: "fl_heap m l = Some nl" "dseg (fl_heap m) l (fl_next nl) vs None"
    using ll by (auto elim: lock_list_split)
  have front: "\<not> (head_lock_list m = Some l \<and> fl_file_inode nl > f)"
    using f lock_list_head [OF ll] dist nl(1) by (cases us) (auto simp: ino_def)
  have ne: "l \<noteq> new" "new \<notin> set vs" "l \<notin> set vs" using new(2) dist by auto
  let ?n1 = "nn\<lparr>fl_next := fl_next nl, fl_prev := Some l\<rparr>" and ?l1 = "nl\<lparr>fl_next := Some new\<rparr>"
  let ?h = "(case vs of [] \<Rightarrow> fl_heap m
      | w # _ \<Rightarrow> (fl_heap m)(w \<mapsto> (the (fl_heap m w))\<lparr>fl_prev := Some new\<rparr>))(l \<mapsto> ?l1, new \<mapsto> ?n1)"
  have "link_unlocked new f (Some l) m = Some (m\<lparr>fl_heap := ?h\<rparr>)"
  proof (cases vs)
    case Nil
    then show ?thesis using nl new(1) ne front
      by (simp add: link_unlocked_def fl_set_Some) (auto intro!: fl_heap_cong)
  next
    case (Cons w ws)
    then obtain nw where w: "fl_next nl = Some w" "fl_heap m w = Some nw" using nl(2) by auto
    have "w \<noteq> l" "w \<noteq> new" using Cons ne by auto
    then show ?thesis using nl new(1) ne front w Cons
      by (simp add: link_unlocked_def fl_set_Some) (auto intro!: fl_heap_cong)
  qed
  moreover have "lock_list (m\<lparr>fl_heap := ?h\<rparr>) (us @ l # new # vs)"
    by (rule lock_list_insert_after [OF ll new nl(1), of ?n1 ?l1]) simp_all
  moreover have "same_nodes {} m (m\<lparr>fl_heap := ?h\<rparr>)"
    using nl new(1) by (cases vs) (auto simp: same_nodes_def)
  ultimately show ?thesis by (simp add: inserted_def)
qed

lemma link_shared_spec:
  assumes ll: "lock_list m (us @ l # vs)" and new: "fl_heap m new = Some nn" "new \<notin> set (us @ l # vs)"
  shows "\<exists>m'. link_shared new l m = Some m' \<and> inserted new (us @ l # new # vs) m m' \<and> same_nodes {l, new} m m' \<and>
     map_option fl_core (fl_heap m' new) = Some (fl_core (nn\<lparr>fl_prev_shared_rec := Some l\<rparr>)) \<and>
     map_option fl_core (fl_heap m' l) = map_option (\<lambda>n. fl_core (n\<lparr>fl_next_shared_rec := Some new\<rparr>)) (fl_heap m l)"
proof -
  have dist: "distinct (us @ l # vs)" using lock_list_distinct [OF ll] .
  obtain nl where nl: "fl_heap m l = Some nl" "dseg (fl_heap m) l (fl_next nl) vs None"
    using ll by (auto elim: lock_list_split)
  have ne: "l \<noteq> new" "new \<notin> set vs" "l \<notin> set vs" using new(2) dist by auto
  let ?n1 = "nn\<lparr>fl_next := fl_next nl, fl_prev := Some l, fl_prev_shared_rec := Some l\<rparr>"
  let ?l1 = "nl\<lparr>fl_next := Some new, fl_next_shared_rec := Some new\<rparr>"
  let ?h = "(case vs of [] \<Rightarrow> fl_heap m
      | w # _ \<Rightarrow> (fl_heap m)(w \<mapsto> (the (fl_heap m w))\<lparr>fl_prev := Some new\<rparr>))(l \<mapsto> ?l1, new \<mapsto> ?n1)"
  have "link_shared new l m = Some (m\<lparr>fl_heap := ?h\<rparr>)"
  proof (cases vs)
    case Nil
    then have nn: "fl_next nl = None" using nl(2) by simp
    have "link_shared new l m = Some (m\<lparr>fl_heap := (fl_heap m)(new \<mapsto> nn\<lparr>fl_next := None\<rparr>,
        l \<mapsto> nl\<lparr>fl_next := Some new\<rparr>,
        new \<mapsto> nn\<lparr>fl_next := None, fl_prev := Some l\<rparr>, new \<mapsto> ?n1, l \<mapsto> ?l1)\<rparr>)"
      using nl(1) new(1) nn ne(1) by (simp add: link_shared_def fl_set_Some)
    then show ?thesis using Nil ne(1) by (simp only: option.inject list.case) (rule fl_heap_cong, simp)
  next
    case (Cons w ws)
    then obtain nw where w: "fl_next nl = Some w" "fl_heap m w = Some nw" using nl(2) by auto
    have ne': "w \<noteq> l" "w \<noteq> new" "l \<noteq> w" "new \<noteq> w" "new \<noteq> l" using Cons ne by auto
    have "link_shared new l m = Some (m\<lparr>fl_heap := (fl_heap m)(new \<mapsto> nn\<lparr>fl_next := Some w\<rparr>,
        w \<mapsto> nw\<lparr>fl_prev := Some new\<rparr>, l \<mapsto> nl\<lparr>fl_next := Some new\<rparr>,
        new \<mapsto> nn\<lparr>fl_next := Some w, fl_prev := Some l\<rparr>, new \<mapsto> ?n1, l \<mapsto> ?l1)\<rparr>)"
      using nl(1) new(1) w ne'
      by (simp only: link_shared_def fl_set_def bind.bind_lunit lockmem.select_convs lockmem.update_convs
          fun_upd_same fun_upd_other option.distinct simp_thms if_True if_False lockmem.surjective)
        simp
    then show ?thesis using w Cons ne' by (simp only: option.inject list.case) (rule fl_heap_cong, simp)
  qed
  moreover have "lock_list (m\<lparr>fl_heap := ?h\<rparr>) (us @ l # new # vs)"
    by (rule lock_list_insert_after [OF ll new nl(1), of ?n1 ?l1]) simp_all
  moreover have "same_nodes {l, new} m (m\<lparr>fl_heap := ?h\<rparr>)"
    using nl by (cases vs) (auto simp: same_nodes_def)
  ultimately show ?thesis using nl new(1) ne by (simp add: inserted_def fl_core_def)
qed

section \<open>Searching and inserting together\<close>

lemma inodes_sorted_same:
  assumes "inodes_sorted m (us @ vs)" and "same_nodes A m m'" and "A \<inter> set (us @ vs) = {}"
    and "\<And>u. u \<in> set us \<Longrightarrow> ino m u \<le> ino m' new" and "\<And>v. v \<in> set vs \<Longrightarrow> ino m' new \<le> ino m v"
  shows "inodes_sorted m' (us @ new # vs)"
proof -
  have e: "map (ino m') us = map (ino m) us" "map (ino m') vs = map (ino m) vs"
    using assms(2,3) by (auto intro!: same_nodes_ino)
  have M: "map (ino m') (us @ new # vs) = map (ino m) us @ ino m' new # map (ino m) vs"
    by (simp only: map_append list.map e)
  show ?thesis using assms(1,4,5) unfolding inodes_sorted_def M by (auto simp: sorted_append)
qed

lemma split_at_foll: "x # as = butlast (x # below m f as) @ last (x # below m f as) # above m f as"
proof -
  have "x # as = (x # below m f as) @ above m f as" by (simp add: below_def above_def)
  also have "x # below m f as = butlast (x # below m f as) @ [last (x # below m f as)]"
    by (rule append_butlast_last_id [symmetric]) simp
  finally show ?thesis by simp
qed

lemma search_link_unlocked:
  assumes ll: "lock_list m xs" and srt: "inodes_sorted m xs" and new: "fl_heap m new = Some nn" "new \<notin> set xs"
    and nn: "fl_file_inode nn = f" "fl_next nn = None" and free: "\<And>y. y \<in> set xs \<Longrightarrow> ino m y \<noteq> f"
  shows "\<exists>loc m' us vs. search_file_list f m = Some (0, loc) \<and> link_unlocked new f loc m = Some m' \<and>
     xs = us @ vs \<and> inserted new (us @ new # vs) m m' \<and> inodes_sorted m' (us @ new # vs) \<and> same_nodes {} m m'"
proof (cases xs)
  case Nil
  obtain m' where m': "link_unlocked new f None m = Some m'" "inserted new [new] m m'" "same_nodes {} m m'"
    using link_unlocked_Nil [of m new nn f] ll Nil new(1) nn(2) by blast
  have "inserted new ([] @ new # []) m m'" "inodes_sorted m' ([] @ new # [])" "xs = [] @ []"
    using m'(2) Nil by (simp_all add: inodes_sorted_def)
  moreover have "search_file_list f m = Some (0, None)" using search_Nil [of m f] ll Nil by simp
  ultimately show ?thesis using m'(1,3) by (intro exI conjI)
next
  case (Cons x as)
  have f: "ino m new = f" using new(1) nn(1) by (simp add: ino_def)
  have s: "search_file_list f m = Some (0, Some (last (x # below m f as)))"
    using search_not_found [of m x as f] ll Cons free by blast
  have n': "ino m' new = f" if "same_nodes {} m m'" for m' using same_nodes_ino [OF that, of new] f by simp
  show ?thesis
  proof (cases "ino m x > f")
    case True
    then have "below m f as = []" using srt Cons by (cases as) (auto simp: inodes_sorted_def below_def)
    then have loc: "last (x # below m f as) = x" by simp
    obtain m' where m': "link_unlocked new f (Some x) m = Some m'" "inserted new (new # x # as) m m'" "same_nodes {} m m'"
      using link_unlocked_front [of m x as new nn f] ll Cons new True by blast
    have "inodes_sorted m' ([] @ new # x # as)"
      using srt Cons True m'(3) n' [OF m'(3)] by (intro inodes_sorted_same [of m]) (auto simp: inodes_sorted_def)
    then have "inserted new ([] @ new # xs) m m'" "inodes_sorted m' ([] @ new # xs)" "xs = [] @ xs"
      using m'(2) Cons by simp_all
    then show ?thesis using m'(1,3) s [unfolded loc] by (intro exI conjI)
  next
    case False
    let ?us = "butlast (x # below m f as)" and ?l = "last (x # below m f as)" and ?vs = "above m f as"
    have xs: "xs = ?us @ ?l # ?vs" unfolding Cons by (rule split_at_foll)
    have le: "ino m y \<le> f" if "y \<in> set (x # below m f as)" for y
      using that False by (auto simp: below_def dest: set_takeWhileD)
    have ge: "f \<le> ino m v" if "v \<in> set ?vs" for v
    proof (cases ?vs)
      case (Cons b bs)
      then have "\<not> ino m b < f" unfolding above_def by (metis hd_dropWhile list.sel(1) list.simps(3))
      moreover have "ino m b \<le> ino m v"
        using srt that Cons unfolding xs inodes_sorted_def by (auto simp: sorted_append)
      ultimately show ?thesis by simp
    qed (use that in simp)
    have "ino m ?l \<le> f" by (rule le) (rule last_in_set, simp)
    then obtain m' where m': "link_unlocked new f (Some ?l) m = Some m'"
        "inserted new (?us @ ?l # new # ?vs) m m'" "same_nodes {} m m'"
      using link_unlocked_after [of m ?us ?l ?vs new nn f] ll new unfolding xs [symmetric] by blast
    have "inodes_sorted m' ((?us @ [?l]) @ new # ?vs)"
    proof (rule inodes_sorted_same [of m _ _ "{}"])
      show "inodes_sorted m ((?us @ [?l]) @ ?vs)" using srt xs by simp
      show "ino m u \<le> ino m' new" if "u \<in> set (?us @ [?l])" for u
        using le that n' [OF m'(3)] by (metis append_butlast_last_id list.distinct(1))
      show "ino m' new \<le> ino m v" if "v \<in> set ?vs" for v using ge that n' [OF m'(3)] by simp
    qed (use m'(3) in simp_all)
    moreover have "inserted new ((?us @ [?l]) @ new # ?vs) m m'" using m'(2) by simp
    moreover have "xs = (?us @ [?l]) @ ?vs" using xs by simp
    ultimately show ?thesis using m'(1,3) s by (intro exI conjI)
  qed
qed

section \<open>Properties\<close>

text \<open>C19: Searching for an inode that nobody has locked and linking the new node at the place the
  search returns keeps the lock list a well-formed doubly linked list in the order of the
  inodes, with the new node in it, every other node keeping its contents.\<close>

theorem lock_list_insert_sorted:
  assumes "lock_list m xs" and "inodes_sorted m xs" and "\<And>y. y \<in> set xs \<Longrightarrow> ino m y \<noteq> f"
    and "new = brk m"
  shows "\<exists>loc m' us vs. search_file_list f m = Some (0, loc) \<and>
     link_unlocked new f loc (snd (fl_alloc (get_file_node f len flags t) m)) = Some m' \<and>
     xs = us @ vs \<and> lock_list m' (us @ new # vs) \<and> inodes_sorted m' (us @ new # vs) \<and>
     ino m' new = f \<and> map (\<lambda>b. map_option fl_core (fl_heap m' b)) xs = map (\<lambda>b. map_option fl_core (fl_heap m b)) xs"
proof -
  let ?n = "get_file_node f len flags t" and ?m = "snd (fl_alloc (get_file_node f len flags t) m)"
  have ok: "mem_ok m" using assms(1) by (simp add: lock_list_def)
  have fresh: "new \<notin> set xs" using lock_list_alloc [OF assms(1), of new] assms(4) ok by auto
  have same: "fl_heap ?m b = fl_heap m b" if "b \<noteq> new" for b using that assms(4) by (simp add: fl_alloc_def)
  have hd: "head_lock_list ?m = head_lock_list m" by (simp add: fl_alloc_def)
  have ll: "lock_list ?m xs"
    using assms(1,4) fresh mem_ok_fl_alloc [OF ok, of ?n "fst (fl_alloc ?n m)" ?m]
    by (simp add: lock_list_def fl_alloc_def dseg_upd_other)
  have i: "ino ?m y = ino m y" if "y \<in> set xs" for y 
    using that fresh same [of y] by (cases "y = new") (simp_all add: ino_def)
  have "map (ino ?m) xs = map (ino m) xs" using i by (intro map_cong) auto
  then have srt: "inodes_sorted ?m xs" using assms(2) by (simp only: inodes_sorted_def)
  have nn: "fl_heap ?m new = Some ?n" using assms(4) by (simp add: fl_alloc_def)
  obtain loc m' us vs where r: "search_file_list f ?m = Some (0, loc)" "link_unlocked new f loc ?m = Some m'"
      "xs = us @ vs" "inserted new (us @ new # vs) ?m m'" "inodes_sorted m' (us @ new # vs)" "same_nodes {} ?m m'"
    using search_link_unlocked [OF ll srt nn fresh, of f] i assms(3) by (auto simp: get_file_node_def)
  have "search_file_list f m = search_file_list f ?m"
  proof (cases xs)
    case Nil
    then show ?thesis using search_Nil assms(1) ll by simp
  next
    case (Cons x as)
    have "below ?m f as = below m f as" using i Cons unfolding below_def by (intro takeWhile_cong) auto
    then show ?thesis using search_not_found [of m x as f] search_not_found [of ?m x as f] assms(1,3) ll i Cons by auto
  qed
  moreover have "ino m' new = f" using same_nodes_ino [OF r(6), of new] nn by (simp add: ino_def get_file_node_def)
  moreover have "\<forall>b \<in> set xs. map_option fl_core (fl_heap m' b) = map_option fl_core (fl_heap m b)"
    using r(6) same fresh by (metis empty_iff same_nodes_def)
  then have "map (\<lambda>b. map_option fl_core (fl_heap m' b)) xs = map (\<lambda>b. map_option fl_core (fl_heap m b)) xs"
    by (intro map_cong) auto
  ultimately show ?thesis using r unfolding inserted_def by metis
qed

definition one_lock :: lockmem where
  "one_lock = \<lparr>fl_heap = [0 \<mapsto> (get_file_node 7 0 2 1)\<lparr>fl_prev := Some 0\<rparr>], wr_heap = Map.empty,
     brk = 1, head_lock_list = Some 0\<rparr>"

lemma one_lock_list: "lock_list one_lock [0]" "inodes_sorted one_lock [0]"
  by (simp_all add: lock_list_def one_lock_def mem_ok_def get_file_node_def inodes_sorted_def)

theorem lock_list_insert_sorted_witness:
  "\<exists>loc m' us vs. search_file_list 4 one_lock = Some (0, loc) \<and>
     link_unlocked 1 4 loc (snd (fl_alloc (get_file_node 4 0 0 2) one_lock)) = Some m' \<and>
     [0] = us @ vs \<and> lock_list m' (us @ 1 # vs) \<and> inodes_sorted m' (us @ 1 # vs) \<and>
     ino m' 1 = 4 \<and> map (\<lambda>b. map_option fl_core (fl_heap m' b)) [0] = map (\<lambda>b. map_option fl_core (fl_heap one_lock b)) [0]"
  by (rule lock_list_insert_sorted [OF one_lock_list])
    (simp_all add: ino_def one_lock_def get_file_node_def)

end
