(* ===== verification/TxnManager.thy ===== *)
theory TxnManager
  imports ServerState
begin

text \<open>
  The list of live transactions (Txn_manager.c).  The list is kept in the order of the
  transaction identifiers; a node is found by walking to the first node with its identifier,
  a walk that dereferences NULL when there is none.  A pointer to a node is modelled by that
  identifier, so \<open>find_txn\<close> is the walk and \<open>upd_txn\<close> a store through the pointer.
\<close>

section \<open>Operations\<close>

definition get_txn_node :: "int \<Rightarrow> int \<Rightarrow> txn_node" where
  "get_txn_node new_txn_id log_rec_no =
     \<lparr>tn_txn_id = new_txn_id, tn_cur_state = RUNNING, tn_first_LRN = log_rec_no,
      tn_last_LRN = log_rec_no, tn_file_rec_no = None, tn_wait_mode = - 1,
      tn_waiting_for_inode = 0, tn_blocked_tid = 0, tn_before_after = 0\<rparr>"

definition assign_new_txnid :: "server \<Rightarrow> int \<times> server" where
  "assign_new_txnid s = (let n = s32 (last_txn_id s + 1) in (n, s\<lparr>last_txn_id := n\<rparr>))"

fun insert_txn :: "txn_node \<Rightarrow> txn_node list \<Rightarrow> txn_node list" where
  "insert_txn new [] = [new]"
| "insert_txn new (n # ns) =
     (if tn_txn_id n > tn_txn_id new then new # n # ns else n # insert_txn new ns)"

text \<open>The record number arrives as an \<open>int\<close>: the caller's \<open>long\<close> is truncated.\<close>

definition new_txn_insert :: "int \<Rightarrow> int \<Rightarrow> server \<Rightarrow> server" where
  "new_txn_insert new_txn_id log_rec_no s =
     s\<lparr>head_txn_list := insert_txn (get_txn_node new_txn_id (s32 log_rec_no)) (head_txn_list s)\<rparr>"

fun delete_txn :: "int \<Rightarrow> txn_node list \<Rightarrow> txn_node list option" where
  "delete_txn t [] = None"
| "delete_txn t (n # ns) =
     (if tn_txn_id n = t then Some ns else do { ns' \<leftarrow> delete_txn t ns; Some (n # ns') })"

definition txn_delete :: "int \<Rightarrow> server \<Rightarrow> server option" where
  "txn_delete t s = do { ts \<leftarrow> delete_txn t (head_txn_list s); Some (s\<lparr>head_txn_list := ts\<rparr>) }"

fun find_txn :: "int \<Rightarrow> txn_node list \<Rightarrow> txn_node option" where
  "find_txn t [] = None"
| "find_txn t (n # ns) = (if tn_txn_id n = t then Some n else find_txn t ns)"

fun upd_txn :: "int \<Rightarrow> (txn_node \<Rightarrow> txn_node) \<Rightarrow> txn_node list \<Rightarrow> txn_node list option" where
  "upd_txn t g [] = None"
| "upd_txn t g (n # ns) =
     (if tn_txn_id n = t then Some (g n # ns) else do { ns' \<leftarrow> upd_txn t g ns; Some (n # ns') })"

definition set_txn :: "int \<Rightarrow> (txn_node \<Rightarrow> txn_node) \<Rightarrow> server \<Rightarrow> server option" where
  "set_txn t g s = do { ts \<leftarrow> upd_txn t g (head_txn_list s); Some (s\<lparr>head_txn_list := ts\<rparr>) }"

section \<open>The list stays ordered and duplicate free\<close>

abbreviation txn_ids :: "txn_node list \<Rightarrow> int list" where
  "txn_ids ts \<equiv> map tn_txn_id ts"

definition txns_ok :: "txn_node list \<Rightarrow> bool" where
  "txns_ok ts \<longleftrightarrow> sorted_wrt (<) (txn_ids ts)"

lemma set_insert_txn [simp]: "set (insert_txn n ts) = insert n (set ts)"
  by (induction n ts rule: insert_txn.induct) auto

lemma sorted_insert_txn: "sorted (txn_ids ts) \<Longrightarrow> sorted (txn_ids (insert_txn n ts))"
  by (induction n ts rule: insert_txn.induct) auto

lemma find_txn_None_iff: "find_txn t ts = None \<longleftrightarrow> t \<notin> set (txn_ids ts)"
  by (induction t ts rule: find_txn.induct) auto

lemma find_txn_SomeD: "find_txn t ts = Some n \<Longrightarrow> n \<in> set ts \<and> tn_txn_id n = t"
  by (induction t ts rule: find_txn.induct) (auto split: if_splits)

lemma txns_ok_find: "txns_ok ts \<Longrightarrow> n \<in> set ts \<Longrightarrow> find_txn (tn_txn_id n) ts = Some n"
  by (induction ts) (auto simp: txns_ok_def)

lemma txns_ok_insert [inv_intros]:
  "txns_ok ts \<Longrightarrow> find_txn (tn_txn_id n) ts = None \<Longrightarrow> txns_ok (insert_txn n ts)"
  unfolding txns_ok_def
  by (induction n ts rule: insert_txn.induct) (auto split: if_splits)

lemma find_insert_same: "find_txn (tn_txn_id n) ts = None \<Longrightarrow> find_txn (tn_txn_id n) (insert_txn n ts) = Some n"
  by (induction n ts rule: insert_txn.induct) (auto split: if_splits)

lemma find_insert_other: "t \<noteq> tn_txn_id n \<Longrightarrow> find_txn t (insert_txn n ts) = find_txn t ts"
  by (induction n ts rule: insert_txn.induct) auto

lemma delete_insert_txn:
  "find_txn (tn_txn_id n) ts = None \<Longrightarrow> delete_txn (tn_txn_id n) (insert_txn n ts) = Some ts"
  by (induction n ts rule: insert_txn.induct) (auto split: if_splits)

lemma delete_txn_None_iff: "delete_txn t ts = None \<longleftrightarrow> find_txn t ts = None"
  by (induction t ts rule: delete_txn.induct) (auto simp: Option.bind_eq_None_conv)

lemma delete_txn_subset:
  "delete_txn t ts = Some ts' \<Longrightarrow> n \<in> set ts' \<Longrightarrow> n \<in> set ts"
  by (induction t ts arbitrary: ts' rule: delete_txn.induct)
    (auto simp: Option.bind_eq_Some_conv split: if_splits)

lemma txns_ok_delete [inv_intros]: "txns_ok ts \<Longrightarrow> delete_txn t ts = Some ts' \<Longrightarrow> txns_ok ts'"
  unfolding txns_ok_def
  by (induction t ts arbitrary: ts' rule: delete_txn.induct)
    (fastforce simp: Option.bind_eq_Some_conv split: if_splits dest: delete_txn_subset)+

lemma find_delete_other:
  "delete_txn t ts = Some ts' \<Longrightarrow> u \<noteq> t \<Longrightarrow> find_txn u ts' = find_txn u ts"
  by (induction t ts arbitrary: ts' rule: delete_txn.induct)
    (auto simp: Option.bind_eq_Some_conv split: if_splits)

lemma find_delete_same:
  "txns_ok ts \<Longrightarrow> delete_txn t ts = Some ts' \<Longrightarrow> find_txn t ts' = None"
  unfolding txns_ok_def
  by (induction t ts arbitrary: ts' rule: delete_txn.induct)
    (auto simp: Option.bind_eq_Some_conv find_txn_None_iff split: if_splits)

lemma upd_txn_None_iff: "upd_txn t g ts = None \<longleftrightarrow> find_txn t ts = None"
  by (induction t g ts rule: upd_txn.induct) (auto simp: Option.bind_eq_None_conv)

lemma upd_txn_ids:
  "(\<And>n. tn_txn_id (g n) = tn_txn_id n) \<Longrightarrow> upd_txn t g ts = Some ts' \<Longrightarrow> txn_ids ts' = txn_ids ts"
  by (induction t g ts arbitrary: ts' rule: upd_txn.induct)
    (auto simp: Option.bind_eq_Some_conv split: if_splits)

lemma find_upd_txn:
  "(\<And>n. tn_txn_id (g n) = tn_txn_id n) \<Longrightarrow> upd_txn t g ts = Some ts' \<Longrightarrow>
   find_txn u ts' = (if u = t then map_option g (find_txn u ts) else find_txn u ts)"
  by (induction t g ts arbitrary: ts' rule: upd_txn.induct)
    (auto simp: Option.bind_eq_Some_conv split: if_splits)

lemma txns_ok_upd [inv_intros]:
  "txns_ok ts \<Longrightarrow> (\<And>n. tn_txn_id (g n) = tn_txn_id n) \<Longrightarrow> upd_txn t g ts = Some ts' \<Longrightarrow> txns_ok ts'"
  unfolding txns_ok_def by (metis upd_txn_ids)

section \<open>The table of live transactions as an interface\<close>

text \<open>
  What the log, the lock manager and the handlers rely on: a transaction that was entered
  is found, the others are not disturbed, and ending it takes exactly it away.
\<close>

locale live_table =
  fixes look :: "int \<Rightarrow> 't \<Rightarrow> 'n option"
    and enter :: "'n \<Rightarrow> 't \<Rightarrow> 't"
    and leave :: "int \<Rightarrow> 't \<Rightarrow> 't option"
    and key :: "'n \<Rightarrow> int"
    and wf :: "'t \<Rightarrow> bool"
  assumes look_enter: "look (key n) t = None \<Longrightarrow> look (key n) (enter n t) = Some n"
    and look_enter_other: "k \<noteq> key n \<Longrightarrow> look k (enter n t) = look k t"
    and wf_enter: "wf t \<Longrightarrow> look (key n) t = None \<Longrightarrow> wf (enter n t)"
    and leave_total: "look k t \<noteq> None \<Longrightarrow> leave k t \<noteq> None"
    and look_leave: "wf t \<Longrightarrow> leave k t = Some t' \<Longrightarrow> look k t' = None"
    and look_leave_other: "leave k t = Some t' \<Longrightarrow> j \<noteq> k \<Longrightarrow> look j t' = look j t"
    and wf_leave: "wf t \<Longrightarrow> leave k t = Some t' \<Longrightarrow> wf t'"
begin

text \<open>Transactions end in any order: after a batch of fresh ones has come and gone, every
  lookup is as before.\<close>

lemma look_enter_all:
  "distinct (map key ns) \<Longrightarrow> (\<And>n. n \<in> set ns \<Longrightarrow> look (key n) t = None) \<Longrightarrow> wf t \<Longrightarrow>
   wf (fold enter ns t) \<and>
   (\<forall>k. look k (fold enter ns t) \<noteq> None \<longleftrightarrow> k \<in> key ` set ns \<or> look k t \<noteq> None) \<and>
   (\<forall>k. k \<notin> key ` set ns \<longrightarrow> look k (fold enter ns t) = look k t)"
proof (induction ns arbitrary: t)
  case Nil
  then show ?case by simp
next
  case (Cons n ns)
  have fresh: "look (key n) t = None" using Cons.prems(2) by simp
  have "wf (enter n t)" using Cons.prems(3) fresh by (rule wf_enter)
  moreover have "look (key m) (enter n t) = None" if "m \<in> set ns" for m
  proof -
    have "key m \<noteq> key n" using Cons.prems(1) that by (metis distinct.simps(2) image_eqI list.set_map list.simps(9))
    then show ?thesis using Cons.prems(2) [of m] that by (simp add: look_enter_other)
  qed
  ultimately have IH: "wf (fold enter ns (enter n t)) \<and>
      (\<forall>k. look k (fold enter ns (enter n t)) \<noteq> None \<longleftrightarrow> k \<in> key ` set ns \<or> look k (enter n t) \<noteq> None) \<and>
      (\<forall>k. k \<notin> key ` set ns \<longrightarrow> look k (fold enter ns (enter n t)) = look k (enter n t))"
    using Cons.prems(1) by (intro Cons.IH) auto
  have "look k (enter n t) \<noteq> None \<longleftrightarrow> k = key n \<or> look k t \<noteq> None" for k
    using look_enter [OF fresh] look_enter_other [of k n t] by (cases "k = key n") auto
  with IH show ?case using look_enter_other [of _ n t] by auto
qed

lemma leave_all_restores:
  "distinct ks \<Longrightarrow> (\<And>k. k \<in> set ks \<Longrightarrow> look k t \<noteq> None) \<Longrightarrow> wf t \<Longrightarrow>
   \<exists>t'. fold_opt leave ks t = Some t' \<and> wf t' \<and>
        (\<forall>k. look k t' = (if k \<in> set ks then None else look k t))"
proof (induction ks arbitrary: t)
  case Nil
  then show ?case by simp
next
  case (Cons k ks)
  from Cons.prems(2) obtain t1 where t1: "leave k t = Some t1"
    using leave_total [of k t] by fastforce
  have "look j t1 \<noteq> None" if "j \<in> set ks" for j
    using Cons.prems(1) Cons.prems(2) [of j] that look_leave_other [OF t1, of j] by (cases "j = k") auto
  then obtain t' where t': "fold_opt leave ks t1 = Some t'" "wf t'"
      "\<forall>j. look j t' = (if j \<in> set ks then None else look j t1)"
    using Cons.IH [of t1] Cons.prems(1,3) wf_leave [OF Cons.prems(3) t1] by auto
  have "look j t' = (if j \<in> set (k # ks) then None else look j t)" for j
    using t'(3) look_leave [OF Cons.prems(3) t1] look_leave_other [OF t1, of j] by auto
  with t1 t' show ?case by auto
qed

lemma batch_neutral:
  assumes "distinct (map key ns)" and "\<And>n. n \<in> set ns \<Longrightarrow> look (key n) t = None" and "wf t"
    and "distinct ks" and "set ks = key ` set ns"
  shows "\<exists>t'. fold_opt leave ks (fold enter ns t) = Some t' \<and> wf t' \<and> (\<forall>k. look k t' = look k t)"
proof -
  have E: "wf (fold enter ns t)"
    "\<And>k. look k (fold enter ns t) \<noteq> None \<longleftrightarrow> k \<in> key ` set ns \<or> look k t \<noteq> None"
    "\<And>k. k \<notin> key ` set ns \<Longrightarrow> look k (fold enter ns t) = look k t"
    using look_enter_all [OF assms(1,2,3)] by auto
  then obtain t' where t': "fold_opt leave ks (fold enter ns t) = Some t'" "wf t'"
      "\<forall>k. look k t' = (if k \<in> set ks then None else look k (fold enter ns t))"
    using leave_all_restores [of ks "fold enter ns t"] assms(4,5) by auto
  moreover have "look k t' = look k t" for k
    using t'(3) E(3) assms(2,5) by (cases "k \<in> key ` set ns") auto
  ultimately show ?thesis by blast
qed

end

interpretation txn_tab: live_table find_txn insert_txn delete_txn tn_txn_id txns_ok
proof
  show "find_txn (tn_txn_id n) (insert_txn n t) = Some n" if "find_txn (tn_txn_id n) t = None" for n t
    using that by (rule find_insert_same)
  show "find_txn k (insert_txn n t) = find_txn k t" if "k \<noteq> tn_txn_id n" for k n t
    using that by (rule find_insert_other)
  show "txns_ok (insert_txn n t)" if "txns_ok t" "find_txn (tn_txn_id n) t = None" for n t
    using that by (rule txns_ok_insert)
  show "delete_txn k t \<noteq> None" if "find_txn k t \<noteq> None" for k t
    using that by (simp add: delete_txn_None_iff)
  show "find_txn k t' = None" if "txns_ok t" "delete_txn k t = Some t'" for k t t'
    using that by (rule find_delete_same)
  show "find_txn j t' = find_txn j t" if "delete_txn k t = Some t'" "j \<noteq> k" for k j t t'
    using that by (rule find_delete_other)
  show "txns_ok t'" if "txns_ok t" "delete_txn k t = Some t'" for k t t'
    using that by (rule txns_ok_delete)
qed

section \<open>Properties\<close>

text \<open>C17: Entering a transaction and deleting it again leaves the server exactly as it was, and while
  it is there it is found, the list is in the order of the identifiers, and no other
  transaction is disturbed.\<close>

theorem txn_insert_delete:
  assumes "txns_ok (head_txn_list s)" and "find_txn t (head_txn_list s) = None"
  shows "txn_delete t (new_txn_insert t lrn s) = Some s \<and>
     txns_ok (head_txn_list (new_txn_insert t lrn s)) \<and>
     (\<forall>u. find_txn u (head_txn_list (new_txn_insert t lrn s)) =
          (if u = t then Some (get_txn_node t (s32 lrn)) else find_txn u (head_txn_list s)))"
proof -
  let ?n = "get_txn_node t (s32 lrn)"
  have t: "tn_txn_id ?n = t" by (simp add: get_txn_node_def)
  have fresh: "find_txn (tn_txn_id ?n) (head_txn_list s) = None" using assms(2) t by simp
  show ?thesis
    using delete_insert_txn [OF fresh] find_insert_same [OF fresh] txns_ok_insert [OF assms(1) fresh]
      find_insert_other [of _ ?n] t
    by (simp add: txn_delete_def new_txn_insert_def)
qed

theorem txn_insert_delete_witness:
  "txn_delete 5 (new_txn_insert 5 66 (new_txn_insert 9 0 (global_init []))) = Some (new_txn_insert 9 0 (global_init [])) \<and>
     txns_ok (head_txn_list (new_txn_insert 5 66 (new_txn_insert 9 0 (global_init [])))) \<and>
     (\<forall>u. find_txn u (head_txn_list (new_txn_insert 5 66 (new_txn_insert 9 0 (global_init [])))) =
          (if u = 5 then Some (get_txn_node 5 (s32 66)) else find_txn u (head_txn_list (new_txn_insert 9 0 (global_init [])))))"
  by (rule txn_insert_delete) (simp_all add: new_txn_insert_def global_init_def txns_ok_def get_txn_node_def)

text \<open>C18: Transactions come and go in any order.  Any number of fresh transactions that start
  together and end in an arbitrary order leave every lookup in the list of live transactions
  as it was, and none of the walks that end them runs off the list.\<close>

theorem txn_batch_neutral:
  assumes "txns_ok ts" and "distinct (map tn_txn_id ns)" and "\<And>n. n \<in> set ns \<Longrightarrow> find_txn (tn_txn_id n) ts = None"
    and "distinct ends" and "set ends = tn_txn_id ` set ns"
  shows "\<exists>ts'. fold_opt delete_txn ends (fold insert_txn ns ts) = Some ts' \<and> txns_ok ts' \<and>
     (\<forall>t. find_txn t ts' = find_txn t ts)"
  using txn_tab.batch_neutral [OF assms(2,3,1,4,5)] by simp

theorem txn_batch_neutral_witness:
  "\<exists>ts'. fold_opt delete_txn [3, 1, 2]
       (fold insert_txn [get_txn_node 1 0, get_txn_node 2 66, get_txn_node 3 132] [get_txn_node 0 0]) = Some ts' \<and>
     txns_ok ts' \<and> (\<forall>t. find_txn t ts' = find_txn t [get_txn_node 0 0])"
  by (rule txn_batch_neutral) (auto simp: txns_ok_def get_txn_node_def)

end
