(* ===== verification/WaitList.thy ===== *)
theory WaitList
  imports TxnManager
begin

text \<open>
  Waiting for a file (Wait_list_manager.c): one node per file that some transaction waits for,
  in the order of the inodes.  A pointer to a node is modelled by its inode.  A thread that
  calls \<open>pthread_cond_wait\<close> stops in the middle of its operation; it is then in \<open>sleeping\<close> of the
  condition variable, and the rest of the operation is a step of its own, run once the thread
  has been woken (\<open>after_wake\<close>) or told to abort (\<open>abort_after_wake\<close>).
\<close>

section \<open>Operations\<close>

definition get_wait_node :: "int \<Rightarrow> wait_node" where
  "get_wait_node f_inode =
     \<lparr>wn_file_inode = f_inode, wn_in_wait = 1, wn_f_lock = cond_init, wn_txnid_abort = - 1,
      wn_woke_up = 0, wn_wake_cond = cond_init\<rparr>"

fun search_wait_list :: "int \<Rightarrow> wait_node list \<Rightarrow> wait_node option" where
  "search_wait_list f [] = None"
| "search_wait_list f (w # ws) = (if wn_file_inode w = f then Some w else search_wait_list f ws)"

fun insert_wait :: "wait_node \<Rightarrow> wait_node list \<Rightarrow> wait_node list" where
  "insert_wait new [] = [new]"
| "insert_wait new (w # ws) =
     (if wn_file_inode w > wn_file_inode new then new # w # ws else w # insert_wait new ws)"

fun upd_wait :: "int \<Rightarrow> (wait_node \<Rightarrow> wait_node) \<Rightarrow> wait_node list \<Rightarrow> wait_node list option" where
  "upd_wait f g [] = None"
| "upd_wait f g (w # ws) =
     (if wn_file_inode w = f then Some (g w # ws) else do { ws' \<leftarrow> upd_wait f g ws; Some (w # ws') })"

fun delete_wait :: "int \<Rightarrow> wait_node list \<Rightarrow> wait_node list option" where
  "delete_wait f [] = None"
| "delete_wait f (w # ws) =
     (if wn_file_inode w = f then Some ws else do { ws' \<leftarrow> delete_wait f ws; Some (w # ws') })"

definition set_wait :: "int \<Rightarrow> (wait_node \<Rightarrow> wait_node) \<Rightarrow> server \<Rightarrow> server option" where
  "set_wait f g s = do { ws \<leftarrow> upd_wait f g (head_wait_list s); Some (s\<lparr>head_wait_list := ws\<rparr>) }"

definition wait_here :: "int \<Rightarrow> wait_node \<Rightarrow> wait_node" where
  "wait_here txnid w = w\<lparr>wn_f_lock := cond_wait txnid (wn_f_lock w)\<rparr>"

definition count_conflict :: "int \<Rightarrow> server \<Rightarrow> server" where
  "count_conflict txnid s =
     (if txnid = 0 then s\<lparr>st := (st s)\<lparr>tb_conflict := tb_conflict (st s) + 1\<rparr>\<rparr>
      else s\<lparr>st := (st s)\<lparr>u_conflict := u_conflict (st s) + 1\<rparr>\<rparr>)"

text \<open>The first waiter for a file brings the node; later ones join.  Both go to sleep, which
  releases \<open>file_mutex\<close>.\<close>

definition insert_wait_list :: "int \<Rightarrow> int \<Rightarrow> server \<Rightarrow> server option" where
  "insert_wait_list f_inode txnid s = do {
     let s = s\<lparr>head_wait_list := insert_wait (get_wait_node f_inode) (head_wait_list s)\<rparr>;
     let s = count_conflict txnid s;
     set_wait f_inode (wait_here txnid) s }"

definition update_wait_list :: "int \<Rightarrow> int \<Rightarrow> server \<Rightarrow> server option" where
  "update_wait_list loc_in_wait txnid s = do {
     s \<leftarrow> set_wait loc_in_wait (\<lambda>w. w\<lparr>wn_in_wait := wn_in_wait w + 1\<rparr>) s;
     let s = count_conflict txnid s;
     set_wait loc_in_wait (wait_here txnid) s }"

text \<open>The last one to leave takes the node away.\<close>

definition update_wait_list_on_wake :: "int \<Rightarrow> server \<Rightarrow> server option" where
  "update_wait_list_on_wake loc s = do {
     s \<leftarrow> set_wait loc (\<lambda>w. w\<lparr>wn_in_wait := wn_in_wait w - 1\<rparr>) s;
     w \<leftarrow> search_wait_list loc (head_wait_list s);
     if wn_in_wait w = 0 then do {
       ws \<leftarrow> delete_wait loc (head_wait_list s);
       Some (s\<lparr>head_wait_list := ws\<rparr>) }
     else Some s }"

text \<open>What a thread does that has been woken on \<open>f_lock\<close>: nobody is to abort, and it resumes;
  another transaction is the victim, and it counts itself and goes back to sleep, the last one
  to do so signalling the victim; or it is the victim itself, and it aborts if all others have
  counted themselves and otherwise waits for them on \<open>wake_cond\<close>.\<close>

datatype wake_outcome = Resume | Sleep_again | Abort_now | Await_wake

definition signal_last :: "wait_node \<Rightarrow> wait_node" where
  "signal_last w =
     (if wn_woke_up w = wn_in_wait w then w\<lparr>wn_wake_cond := cond_signal (wn_wake_cond w)\<rparr> else w)"

definition after_wake :: "int \<Rightarrow> int \<Rightarrow> server \<Rightarrow> (wake_outcome \<times> server) option" where
  "after_wake f txnid s = do {
     s \<leftarrow> set_wait f (\<lambda>w. w\<lparr>wn_f_lock := cond_leave txnid (wn_f_lock w)\<rparr>) s;
     w \<leftarrow> search_wait_list f (head_wait_list s);
     if wn_txnid_abort w \<noteq> - 1 \<and> wn_txnid_abort w \<noteq> txnid then do {
       s \<leftarrow> set_wait f (\<lambda>w. w\<lparr>wn_woke_up := wn_woke_up w + 1\<rparr>) s;
       s \<leftarrow> set_wait f signal_last s;
       s \<leftarrow> set_wait f (wait_here txnid) s;
       Some (Sleep_again, s) }
     else if wn_txnid_abort w = - 1 then do {
       s \<leftarrow> update_wait_list_on_wake f s;
       Some (Resume, s) }
     else do {
       s \<leftarrow> set_wait f (\<lambda>w. w\<lparr>wn_woke_up := wn_woke_up w + 1\<rparr>) s;
       w \<leftarrow> search_wait_list f (head_wait_list s);
       if wn_woke_up w = wn_in_wait w then do {
         s \<leftarrow> set_wait f (\<lambda>w. w\<lparr>wn_txnid_abort := - 1\<rparr>) s;
         s \<leftarrow> update_wait_list_on_wake f s;
         Some (Abort_now, s) }
       else Some (Await_wake, s) } }"

text \<open>\<open>if (woke_up < in_wait) pthread_cond_wait(&wake_cond, &wake_mutex)\<close>; the test was made
  just before, so the thread sleeps unless it lost a race.\<close>

definition await_wake :: "int \<Rightarrow> int \<Rightarrow> server \<Rightarrow> (bool \<times> server) option" where
  "await_wake f txnid s = do {
     w \<leftarrow> search_wait_list f (head_wait_list s);
     if wn_woke_up w < wn_in_wait w then do {
       s \<leftarrow> set_wait f (\<lambda>w. w\<lparr>wn_wake_cond := cond_wait txnid (wn_wake_cond w)\<rparr>) s;
       Some (True, s) }
     else Some (False, s) }"

definition leave_wake_cond :: "int \<Rightarrow> int \<Rightarrow> server \<Rightarrow> server option" where
  "leave_wake_cond f txnid s =
     set_wait f (\<lambda>w. w\<lparr>wn_wake_cond := cond_leave txnid (wn_wake_cond w)\<rparr>) s"

definition abort_after_wake :: "int \<Rightarrow> server \<Rightarrow> server option" where
  "abort_after_wake f s = do {
     s \<leftarrow> set_wait f (\<lambda>w. w\<lparr>wn_txnid_abort := - 1\<rparr>) s;
     update_wait_list_on_wake f s }"

definition wake_up :: "int \<Rightarrow> server \<Rightarrow> server option" where
  "wake_up f s = set_wait f (\<lambda>w. w\<lparr>wn_f_lock := cond_broadcast (wn_f_lock w)\<rparr>) s"

text \<open>The detector of deadlocks (deadlock.c) names a victim and wakes all that wait with it.\<close>

definition choose_victim :: "int \<Rightarrow> int \<Rightarrow> server \<Rightarrow> server option" where
  "choose_victim f victim s = do {
     s \<leftarrow> set_wait f (\<lambda>w. w\<lparr>wn_txnid_abort := victim\<rparr>) s;
     s \<leftarrow> set_wait f (\<lambda>w. w\<lparr>wn_woke_up := 0\<rparr>) s;
     set_wait f (\<lambda>w. w\<lparr>wn_f_lock := cond_broadcast (wn_f_lock w)\<rparr>) s }"

section \<open>The list is a table of inodes\<close>

definition waits_sorted :: "wait_node list \<Rightarrow> bool" where
  "waits_sorted ws \<longleftrightarrow> sorted_wrt (<) (map wn_file_inode ws)"

lemma set_insert_wait [simp]: "set (insert_wait n ws) = insert n (set ws)"
  by (induction n ws rule: insert_wait.induct) auto

lemma search_wait_None_iff: "search_wait_list f ws = None \<longleftrightarrow> f \<notin> wn_file_inode ` set ws"
  by (induction f ws rule: search_wait_list.induct) auto

lemma search_wait_SomeD: "search_wait_list f ws = Some w \<Longrightarrow> w \<in> set ws \<and> wn_file_inode w = f"
  by (induction f ws rule: search_wait_list.induct) (auto split: if_splits)

lemma waits_sorted_search: "waits_sorted ws \<Longrightarrow> w \<in> set ws \<Longrightarrow> search_wait_list (wn_file_inode w) ws = Some w"
  by (induction ws) (auto simp: waits_sorted_def)

lemma waits_sorted_insert [inv_intros]:
  "waits_sorted ws \<Longrightarrow> search_wait_list (wn_file_inode n) ws = None \<Longrightarrow> waits_sorted (insert_wait n ws)"
  unfolding waits_sorted_def
  by (induction n ws rule: insert_wait.induct) (auto split: if_splits)

lemma search_insert_wait:
  "search_wait_list (wn_file_inode n) ws = None \<Longrightarrow>
   search_wait_list f (insert_wait n ws) = (if f = wn_file_inode n then Some n else search_wait_list f ws)"
  by (induction n ws rule: insert_wait.induct) (auto split: if_splits)

lemma delete_wait_None_iff: "delete_wait f ws = None \<longleftrightarrow> search_wait_list f ws = None"
  by (induction f ws rule: delete_wait.induct) (auto simp: Option.bind_eq_None_conv)

lemma delete_wait_subset: "delete_wait f ws = Some ws' \<Longrightarrow> w \<in> set ws' \<Longrightarrow> w \<in> set ws"
  by (induction f ws arbitrary: ws' rule: delete_wait.induct)
    (auto simp: Option.bind_eq_Some_conv split: if_splits)

lemma waits_sorted_delete [inv_intros]: "waits_sorted ws \<Longrightarrow> delete_wait f ws = Some ws' \<Longrightarrow> waits_sorted ws'"
  unfolding waits_sorted_def
  by (induction f ws arbitrary: ws' rule: delete_wait.induct)
    (fastforce simp: Option.bind_eq_Some_conv split: if_splits dest: delete_wait_subset)+

lemma search_delete_other:
  "delete_wait f ws = Some ws' \<Longrightarrow> g \<noteq> f \<Longrightarrow> search_wait_list g ws' = search_wait_list g ws"
  by (induction f ws arbitrary: ws' rule: delete_wait.induct)
    (auto simp: Option.bind_eq_Some_conv split: if_splits)

lemma search_delete_same:
  "waits_sorted ws \<Longrightarrow> delete_wait f ws = Some ws' \<Longrightarrow> search_wait_list f ws' = None"
  unfolding waits_sorted_def
  by (induction f ws arbitrary: ws' rule: delete_wait.induct)
    (force simp: Option.bind_eq_Some_conv search_wait_None_iff split: if_splits)+

lemma upd_wait_None_iff: "upd_wait f g ws = None \<longleftrightarrow> search_wait_list f ws = None"
  by (induction f g ws rule: upd_wait.induct) (auto simp: Option.bind_eq_None_conv)

lemma upd_wait_inodes:
  "(\<And>w. wn_file_inode (g w) = wn_file_inode w) \<Longrightarrow> upd_wait f g ws = Some ws' \<Longrightarrow>
   map wn_file_inode ws' = map wn_file_inode ws"
  by (induction f g ws arbitrary: ws' rule: upd_wait.induct)
    (auto simp: Option.bind_eq_Some_conv split: if_splits)

lemma search_upd_wait:
  "(\<And>w. wn_file_inode (g w) = wn_file_inode w) \<Longrightarrow> upd_wait f g ws = Some ws' \<Longrightarrow>
   search_wait_list u ws' = (if u = f then map_option g (search_wait_list u ws) else search_wait_list u ws)"
  by (induction f g ws arbitrary: ws' rule: upd_wait.induct)
    (auto simp: Option.bind_eq_Some_conv split: if_splits)

text \<open>The wait list keeps the same promises as the list of transactions.\<close>

interpretation wait_tab: live_table search_wait_list insert_wait delete_wait wn_file_inode waits_sorted
proof
  show "search_wait_list (wn_file_inode n) (insert_wait n t) = Some n"
    if "search_wait_list (wn_file_inode n) t = None" for n t
    using that by (simp add: search_insert_wait)
  show "search_wait_list k (insert_wait n t) = search_wait_list k t" if "k \<noteq> wn_file_inode n" for k n t
    using that by (induction n t rule: insert_wait.induct) auto
  show "waits_sorted (insert_wait n t)" if "waits_sorted t" "search_wait_list (wn_file_inode n) t = None" for n t
    using that by (rule waits_sorted_insert)
  show "delete_wait k t \<noteq> None" if "search_wait_list k t \<noteq> None" for k t
    using that by (simp add: delete_wait_None_iff)
  show "search_wait_list k t' = None" if "waits_sorted t" "delete_wait k t = Some t'" for k t t'
    using that by (rule search_delete_same)
  show "search_wait_list j t' = search_wait_list j t" if "delete_wait k t = Some t'" "j \<noteq> k" for k j t t'
    using that by (rule search_delete_other)
  show "waits_sorted t'" if "waits_sorted t" "delete_wait k t = Some t'" for k t t'
    using that by (rule waits_sorted_delete)
qed

section \<open>What the operations do to the table\<close>

definition wmap :: "server \<Rightarrow> int \<Rightarrow> wait_node option" where
  "wmap s f = search_wait_list f (head_wait_list s)"

definition wother where
  "wother s = (lk s, head_txn_list s, event_log s, log_mutex s, log_dev_ok s, last_txn_id s, BACKUP s, pz s, fs_calls s)"

definition wrel :: "(int \<Rightarrow> wait_node option) \<Rightarrow> server \<Rightarrow> server \<Rightarrow> bool" where
  "wrel m s s' \<longleftrightarrow> wother s' = wother s \<and> waits_sorted (head_wait_list s') \<and> wmap s' = m"

lemma wrelD: "wrel m s s' \<Longrightarrow> wmap s' = m \<and> waits_sorted (head_wait_list s')"
  by (simp add: wrel_def)

lemma wrel_trans: "wrel m1 s s1 \<Longrightarrow> wrel m2 s1 s2 \<Longrightarrow> wrel m2 s s2"
  by (simp add: wrel_def)

lemma wmap_inode: "wmap s f = Some w \<Longrightarrow> wn_file_inode w = f"
  by (auto simp: wmap_def dest: search_wait_SomeD)

lemma set_wait_rel:
  assumes "waits_sorted (head_wait_list s)" and "wmap s f = Some w" and "\<And>w. wn_file_inode (g w) = wn_file_inode w"
  shows "\<exists>s'. set_wait f g s = Some s' \<and> wrel ((wmap s)(f \<mapsto> g w)) s s'"
proof -
  obtain ws where ws: "upd_wait f g (head_wait_list s) = Some ws"
    using assms(2) upd_wait_None_iff [of f g "head_wait_list s"] by (fastforce simp: wmap_def)
  have "map wn_file_inode ws = map wn_file_inode (head_wait_list s)"
    using assms(3) ws by (rule upd_wait_inodes)
  then have "waits_sorted ws" using assms(1) by (simp add: waits_sorted_def)
  moreover have "(\<lambda>u. search_wait_list u ws) = (wmap s)(f \<mapsto> g w)"
    using search_upd_wait [OF assms(3) ws] assms(2) by (auto simp: wmap_def)
  ultimately show ?thesis using ws
    by (simp add: set_wait_def wrel_def wother_def wmap_def [of "s\<lparr>head_wait_list := ws\<rparr>"] fun_eq_iff)
qed

lemma count_conflict_wmap [simp]:
  "wmap (count_conflict t s) = wmap s" "head_wait_list (count_conflict t s) = head_wait_list s"
  by (simp_all add: count_conflict_def wmap_def fun_eq_iff)

lemma wrel_count: "wrel m (count_conflict t s) s' \<Longrightarrow> wrel m s s'"
  by (simp add: wrel_def wother_def count_conflict_def split: if_splits)

lemma wait_here_inode [simp]: "wn_file_inode (wait_here t w) = wn_file_inode w"
  by (simp add: wait_here_def)

lemma signal_last_inode [simp]: "wn_file_inode (signal_last w) = wn_file_inode w"
  by (simp add: signal_last_def)

lemma insert_wait_list_rel:
  assumes "waits_sorted (head_wait_list s)" and "wmap s f = None"
  shows "\<exists>s'. insert_wait_list f t s = Some s' \<and> wrel ((wmap s)(f \<mapsto> wait_here t (get_wait_node f))) s s'"
proof -
  let ?s = "count_conflict t (s\<lparr>head_wait_list := insert_wait (get_wait_node f) (head_wait_list s)\<rparr>)"
  have f: "wn_file_inode (get_wait_node f) = f" by (simp add: get_wait_node_def)
  have "wmap ?s = (wmap s)(f \<mapsto> get_wait_node f)"
    using assms(2) search_insert_wait [of "get_wait_node f" "head_wait_list s"] by (auto simp: wmap_def f)
  moreover have "waits_sorted (head_wait_list ?s)"
    using waits_sorted_insert [of "head_wait_list s" "get_wait_node f"] assms by (simp add: wmap_def f)
  ultimately obtain s' where s': "set_wait f (wait_here t) ?s = Some s'"
      "wrel ((wmap s)(f \<mapsto> get_wait_node f, f \<mapsto> wait_here t (get_wait_node f))) ?s s'"
    using set_wait_rel [of ?s f "get_wait_node f" "wait_here t"] by auto
  from s'(2) have "wrel ((wmap s)(f \<mapsto> wait_here t (get_wait_node f))) s s'"
    by (simp add: wrel_def wother_def count_conflict_def split: if_splits)
  with s'(1) show ?thesis by (simp add: insert_wait_list_def Let_def)
qed

lemma update_wait_list_rel:
  assumes "waits_sorted (head_wait_list s)" and "wmap s f = Some w"
  shows "\<exists>s'. update_wait_list f t s = Some s' \<and>
     wrel ((wmap s)(f \<mapsto> wait_here t (w\<lparr>wn_in_wait := wn_in_wait w + 1\<rparr>))) s s'"
proof -
  let ?g = "\<lambda>w. w\<lparr>wn_in_wait := wn_in_wait w + 1\<rparr>"
  obtain s1 where s1: "set_wait f ?g s = Some s1" "wrel ((wmap s)(f \<mapsto> ?g w)) s s1"
    using set_wait_rel [OF assms, of ?g] by auto
  then obtain s2 where s2: "set_wait f (wait_here t) (count_conflict t s1) = Some s2"
      "wrel ((wmap s)(f \<mapsto> wait_here t (?g w))) (count_conflict t s1) s2"
    using set_wait_rel [of "count_conflict t s1" f "?g w" "wait_here t"] wrelD [OF s1(2)] by auto
  have "wrel ((wmap s)(f \<mapsto> wait_here t (?g w))) s s2"
    using wrel_trans [OF s1(2) wrel_count [OF s2(2)]] .
  then show ?thesis using s1(1) s2(1) by (simp add: update_wait_list_def Let_def)
qed

lemma on_wake_rel:
  assumes "waits_sorted (head_wait_list s)" and "wmap s f = Some w"
  shows "\<exists>s'. update_wait_list_on_wake f s = Some s' \<and>
     wrel ((wmap s)(f := if wn_in_wait w = 1 then None else Some (w\<lparr>wn_in_wait := wn_in_wait w - 1\<rparr>))) s s'"
proof -
  let ?g = "\<lambda>w. w\<lparr>wn_in_wait := wn_in_wait w - 1\<rparr>"
  obtain s1 where s1: "set_wait f ?g s = Some s1" "wrel ((wmap s)(f \<mapsto> ?g w)) s s1"
    using set_wait_rel [OF assms, of ?g] by auto
  have w1: "search_wait_list f (head_wait_list s1) = Some (?g w)"
    using wrelD [OF s1(2)] by (simp add: wmap_def fun_eq_iff)
  show ?thesis
  proof (cases "wn_in_wait w = 1")
    case False
    then show ?thesis using s1 w1 by (simp add: update_wait_list_on_wake_def)
  next
    case True
    obtain ws where ws: "delete_wait f (head_wait_list s1) = Some ws"
      using w1 delete_wait_None_iff [of f "head_wait_list s1"] by fastforce
    have srt: "waits_sorted (head_wait_list s1)" using wrelD [OF s1(2)] by simp
    have "(\<lambda>u. search_wait_list u ws) = (wmap s)(f := None)"
      using search_delete_other [OF ws] search_delete_same [OF srt ws] wrelD [OF s1(2)]
      by (auto simp: wmap_def fun_eq_iff)
    then have "wrel ((wmap s)(f := None)) s1 (s1\<lparr>head_wait_list := ws\<rparr>)"
      using waits_sorted_delete [OF srt ws] by (simp add: wrel_def wother_def wmap_def fun_eq_iff)
    with s1 have "wrel ((wmap s)(f := None)) s (s1\<lparr>head_wait_list := ws\<rparr>)" by (blast intro: wrel_trans)
    then show ?thesis using True s1(1) w1 ws by (simp add: update_wait_list_on_wake_def)
  qed
qed

lemma wake_up_rel:
  "waits_sorted (head_wait_list s) \<Longrightarrow> wmap s f = Some w \<Longrightarrow>
   \<exists>s'. wake_up f s = Some s' \<and> wrel ((wmap s)(f \<mapsto> w\<lparr>wn_f_lock := cond_broadcast (wn_f_lock w)\<rparr>)) s s'"
  unfolding wake_up_def by (rule set_wait_rel) auto

definition left :: "int \<Rightarrow> wait_node \<Rightarrow> wait_node" where
  "left t w = w\<lparr>wn_f_lock := cond_leave t (wn_f_lock w)\<rparr>"

definition drop_waiter :: "wait_node \<Rightarrow> wait_node option" where
  "drop_waiter w = (if wn_in_wait w = 1 then None else Some (w\<lparr>wn_in_wait := wn_in_wait w - 1\<rparr>))"

text \<open>The node a woken thread leaves behind, and what becomes of the thread.\<close>

definition woken_step :: "int \<Rightarrow> wait_node \<Rightarrow> wake_outcome \<times> wait_node option" where
  "woken_step t w =
     (let w = left t w; k = wn_woke_up w + 1; counted = w\<lparr>wn_woke_up := k\<rparr>
      in if wn_txnid_abort w = - 1 then (Resume, drop_waiter w)
         else if wn_txnid_abort w \<noteq> t
         then (Sleep_again, Some (wait_here t (if k = wn_in_wait w
                 then counted\<lparr>wn_wake_cond := cond_signal (wn_wake_cond w)\<rparr> else counted)))
         else if k = wn_in_wait w then (Abort_now, drop_waiter (counted\<lparr>wn_txnid_abort := - 1\<rparr>))
         else (Await_wake, Some counted))"

lemma set_wait_fm:
  assumes "waits_sorted (head_wait_list s)" and "wmap s = m" and "m f = Some w"
    and "\<And>w. wn_file_inode (g w) = wn_file_inode w"
  obtains s' where "set_wait f g s = Some s'" and "wrel (m(f \<mapsto> g w)) s s'"
  using set_wait_rel [of s f w g] assms by auto

lemma on_wake_fm:
  assumes "waits_sorted (head_wait_list s)" and "wmap s = m" and "m f = Some w"
  obtains s' where "update_wait_list_on_wake f s = Some s'" and "wrel (m(f := drop_waiter w)) s s'"
  using on_wake_rel [of s f w] assms by (auto simp: drop_waiter_def)

lemma after_wake_rel:
  assumes "waits_sorted (head_wait_list s)" and "wmap s f = Some w"
  shows "\<exists>s'. after_wake f t s = Some (fst (woken_step t w), s') \<and>
     wrel ((wmap s)(f := snd (woken_step t w))) s s'"
proof -
  let ?w1 = "left t w" and ?k = "\<lambda>w. w\<lparr>wn_woke_up := wn_woke_up w + 1\<rparr>"
  obtain s1 where s1: "set_wait f (\<lambda>w. w\<lparr>wn_f_lock := cond_leave t (wn_f_lock w)\<rparr>) s = Some s1"
      "wrel ((wmap s)(f \<mapsto> ?w1)) s s1"
    using set_wait_rel [OF assms, of "\<lambda>w. w\<lparr>wn_f_lock := cond_leave t (wn_f_lock w)\<rparr>"] by (auto simp: left_def)
  note v1 = wrelD [OF s1(2)]
  have l1: "search_wait_list f (head_wait_list s1) = Some ?w1" using v1 by (simp add: wmap_def fun_eq_iff)
  obtain s2 where s2: "set_wait f ?k s1 = Some s2" "wrel ((wmap s)(f \<mapsto> ?k ?w1)) s1 s2"
    using set_wait_fm [of s1 "(wmap s)(f \<mapsto> ?w1)" f ?w1 ?k] v1 by auto
  note v2 = wrelD [OF s2(2)] and r2 = wrel_trans [OF s1(2) s2(2)]
  have l2: "search_wait_list f (head_wait_list s2) = Some (?k ?w1)" using v2 by (simp add: wmap_def fun_eq_iff)
  consider "wn_txnid_abort ?w1 = - 1" | "wn_txnid_abort ?w1 \<noteq> - 1" "wn_txnid_abort ?w1 \<noteq> t"
    | "wn_txnid_abort ?w1 \<noteq> - 1" "wn_txnid_abort ?w1 = t" by blast
  then show ?thesis
  proof cases
    case 1
    obtain s3 where "update_wait_list_on_wake f s1 = Some s3" "wrel ((wmap s)(f := drop_waiter ?w1)) s1 s3"
      using on_wake_fm [of s1 "(wmap s)(f \<mapsto> ?w1)" f ?w1] v1 by auto
    then show ?thesis using 1 s1 l1 wrel_trans [OF s1(2)] by (simp add: after_wake_def woken_step_def Let_def)
  next
    case 2
    obtain s3 where s3: "set_wait f signal_last s2 = Some s3" "wrel ((wmap s)(f \<mapsto> signal_last (?k ?w1))) s2 s3"
      using set_wait_fm [of s2 "(wmap s)(f \<mapsto> ?k ?w1)" f "?k ?w1" signal_last] v2 by auto
    note v3 = wrelD [OF s3(2)] and r3 = wrel_trans [OF r2 s3(2)]
    obtain s4 where s4: "set_wait f (wait_here t) s3 = Some s4" "wrel ((wmap s)(f \<mapsto> wait_here t (signal_last (?k ?w1)))) s3 s4"
      using set_wait_fm [of s3 "(wmap s)(f \<mapsto> signal_last (?k ?w1))" f "signal_last (?k ?w1)" "wait_here t"] v3 by auto
    have "after_wake f t s = Some (Sleep_again, s4)"
      using 2 s1(1) s2(1) s3(1) s4(1) l1 by (simp add: after_wake_def)
    moreover have "woken_step t w = (Sleep_again, Some (wait_here t (signal_last (?k ?w1))))"
      using 2 by (simp add: woken_step_def signal_last_def Let_def)
    ultimately show ?thesis using wrel_trans [OF r3 s4(2)] by simp
  next
    case 3
    show ?thesis
    proof (cases "wn_woke_up ?w1 + 1 = wn_in_wait ?w1")
      case False
      then show ?thesis using 3 s1(1) s2(1) l1 l2 r2 by (simp add: after_wake_def woken_step_def Let_def)
    next
      case True
      let ?c = "\<lambda>w. w\<lparr>wn_txnid_abort := - 1\<rparr>"
      obtain s3 where s3: "set_wait f ?c s2 = Some s3" "wrel ((wmap s)(f \<mapsto> ?c (?k ?w1))) s2 s3"
        using set_wait_fm [of s2 "(wmap s)(f \<mapsto> ?k ?w1)" f "?k ?w1" ?c] v2 by auto
      note v3 = wrelD [OF s3(2)] and r3 = wrel_trans [OF r2 s3(2)]
      obtain s4 where s4: "update_wait_list_on_wake f s3 = Some s4" "wrel ((wmap s)(f := drop_waiter (?c (?k ?w1)))) s3 s4"
        using on_wake_fm [of s3 "(wmap s)(f \<mapsto> ?c (?k ?w1))" f "?c (?k ?w1)"] v3 by auto
      have "after_wake f t s = Some (Abort_now, s4)"
        using 3 True s1(1) s2(1) s3(1) s4(1) l1 l2 by (simp add: after_wake_def)
      moreover have "woken_step t w = (Abort_now, drop_waiter (?c (?k ?w1)))"
        using 3 True by (simp add: woken_step_def Let_def)
      ultimately show ?thesis using wrel_trans [OF r3 s4(2)] by simp
    qed
  qed
qed

section \<open>The counters of waiters\<close>

text \<open>
  \<open>counted C s\<close>: on the node of a file \<open>in_wait\<close> is what \<open>C\<close> says of the file, and the files that
  nobody waits for have no node.  Which threads \<open>C\<close> counts is for the theories above to say.
\<close>

definition node_ok :: "wait_node option \<Rightarrow> nat \<Rightarrow> bool" where
  "node_ok wo k \<longleftrightarrow> (case wo of None \<Rightarrow> k = 0 | Some w \<Rightarrow> wn_in_wait w = int k \<and> 0 < k)"

definition counted :: "(int \<Rightarrow> nat) \<Rightarrow> server \<Rightarrow> bool" where
  "counted C s \<longleftrightarrow> waits_sorted (head_wait_list s) \<and> (\<forall>f. node_ok (wmap s f) (C f))"

abbreviation one_more :: "(int \<Rightarrow> nat) \<Rightarrow> int \<Rightarrow> int \<Rightarrow> nat" where
  "one_more C f \<equiv> C(f := Suc (C f))"

lemma counted_rel: "counted C s \<Longrightarrow> wrel ((wmap s)(f := wo)) s s' \<Longrightarrow> node_ok wo k \<Longrightarrow> counted (C(f := k)) s'"
  by (auto simp: counted_def dest: wrelD)

lemma counted_node: "counted C s \<Longrightarrow> node_ok (wmap s f) (C f)"
  by (simp add: counted_def)

lemma counted_more: "counted (one_more C f) s \<Longrightarrow> \<exists>w. wmap s f = Some w \<and> wn_in_wait w = int (Suc (C f))"
  using counted_node [of "one_more C f" s f] by (simp add: node_ok_def split: option.splits)

text \<open>Only the inodes and the counters matter.\<close>

definition waits_view :: "server \<Rightarrow> (int \<times> int) list" where
  "waits_view s = map (\<lambda>w. (wn_file_inode w, wn_in_wait w)) (head_wait_list s)"

lemma search_waits_view: "map_option wn_in_wait (search_wait_list f ws) = map_of (map (\<lambda>w. (wn_file_inode w, wn_in_wait w)) ws) f"
  by (induction f ws rule: search_wait_list.induct) auto

lemma counted_view: "waits_view s' = waits_view s \<Longrightarrow> counted C s' = counted C s"
proof -
  assume v: "waits_view s' = waits_view s"
  have "map wn_file_inode (head_wait_list s') = map wn_file_inode (head_wait_list s)"
    using arg_cong [OF v, of "map fst"] by (simp add: waits_view_def o_def)
  moreover have "node_ok (wmap s' f) k = node_ok (wmap s f) k" for f k
  proof -
    have "map_option wn_in_wait (wmap s' f) = map_option wn_in_wait (wmap s f)"
      using v by (simp add: wmap_def search_waits_view waits_view_def)
    then show ?thesis by (cases "wmap s f"; cases "wmap s' f") (simp_all add: node_ok_def)
  qed
  ultimately show ?thesis unfolding counted_def waits_sorted_def by simp
qed

lemma upd_wait_view:
  "(\<And>w. wn_file_inode (g w) = wn_file_inode w \<and> wn_in_wait (g w) = wn_in_wait w) \<Longrightarrow> upd_wait f g ws = Some ws' \<Longrightarrow>
   map (\<lambda>w. (wn_file_inode w, wn_in_wait w)) ws' = map (\<lambda>w. (wn_file_inode w, wn_in_wait w)) ws"
  by (induction f g ws arbitrary: ws' rule: upd_wait.induct)
    (auto simp: Option.bind_eq_Some_conv split: if_splits)

lemma set_wait_view:
  "(\<And>w. wn_file_inode (g w) = wn_file_inode w \<and> wn_in_wait (g w) = wn_in_wait w) \<Longrightarrow> set_wait f g s = Some s' \<Longrightarrow>
   waits_view s' = waits_view s"
  using upd_wait_view [of g f "head_wait_list s"] by (auto simp: set_wait_def waits_view_def Option.bind_eq_Some_conv)

lemma wakers_view:
  "wake_up f s = Some s' \<Longrightarrow> waits_view s' = waits_view s"
  "choose_victim f t s = Some s' \<Longrightarrow> waits_view s' = waits_view s"
  "leave_wake_cond f t s = Some s' \<Longrightarrow> waits_view s' = waits_view s"
  "await_wake f t s = Some (b, s') \<Longrightarrow> waits_view s' = waits_view s"
  by (auto simp: wake_up_def choose_victim_def leave_wake_cond_def await_wake_def Option.bind_eq_Some_conv
      split: if_splits dest!: set_wait_view [rotated])

lemma abort_after_wake_rel:
  assumes "waits_sorted (head_wait_list s)" and "wmap s = m" and "m f = Some w"
  shows "\<exists>s'. abort_after_wake f s = Some s' \<and> wrel (m(f := drop_waiter (w\<lparr>wn_txnid_abort := - 1\<rparr>))) s s'"
proof -
  let ?c = "\<lambda>w. w\<lparr>wn_txnid_abort := - 1\<rparr>"
  obtain s1 where s1: "set_wait f ?c s = Some s1" "wrel (m(f \<mapsto> ?c w)) s s1"
    using set_wait_fm [of s m f w ?c] assms by auto
  obtain s2 where s2: "update_wait_list_on_wake f s1 = Some s2" "wrel (m(f := drop_waiter (?c w))) s1 s2"
    using on_wake_fm [of s1 "m(f \<mapsto> ?c w)" f "?c w"] wrelD [OF s1(2)] by auto
  then show ?thesis using s1 wrel_trans by (fastforce simp: abort_after_wake_def)
qed

lemma choose_victim_rel:
  assumes "waits_sorted (head_wait_list s)" and "wmap s f = Some w"
  shows "\<exists>s'. choose_victim f t s = Some s' \<and>
     wrel ((wmap s)(f \<mapsto> w\<lparr>wn_txnid_abort := t, wn_woke_up := 0, wn_f_lock := cond_broadcast (wn_f_lock w)\<rparr>)) s s'"
proof -
  let ?w = "w\<lparr>wn_txnid_abort := t\<rparr>"
  obtain s1 where s1: "set_wait f (\<lambda>w. w\<lparr>wn_txnid_abort := t\<rparr>) s = Some s1" "wrel ((wmap s)(f \<mapsto> ?w)) s s1"
    using set_wait_rel [OF assms, of "\<lambda>w. w\<lparr>wn_txnid_abort := t\<rparr>"] by auto
  obtain s2 where s2: "set_wait f (\<lambda>w. w\<lparr>wn_woke_up := 0\<rparr>) s1 = Some s2" "wrel ((wmap s)(f \<mapsto> ?w\<lparr>wn_woke_up := 0\<rparr>)) s1 s2"
    using set_wait_fm [of s1 "(wmap s)(f \<mapsto> ?w)" f ?w "\<lambda>w. w\<lparr>wn_woke_up := 0\<rparr>"] wrelD [OF s1(2)] by auto
  obtain s3 where s3: "set_wait f (\<lambda>w. w\<lparr>wn_f_lock := cond_broadcast (wn_f_lock w)\<rparr>) s2 = Some s3"
      "wrel ((wmap s)(f \<mapsto> w\<lparr>wn_txnid_abort := t, wn_woke_up := 0, wn_f_lock := cond_broadcast (wn_f_lock w)\<rparr>)) s2 s3"
    using set_wait_fm [of s2 "(wmap s)(f \<mapsto> ?w\<lparr>wn_woke_up := 0\<rparr>)" f "?w\<lparr>wn_woke_up := 0\<rparr>"
        "\<lambda>w. w\<lparr>wn_f_lock := cond_broadcast (wn_f_lock w)\<rparr>"] wrelD [OF s2(2)] by auto
  show ?thesis using s1(1) s2(1) s3 wrel_trans [OF wrel_trans [OF s1(2) s2(2)] s3(2)]
    by (simp add: choose_victim_def)
qed

text \<open>What the operations do to the counters.\<close>

lemma node_ok_drop: "wn_in_wait w = int (Suc k) \<Longrightarrow> node_ok (drop_waiter w) k"
  by (auto simp: node_ok_def drop_waiter_def)

lemma counted_blocks:
  assumes "counted C s"
  shows "wmap s f = None \<Longrightarrow> insert_wait_list f t s = Some s' \<Longrightarrow> counted (one_more C f) s'"
    "wmap s f = Some w \<Longrightarrow> update_wait_list f t s = Some s' \<Longrightarrow> counted (one_more C f) s'"
proof -
  have w: "waits_sorted (head_wait_list s)" and n: "node_ok (wmap s f) (C f)" using assms by (simp_all add: counted_def)
  show "counted (one_more C f) s'" if a: "wmap s f = None" "insert_wait_list f t s = Some s'"
  proof -
    have "wrel ((wmap s)(f \<mapsto> wait_here t (get_wait_node f))) s s'" using insert_wait_list_rel [OF w a(1), of t] a(2) by simp
    then show ?thesis using n a(1) by (intro counted_rel [OF assms]) (auto simp: node_ok_def wait_here_def get_wait_node_def)
  qed
  show "counted (one_more C f) s'" if a: "wmap s f = Some w" "update_wait_list f t s = Some s'"
  proof -
    have "wrel ((wmap s)(f \<mapsto> wait_here t (w\<lparr>wn_in_wait := wn_in_wait w + 1\<rparr>))) s s'" using update_wait_list_rel [OF w a(1), of t] a(2) by simp
    then show ?thesis using n a(1) by (intro counted_rel [OF assms]) (auto simp: node_ok_def wait_here_def)
  qed
qed

lemma left_fields [simp]:
  "wn_in_wait (left t w) = wn_in_wait w" "wn_txnid_abort (left t w) = wn_txnid_abort w"
  "wn_woke_up (left t w) = wn_woke_up w"
  by (simp_all add: left_def)

lemma woken_step_counts:
  assumes "wn_in_wait w = int (Suc k)"
  shows "node_ok (snd (woken_step t w)) (if fst (woken_step t w) \<in> {Resume, Abort_now} then k else Suc k)"
  using assms node_ok_drop [of "left t w" k] node_ok_drop [of "left t w\<lparr>wn_woke_up := i, wn_txnid_abort := - 1\<rparr>" k for i]
  by (auto simp: woken_step_def Let_def node_ok_def [of "Some _"] wait_here_def)

text \<open>A thread that is counted finds its node; if it goes on, the counter drops by one, and the
  node goes with the last.\<close>

lemma counted_after_wake:
  assumes "counted (one_more C f) s"
  shows "\<exists>out s'. after_wake f t s = Some (out, s') \<and> counted (if out \<in> {Resume, Abort_now} then C else one_more C f) s'"
proof -
  obtain w where w: "wmap s f = Some w" "wn_in_wait w = int (Suc (C f))" using counted_more [OF assms] by blast
  have "waits_sorted (head_wait_list s)" using assms by (simp add: counted_def)
  then obtain s' where s': "after_wake f t s = Some (fst (woken_step t w), s')" "wrel ((wmap s)(f := snd (woken_step t w))) s s'"
    using after_wake_rel w(1) by blast
  from counted_rel [OF assms s'(2) woken_step_counts [OF w(2)]] s'(1) show ?thesis
    by (cases "fst (woken_step t w) \<in> {Resume, Abort_now}") auto
qed

lemma counted_abort_after_wake:
  assumes "counted (one_more C f) s"
  shows "\<exists>s'. abort_after_wake f s = Some s' \<and> counted C s'"
proof -
  obtain w where w: "wmap s f = Some w" "wn_in_wait w = int (Suc (C f))" using counted_more [OF assms] by blast
  have "waits_sorted (head_wait_list s)" using assms by (simp add: counted_def)
  then obtain s' where s': "abort_after_wake f s = Some s'" "wrel ((wmap s)(f := drop_waiter (w\<lparr>wn_txnid_abort := - 1\<rparr>))) s s'"
    using abort_after_wake_rel w(1) by blast
  have "node_ok (drop_waiter (w\<lparr>wn_txnid_abort := - 1\<rparr>)) (C f)" using w(2) by (intro node_ok_drop) simp
  from counted_rel [OF assms s'(2) this] s'(1) show ?thesis by auto
qed

end
