(* ===== verification/LogFile.thy ===== *)
theory LogFile
  imports ServerState
begin

text \<open>
  The format of the event log: one record after another, each the fields of struct
  log_record in the order every \<open>log_*\<close> function of Log_manager.c writes them, the two data
  fields preceded by their lengths.  A record is named by its byte offset (its LRN).  The
  reader is the loop of test_log.c.  The abstract view of a log file is its list of records;
  the lemmas say what appending a record and patching a \<open>next_LRN\<close> field do to it.
\<close>

section \<open>Writing\<close>

definition encode_record :: "log_record \<Rightarrow> char list" where
  "encode_record r =
     le_bytes 8 (lr_LRN r) @ le_bytes 4 (lr_txn_id r) @ le_bytes 8 (lr_prev_LRN r) @
     le_bytes 8 (lr_next_LRN r) @ le_bytes 4 (lr_record_type r) @ le_bytes 4 (lr_fd r) @
     le_bytes 8 (lr_offset r) @ le_bytes 8 (int (length (lr_data r))) @ lr_data r @
     le_bytes 8 (int (length (lr_data1 r))) @ lr_data1 r"

text \<open>\<open>fseek(event_log, 0, SEEK_END)\<close> and the eleven writes.\<close>

definition append_record :: "log_record \<Rightarrow> cfile \<Rightarrow> cfile" where
  "append_record r f =
     (let f = fseek_end f;
          f = fwrite (le_bytes 8 (lr_LRN r)) f;
          f = fwrite (le_bytes 4 (lr_txn_id r)) f;
          f = fwrite (le_bytes 8 (lr_prev_LRN r)) f;
          f = fwrite (le_bytes 8 (lr_next_LRN r)) f;
          f = fwrite (le_bytes 4 (lr_record_type r)) f;
          f = fwrite (le_bytes 4 (lr_fd r)) f;
          f = fwrite (le_bytes 8 (lr_offset r)) f;
          f = fwrite (le_bytes 8 (int (length (lr_data r)))) f;
          f = fwrite (lr_data r) f;
          f = fwrite (le_bytes 8 (int (length (lr_data1 r)))) f
      in fwrite (lr_data1 r) f)"

text \<open>Seek to the previous record of the transaction, skip LRN, txn_id and prev_LRN, and
  overwrite next_LRN.\<close>

definition patch_next :: "int \<Rightarrow> int \<Rightarrow> cfile \<Rightarrow> cfile" where
  "patch_next prev_LRN LRN f =
     fwrite (le_bytes 8 LRN) (fseek_cur (8 + 4 + 8) (fseek_set prev_LRN f))"

section \<open>Reading\<close>

definition split_at :: "nat \<Rightarrow> char list \<Rightarrow> (char list \<times> char list) option" where
  "split_at n bs = (if n \<le> length bs then Some (take n bs, drop n bs) else None)"

definition get_length :: "char list \<Rightarrow> nat option" where
  "get_length bs = (let n = get_s64 bs in if 0 \<le> n then Some (nat n) else None)"

definition parse_record :: "char list \<Rightarrow> (log_record \<times> char list) option" where
  "parse_record bs = do {
     (b_lrn, bs) \<leftarrow> split_at 8 bs;
     (b_txn, bs) \<leftarrow> split_at 4 bs;
     (b_prev, bs) \<leftarrow> split_at 8 bs;
     (b_next, bs) \<leftarrow> split_at 8 bs;
     (b_type, bs) \<leftarrow> split_at 4 bs;
     (b_fd, bs) \<leftarrow> split_at 4 bs;
     (b_off, bs) \<leftarrow> split_at 8 bs;
     (b_len, bs) \<leftarrow> split_at 8 bs;
     n \<leftarrow> get_length b_len;
     (data, bs) \<leftarrow> split_at n bs;
     (b_len1, bs) \<leftarrow> split_at 8 bs;
     n1 \<leftarrow> get_length b_len1;
     (data1, bs) \<leftarrow> split_at n1 bs;
     Some (\<lparr>lr_LRN = get_s64 b_lrn, lr_txn_id = get_s32 b_txn, lr_prev_LRN = get_s64 b_prev,
            lr_next_LRN = get_s64 b_next, lr_record_type = get_s32 b_type, lr_fd = get_s32 b_fd,
            lr_offset = get_s64 b_off, lr_data = data, lr_data1 = data1\<rparr>, bs) }"

lemma split_at_shorter: "split_at n bs = Some (u, v) \<Longrightarrow> length v + n = length bs"
  by (auto simp: split_at_def split: if_splits)

lemma parse_record_shorter: "parse_record bs = Some (r, rest) \<Longrightarrow> length rest < length bs"
  unfolding parse_record_def
  by (auto simp: Option.bind_eq_Some_conv dest!: split_at_shorter)

text \<open>\<open>while (fread(&t.LRN, sizeof(long), 1, f) != 0)\<close>: the loop ends when fewer than eight
  bytes are left; a record cut short is read into uninitialised fields.\<close>

function parse_log :: "char list \<Rightarrow> log_record list option" where
  "parse_log bs =
     (if length bs < 8 then Some []
      else case parse_record bs of
             None \<Rightarrow> None
           | Some (r, rest) \<Rightarrow> (case parse_log rest of None \<Rightarrow> None | Some rs \<Rightarrow> Some (r # rs)))"
  by pat_completeness auto
termination
  by (relation "measure length") (auto dest: parse_record_shorter)

declare parse_log.simps [simp del]

section \<open>Well-formed records and logs\<close>

definition rec_ok :: "log_record \<Rightarrow> bool" where
  "rec_ok r \<longleftrightarrow> in_s64 (lr_LRN r) \<and> in_s32 (lr_txn_id r) \<and> in_s64 (lr_prev_LRN r) \<and>
     in_s64 (lr_next_LRN r) \<and> in_s32 (lr_record_type r) \<and> in_s32 (lr_fd r) \<and>
     in_s64 (lr_offset r) \<and> in_s64 (int (length (lr_data r))) \<and> in_s64 (int (length (lr_data1 r)))"

definition encode_log :: "log_record list \<Rightarrow> char list" where
  "encode_log rs = concat (map encode_record rs)"

fun wf_log :: "nat \<Rightarrow> log_record list \<Rightarrow> bool" where
  "wf_log p [] = True"
| "wf_log p (r # rs) =
     (lr_LRN r = int p \<and> rec_ok r \<and> wf_log (p + length (encode_record r)) rs)"

lemma encode_log_simps [simp]:
  "encode_log [] = []"
  "encode_log (r # rs) = encode_record r @ encode_log rs"
  "encode_log (rs @ qs) = encode_log rs @ encode_log qs"
  by (simp_all add: encode_log_def)

lemma length_encode_record:
  "length (encode_record r) = 60 + length (lr_data r) + length (lr_data1 r)"
  by (simp add: encode_record_def)

lemma split_at_append [simp]: "length u = n \<Longrightarrow> split_at n (u @ v) = Some (u, v)"
  by (simp add: split_at_def)

lemma get_length_le [simp]: "in_s64 (int n) \<Longrightarrow> get_length (le_bytes 8 (int n)) = Some n"
  by (simp add: get_length_def)

lemma parse_encode_record:
  "rec_ok r \<Longrightarrow> parse_record (encode_record r @ rest) = Some (r, rest)"
  unfolding rec_ok_def encode_record_def parse_record_def
  by simp

lemma parse_encode_log:
  "wf_log p rs \<Longrightarrow> parse_log (encode_log rs) = Some rs"
proof (induction rs arbitrary: p)
  case Nil
  then show ?case by (simp add: parse_log.simps)
next
  case (Cons r rs)
  have "\<not> length (encode_record r @ encode_log rs) < 8"
    by (simp add: length_encode_record)
  moreover have "parse_log (encode_log rs) = Some rs"
    using Cons.IH [of "p + length (encode_record r)"] Cons.prems by simp
  ultimately show ?case using Cons.prems
    by (simp add: parse_log.simps [of "encode_record r @ encode_log rs"] parse_encode_record)
qed

lemma wf_log_append:
  "wf_log p (rs @ qs) \<longleftrightarrow> wf_log p rs \<and> wf_log (p + length (encode_log rs)) qs"
  by (induction rs arbitrary: p) (auto simp: add.assoc)

lemma wf_log_LRN_bounds:
  "wf_log p rs \<Longrightarrow> r \<in> set rs \<Longrightarrow> int p \<le> lr_LRN r \<and> lr_LRN r + 60 \<le> int p + int (length (encode_log rs))"
proof (induction rs arbitrary: p)
  case Nil
  then show ?case by simp
next
  case (Cons q qs)
  show ?case
  proof (cases "r = q")
    case True
    with Cons.prems show ?thesis by (auto simp: length_encode_record)
  next
    case False
    with Cons.prems Cons.IH [of "p + length (encode_record q)"] show ?thesis
      by (auto simp: length_encode_record)
  qed
qed

lemma wf_log_LRN_inj:
  "wf_log p rs \<Longrightarrow> r \<in> set rs \<Longrightarrow> q \<in> set rs \<Longrightarrow> lr_LRN r = lr_LRN q \<Longrightarrow> r = q"
proof (induction rs arbitrary: p)
  case Nil
  then show ?case by simp
next
  case (Cons x xs)
  have "lr_LRN x < lr_LRN y" if "y \<in> set xs" for y
    using Cons.prems(1) that wf_log_LRN_bounds [of "p + length (encode_record x)" xs y]
    by (auto simp: length_encode_record)
  with Cons show ?case by fastforce
qed

section \<open>What the file operations do to the list of records\<close>

lemma append_record_content:
  "content (append_record r f) = content f @ encode_record r"
  by (simp add: append_record_def encode_record_def Let_def)

definition set_next :: "int \<Rightarrow> int \<Rightarrow> log_record list \<Rightarrow> log_record list" where
  "set_next prev lrn rs = map (\<lambda>r. if lr_LRN r = prev then r\<lparr>lr_next_LRN := lrn\<rparr> else r) rs"

lemma length_encode_set_next [simp]: "length (encode_log (set_next p l rs)) = length (encode_log rs)"
  by (induction rs) (auto simp: set_next_def length_encode_record)

lemma wf_log_set_next:
  "wf_log p rs \<Longrightarrow> in_s64 l \<Longrightarrow> wf_log p (set_next q l rs)"
  by (induction rs arbitrary: p) (auto simp: set_next_def rec_ok_def length_encode_record)

lemma set_next_id: "(\<And>r. r \<in> set rs \<Longrightarrow> lr_LRN r \<noteq> p) \<Longrightarrow> set_next p l rs = rs"
  by (induction rs) (auto simp: set_next_def)

lemma patch_next_record:
  assumes "content f = u @ encode_record r @ w" and "prev = int (length u)"
  shows "content (patch_next prev lrn f) = u @ encode_record (r\<lparr>lr_next_LRN := lrn\<rparr>) @ w"
proof -
  let ?a = "u @ le_bytes 8 (lr_LRN r) @ le_bytes 4 (lr_txn_id r) @ le_bytes 8 (lr_prev_LRN r)"
  let ?c = "le_bytes 4 (lr_record_type r) @ le_bytes 4 (lr_fd r) @
     le_bytes 8 (lr_offset r) @ le_bytes 8 (int (length (lr_data r))) @ lr_data r @
     le_bytes 8 (int (length (lr_data1 r))) @ lr_data1 r @ w"
  let ?g = "fseek_cur 20 (fseek_set prev f)"
  have "content ?g = ?a @ le_bytes 8 (lr_next_LRN r) @ ?c" and "fpos ?g = length ?a"
    using assms by (simp_all add: fseek_cur_def fseek_set_def encode_record_def)
  then have "content (fwrite (le_bytes 8 lrn) ?g) = ?a @ le_bytes 8 lrn @ ?c"
    by (subst fwrite_inside [of _ ?a "le_bytes 8 (lr_next_LRN r)" ?c]) simp_all
  then show ?thesis by (simp add: patch_next_def encode_record_def)
qed

lemma patch_next_log:
  assumes "content f = encode_log rs" and "wf_log 0 rs" and "r \<in> set rs" and "lr_LRN r = prev"
  shows "content (patch_next prev lrn f) = encode_log (set_next prev lrn rs)"
proof -
  from assms(3) obtain us vs where rs: "rs = us @ r # vs" by (auto simp: in_set_conv_decomp)
  with assms(2) have wf: "wf_log 0 us" "lr_LRN r = int (length (encode_log us))"
      "wf_log (length (encode_log us) + length (encode_record r)) vs"
    by (auto simp: wf_log_append)
  have "content (patch_next prev lrn f) =
      encode_log us @ encode_record (r\<lparr>lr_next_LRN := lrn\<rparr>) @ encode_log vs"
    using assms(1,4) rs wf(2) by (intro patch_next_record) auto
  moreover have "set_next prev lrn us = us"
    using wf_log_LRN_bounds [OF wf(1)] wf(2) assms(4) by (intro set_next_id) fastforce
  moreover have "set_next prev lrn vs = vs"
    using wf_log_LRN_bounds [OF wf(3)] wf(2) assms(4)
    by (intro set_next_id) (fastforce simp: length_encode_record)
  ultimately show ?thesis using rs assms(4) by (simp add: set_next_def)
qed

lemma wf_log_snoc:
  "wf_log 0 rs \<Longrightarrow> rec_ok r \<Longrightarrow> lr_LRN r = int (length (encode_log rs)) \<Longrightarrow> wf_log 0 (rs @ [r])"
  by (simp add: wf_log_append)

end
