(* ===== verification/LogManager.thy ===== *)
theory LogManager
  imports TxnManager LogFile
begin

text \<open>
  The event log (Log_manager.c): every operation takes \<open>log_mutex\<close>, links a new record
  behind the last record of its transaction and appends it.  \<open>log_dev_ok\<close> says whether the
  device accepts writes; where it does not, \<open>fwrite\<close> returns 0 and leaves the file alone, and
  the operations that test the result return -1 at once, with \<open>log_mutex\<close> still held.
  Locking a held mutex never returns: \<open>None\<close>.
\<close>

section \<open>Operations\<close>

definition lock_log :: "server \<Rightarrow> server option" where
  "lock_log s = (if log_mutex s then None else Some (s\<lparr>log_mutex := True\<rparr>))"

definition unlock_log :: "server \<Rightarrow> server" where
  "unlock_log s = s\<lparr>log_mutex := False\<rparr>"

definition emit :: "fs_call \<Rightarrow> server \<Rightarrow> server" where
  "emit c s = s\<lparr>fs_calls := fs_calls s @ [c]\<rparr>"

definition flush_log :: "server \<Rightarrow> server" where
  "flush_log s = emit Flush_log s"

definition extract_record_no :: "server \<Rightarrow> int" where
  "extract_record_no s = ftell (fseek_end (event_log s))"

definition get_prev_log_LRN :: "int \<Rightarrow> server \<Rightarrow> int option" where
  "get_prev_log_LRN ntid s = map_option tn_last_LRN (find_txn ntid (head_txn_list s))"

definition update_txn :: "int \<Rightarrow> int \<Rightarrow> server \<Rightarrow> server option" where
  "update_txn ntid last_LRN s = set_txn ntid (\<lambda>n. n\<lparr>tn_last_LRN := last_LRN\<rparr>) s"

definition NA :: "char list" where
  "NA = ''NA'' @ [CHR 0x0A]"

definition nul_terminated :: "cstring \<Rightarrow> char list" where
  "nul_terminated cs = cs @ [CHR 0x00]"

definition write_record :: "log_record \<Rightarrow> server \<Rightarrow> server" where
  "write_record r s =
     (if log_dev_ok s then s\<lparr>event_log := append_record r (event_log s)\<rparr> else s)"

text \<open>The test \<open>fwrite(&log_LRN, sizeof(long), 1, event_log) == 0\<close>.\<close>

definition patch_prev :: "int \<Rightarrow> int \<Rightarrow> server \<Rightarrow> bool \<times> server" where
  "patch_prev prev_LRN LRN s =
     (if log_dev_ok s then (True, s\<lparr>event_log := patch_next prev_LRN LRN (event_log s)\<rparr>)
      else (False, s))"

definition log_txn_beg :: "int \<Rightarrow> server \<Rightarrow> (int \<times> server) option" where
  "log_txn_beg ntid s = do {
     s \<leftarrow> lock_log s;
     let LRN = extract_record_no s;
     let r = \<lparr>lr_LRN = LRN, lr_txn_id = ntid, lr_prev_LRN = - 1, lr_next_LRN = - 1,
              lr_record_type = log_type_code TXN_BEG, lr_fd = - 1, lr_offset = - 1,
              lr_data = NA, lr_data1 = NA\<rparr>;
     Some (LRN, flush_log (unlock_log (write_record r s))) }"

definition log_txn_commit :: "int \<Rightarrow> server \<Rightarrow> (int \<times> server) option" where
  "log_txn_commit ntid s = do {
     s \<leftarrow> lock_log s;
     let LRN = extract_record_no s;
     prev \<leftarrow> get_prev_log_LRN ntid s;
     let (ok, s) = patch_prev prev LRN s;
     if \<not> ok then Some (- 1, s)
     else do {
       s \<leftarrow> update_txn ntid LRN s;
       let r = \<lparr>lr_LRN = LRN, lr_txn_id = ntid, lr_prev_LRN = prev, lr_next_LRN = - 1,
                lr_record_type = log_type_code TXN_COMMIT, lr_fd = - 1, lr_offset = - 1,
                lr_data = NA, lr_data1 = NA\<rparr>;
       Some (LRN, flush_log (unlock_log (write_record r s))) } }"

definition log_txn_abort :: "int \<Rightarrow> server \<Rightarrow> (int \<times> server) option" where
  "log_txn_abort ntid s = do {
     s \<leftarrow> lock_log s;
     let LRN = extract_record_no s;
     prev \<leftarrow> get_prev_log_LRN ntid s;
     let (ok, s) = patch_prev prev LRN s;
     if \<not> ok then Some (- 1, s)
     else do {
       s \<leftarrow> update_txn ntid LRN s;
       let r = \<lparr>lr_LRN = LRN, lr_txn_id = ntid, lr_prev_LRN = prev, lr_next_LRN = - 1,
                lr_record_type = log_type_code TXN_ABORT, lr_fd = - 1, lr_offset = - 1,
                lr_data = NA, lr_data1 = NA\<rparr>;
       Some (LRN, flush_log (unlock_log (write_record r s))) } }"

text \<open>The node of the transaction is already gone when its end is logged: the record number
  of its last record is passed in and no node is updated.\<close>

definition log_txn_end :: "int \<Rightarrow> int \<Rightarrow> server \<Rightarrow> (int \<times> server) option" where
  "log_txn_end ntid prev s = do {
     s \<leftarrow> lock_log s;
     let LRN = extract_record_no s;
     let (ok, s) = patch_prev prev LRN s;
     if \<not> ok then Some (- 1, s)
     else do {
       let r = \<lparr>lr_LRN = LRN, lr_txn_id = ntid, lr_prev_LRN = prev, lr_next_LRN = - 1,
                lr_record_type = log_type_code TXN_END, lr_fd = - 1, lr_offset = - 1,
                lr_data = NA, lr_data1 = NA\<rparr>;
       Some (LRN, flush_log (unlock_log (write_record r s))) } }"

text \<open>
  \<open>t.data\<close> is a buffer of \<open>strlen(data) + 1\<close> bytes of which \<open>write_length\<close> are written
  out: a larger \<open>write_length\<close> reads past the buffer.
\<close>

definition log_write :: "int \<Rightarrow> int \<Rightarrow> int \<Rightarrow> nat \<Rightarrow> cstring \<Rightarrow> server \<Rightarrow> (int \<times> server) option" where
  "log_write txnid fd offset write_length data s = do {
     prev \<leftarrow> get_prev_log_LRN txnid s;
     s \<leftarrow> lock_log s;
     let LRN = extract_record_no s;
     let (ok, s) = patch_prev prev LRN s;
     if \<not> ok then Some (- 1, s)
     else do {
       s \<leftarrow> update_txn txnid LRN s;
       (bytes, _) \<leftarrow> split_at write_length (nul_terminated data);
       let r = \<lparr>lr_LRN = LRN, lr_txn_id = txnid, lr_prev_LRN = prev, lr_next_LRN = - 1,
                lr_record_type = log_type_code UPDATE, lr_fd = fd, lr_offset = offset,
                lr_data = bytes, lr_data1 = NA\<rparr>;
       Some (LRN, flush_log (unlock_log (write_record r s))) } }"

definition log_rename :: "int \<Rightarrow> cstring \<Rightarrow> cstring \<Rightarrow> server \<Rightarrow> (int \<times> server) option" where
  "log_rename txnid oldpath newpath s = do {
     prev \<leftarrow> get_prev_log_LRN txnid s;
     s \<leftarrow> lock_log s;
     let LRN = extract_record_no s;
     let (ok, s) = patch_prev prev LRN s;
     if \<not> ok then Some (- 1, s)
     else do {
       s \<leftarrow> update_txn txnid LRN s;
       let r = \<lparr>lr_LRN = LRN, lr_txn_id = txnid, lr_prev_LRN = prev, lr_next_LRN = - 1,
                lr_record_type = log_type_code RENAME, lr_fd = - 1, lr_offset = - 1,
                lr_data = nul_terminated oldpath, lr_data1 = nul_terminated newpath\<rparr>;
       Some (LRN, flush_log (unlock_log (write_record r s))) } }"

definition log_creat :: "int \<Rightarrow> cstring \<Rightarrow> cstring \<Rightarrow> server \<Rightarrow> (int \<times> server) option" where
  "log_creat txnid path mode s = do {
     prev \<leftarrow> get_prev_log_LRN txnid s;
     s \<leftarrow> lock_log s;
     let LRN = extract_record_no s;
     let (ok, s) = patch_prev prev LRN s;
     if \<not> ok then Some (- 1, s)
     else do {
       s \<leftarrow> update_txn txnid LRN s;
       let r = \<lparr>lr_LRN = LRN, lr_txn_id = txnid, lr_prev_LRN = prev, lr_next_LRN = - 1,
                lr_record_type = log_type_code CREAT, lr_fd = - 1, lr_offset = - 1,
                lr_data = nul_terminated path, lr_data1 = nul_terminated mode\<rparr>;
       Some (LRN, flush_log (unlock_log (write_record r s))) } }"

definition log_unlink :: "int \<Rightarrow> cstring \<Rightarrow> server \<Rightarrow> (int \<times> server) option" where
  "log_unlink txnid path s = do {
     prev \<leftarrow> get_prev_log_LRN txnid s;
     s \<leftarrow> lock_log s;
     let LRN = extract_record_no s;
     let (ok, s) = patch_prev prev LRN s;
     if \<not> ok then Some (- 1, s)
     else do {
       s \<leftarrow> update_txn txnid LRN s;
       let r = \<lparr>lr_LRN = LRN, lr_txn_id = txnid, lr_prev_LRN = prev, lr_next_LRN = - 1,
                lr_record_type = log_type_code UNLINK, lr_fd = - 1, lr_offset = - 1,
                lr_data = nul_terminated path, lr_data1 = nul_terminated NA\<rparr>;
       Some (LRN, flush_log (unlock_log (write_record r s))) } }"

end
