(* ===== verification/LogChains.thy ===== *)
theory LogChains
  imports LogManager
begin

text \<open>
  The abstract view of the log: a list of records, each transaction's records chained through
  \<open>prev_LRN\<close> and \<open>next_LRN\<close>, the node of each live transaction pointing at the end of its
  chain.  All linking operations of Log_manager.c have one shape (\<open>log_linked\<close>); the
  invariant is proved once for it and once for the start of a transaction and for its end.
\<close>

section \<open>The shape of a linking operation\<close>

definition log_linked :: "int \<Rightarrow> log_record \<Rightarrow> server \<Rightarrow> server option" where
  "log_linked t r s = do {
     ts \<leftarrow> upd_txn t (\<lambda>n. n\<lparr>tn_last_LRN := lr_LRN r\<rparr>) (head_txn_list s);
     Some (s\<lparr>head_txn_list := ts,
             event_log := append_record r (patch_next (lr_prev_LRN r) (lr_LRN r) (event_log s)),
             fs_calls := fs_calls s @ [Flush_log]\<rparr>) }"

definition log_size :: "server \<Rightarrow> int" where
  "log_size s = int (length (content (event_log s)))"

definition mk_record :: "server \<Rightarrow> txn_node \<Rightarrow> log_type \<Rightarrow> int \<Rightarrow> int \<Rightarrow> char list \<Rightarrow> char list \<Rightarrow> log_record" where
  "mk_record s n ty fd off d d1 =
     \<lparr>lr_LRN = log_size s, lr_txn_id = tn_txn_id n, lr_prev_LRN = tn_last_LRN n, lr_next_LRN = - 1,
      lr_record_type = log_type_code ty, lr_fd = fd, lr_offset = off, lr_data = d, lr_data1 = d1\<rparr>"

lemma extract_record_no_eq: "extract_record_no s = log_size s"
  by (simp add: extract_record_no_def log_size_def ftell_def fseek_end_def)

lemmas log_op_defs = lock_log_def unlock_log_def flush_log_def emit_def patch_prev_def
  write_record_def update_txn_def set_txn_def get_prev_log_LRN_def extract_record_no_def
  ftell_def fseek_end_def Let_def

lemma log_op_shapes:
  assumes "\<not> log_mutex s" and "log_dev_ok s" and "find_txn t (head_txn_list s) = Some n"
  shows "log_txn_commit t s = map_option (Pair (log_size s)) (log_linked t (mk_record s n TXN_COMMIT (- 1) (- 1) NA NA) s)"
    and "log_txn_abort t s = map_option (Pair (log_size s)) (log_linked t (mk_record s n TXN_ABORT (- 1) (- 1) NA NA) s)"
    and "k \<le> length d + 1 \<Longrightarrow>
      log_write t fd off k d s =
      map_option (Pair (log_size s)) (log_linked t (mk_record s n UPDATE fd off (take k (nul_terminated d)) NA) s)"
    and "log_rename t p q s =
      map_option (Pair (log_size s)) (log_linked t (mk_record s n RENAME (- 1) (- 1) (nul_terminated p) (nul_terminated q)) s)"
    and "log_creat t p q s =
      map_option (Pair (log_size s)) (log_linked t (mk_record s n CREAT (- 1) (- 1) (nul_terminated p) (nul_terminated q)) s)"
    and "log_unlink t p s =
      map_option (Pair (log_size s)) (log_linked t (mk_record s n UNLINK (- 1) (- 1) (nul_terminated p) (nul_terminated NA)) s)"
proof -
  have tn: "tn_txn_id n = t" using assms(3) by (auto dest: find_txn_SomeD)
  obtain ts where ts: "upd_txn t (\<lambda>n. n\<lparr>tn_last_LRN := log_size s\<rparr>) (head_txn_list s) = Some ts"
    using assms(3) upd_txn_None_iff [of t "\<lambda>n. n\<lparr>tn_last_LRN := log_size s\<rparr>" "head_txn_list s"] by fastforce
  note facts = assms tn ts [unfolded log_size_def]
  show "log_txn_commit t s = map_option (Pair (log_size s)) (log_linked t (mk_record s n TXN_COMMIT (- 1) (- 1) NA NA) s)"
    using facts by (simp add: log_txn_commit_def log_linked_def mk_record_def log_size_def log_op_defs)
  show "log_txn_abort t s = map_option (Pair (log_size s)) (log_linked t (mk_record s n TXN_ABORT (- 1) (- 1) NA NA) s)"
    using facts by (simp add: log_txn_abort_def log_linked_def mk_record_def log_size_def log_op_defs)
  show "log_write t fd off k d s =
      map_option (Pair (log_size s)) (log_linked t (mk_record s n UPDATE fd off (take k (nul_terminated d)) NA) s)"
    if "k \<le> length d + 1"
    using facts that
    by (simp add: log_write_def log_linked_def mk_record_def log_size_def log_op_defs split_at_def nul_terminated_def)
  show "log_rename t p q s =
      map_option (Pair (log_size s)) (log_linked t (mk_record s n RENAME (- 1) (- 1) (nul_terminated p) (nul_terminated q)) s)"
    using facts by (simp add: log_rename_def log_linked_def mk_record_def log_size_def log_op_defs)
  show "log_creat t p q s =
      map_option (Pair (log_size s)) (log_linked t (mk_record s n CREAT (- 1) (- 1) (nul_terminated p) (nul_terminated q)) s)"
    using facts by (simp add: log_creat_def log_linked_def mk_record_def log_size_def log_op_defs)
  show "log_unlink t p s =
      map_option (Pair (log_size s)) (log_linked t (mk_record s n UNLINK (- 1) (- 1) (nul_terminated p) (nul_terminated NA)) s)"
    using facts by (simp add: log_unlink_def log_linked_def mk_record_def log_size_def log_op_defs)
qed

section \<open>The invariant\<close>

definition linked :: "log_record list \<Rightarrow> bool" where
  "linked rs \<longleftrightarrow>
     (\<forall>r \<in> set rs. lr_prev_LRN r \<noteq> - 1 \<longrightarrow>
        (\<exists>q \<in> set rs. lr_LRN q = lr_prev_LRN r \<and> lr_txn_id q = lr_txn_id r \<and> lr_next_LRN q = lr_LRN r)) \<and>
     (\<forall>q \<in> set rs. lr_next_LRN q \<noteq> - 1 \<longrightarrow>
        (\<exists>r \<in> set rs. lr_LRN r = lr_next_LRN q \<and> lr_txn_id r = lr_txn_id q \<and> lr_prev_LRN r = lr_LRN q))"

definition chain_end :: "log_record list \<Rightarrow> txn_node \<Rightarrow> bool" where
  "chain_end rs n \<longleftrightarrow>
     (\<exists>r \<in> set rs. lr_LRN r = tn_last_LRN n \<and> lr_txn_id r = tn_txn_id n \<and> lr_next_LRN r = - 1)"

definition log_inv :: "server \<Rightarrow> log_record list \<Rightarrow> bool" where
  "log_inv s rs \<longleftrightarrow>
     content (event_log s) = encode_log rs \<and> wf_log 0 rs \<and> linked rs \<and>
     txns_ok (head_txn_list s) \<and> (\<forall>n \<in> set (head_txn_list s). chain_end rs n)"

lemma log_inv_parse: "log_inv s rs \<Longrightarrow> parse_log (content (event_log s)) = Some rs"
  using parse_encode_log [of 0 rs] by (simp add: log_inv_def)

lemma log_size_eq: "log_inv s rs \<Longrightarrow> log_size s = int (length (encode_log rs))"
  by (simp add: log_inv_def log_size_def)

lemma in_set_next:
  "x \<in> set (set_next p l rs) \<longleftrightarrow>
   (\<exists>r \<in> set rs. x = (if lr_LRN r = p then r\<lparr>lr_next_LRN := l\<rparr> else r))"
  unfolding set_next_def set_map image_iff by (rule refl)

lemma linked_extend:
  assumes "linked rs" and "wf_log 0 rs" and "r0 \<in> set rs" and "lr_LRN r0 = p" and "lr_next_LRN r0 = - 1"
    and "lr_LRN r = int (length (encode_log rs))" and "lr_prev_LRN r = p"
    and "lr_next_LRN r = - 1" and "lr_txn_id r = lr_txn_id r0"
  shows "linked (set_next p (lr_LRN r) rs @ [r])"
proof -
  have nonneg: "0 \<le> lr_LRN x" "lr_LRN x < lr_LRN r" if "x \<in> set rs" for x
    using wf_log_LRN_bounds [OF assms(2) that] assms(6) by auto
  have uniq: "x = r0" if "x \<in> set rs" "lr_LRN x = p" for x
    using wf_log_LRN_inj [OF assms(2) that(1) assms(3)] that(2) assms(4) by simp
  let ?f = "\<lambda>x. if lr_LRN x = p then x\<lparr>lr_next_LRN := lr_LRN r\<rparr> else x"
  have S: "set (set_next p (lr_LRN r) rs @ [r]) = insert r (?f ` set rs)"
    by (auto simp: set_next_def)
  have bwd: "\<exists>q \<in> insert r (?f ` set rs). lr_LRN q = lr_prev_LRN x \<and> lr_txn_id q = lr_txn_id x \<and> lr_next_LRN q = lr_LRN x"
    if x: "x \<in> set rs" "lr_prev_LRN x \<noteq> - 1" for x
  proof -
    obtain q where q: "q \<in> set rs" "lr_LRN q = lr_prev_LRN x" "lr_txn_id q = lr_txn_id x" "lr_next_LRN q = lr_LRN x"
      using assms(1) x by (auto simp: linked_def)
    then have "lr_LRN q \<noteq> p" using uniq [of q] nonneg [OF x(1)] assms(5) by auto
    with q show ?thesis by (intro bexI [of _ q]) auto
  qed
  have fwd: "\<exists>y \<in> insert r (?f ` set rs). lr_LRN y = lr_next_LRN x \<and> lr_txn_id y = lr_txn_id x \<and> lr_prev_LRN y = lr_LRN x"
    if x: "x \<in> set rs" "lr_next_LRN x \<noteq> - 1" for x
  proof -
    obtain y where "y \<in> set rs" "lr_LRN y = lr_next_LRN x" "lr_txn_id y = lr_txn_id x" "lr_prev_LRN y = lr_LRN x"
      using assms(1) x by (auto simp: linked_def)
    then show ?thesis by (intro bexI [of _ "?f y"]) auto
  qed
  have newback: "\<exists>q \<in> insert r (?f ` set rs). lr_LRN q = p \<and> lr_txn_id q = lr_txn_id r \<and> lr_next_LRN q = lr_LRN r"
    using assms(3,4,9) by (intro bexI [of _ "?f r0"]) auto
  show ?thesis
    unfolding linked_def S
  proof (intro conjI ballI impI)
    fix y
    assume "y \<in> insert r (?f ` set rs)" and np: "lr_prev_LRN y \<noteq> - 1"
    then consider "y = r" | x where "x \<in> set rs" "y = ?f x" by auto
    then show "\<exists>q \<in> insert r (?f ` set rs). lr_LRN q = lr_prev_LRN y \<and> lr_txn_id q = lr_txn_id y \<and> lr_next_LRN q = lr_LRN y"
    proof cases
      case 1
      then show ?thesis using newback assms(7) by simp
    next
      case 2
      then show ?thesis using bwd [of x] np by (auto split: if_splits)
    qed
  next
    fix y
    assume "y \<in> insert r (?f ` set rs)" and nn: "lr_next_LRN y \<noteq> - 1"
    then consider x where "x \<in> set rs" "y = ?f x" using assms(8) by auto
    then show "\<exists>z \<in> insert r (?f ` set rs). lr_LRN z = lr_next_LRN y \<and> lr_txn_id z = lr_txn_id y \<and> lr_prev_LRN z = lr_LRN y"
    proof cases
      case 1
      show ?thesis
      proof (cases "lr_LRN x = p")
        case True
        then have "x = r0" using uniq 1 by simp
        then show ?thesis using 1 True assms(7,9) by (intro bexI [of _ r]) auto
      next
        case False
        then show ?thesis using fwd [of x] 1 nn by auto
      qed
    qed
  qed
qed

lemma chain_end_extend:
  assumes "chain_end rs n" and "lr_LRN r0 = p" and "lr_txn_id r0 \<noteq> tn_txn_id n"
    and "wf_log 0 rs" and "r0 \<in> set rs"
  shows "chain_end (set_next p l rs @ [r]) n"
proof -
  obtain q where q: "q \<in> set rs" "lr_LRN q = tn_last_LRN n" "lr_txn_id q = tn_txn_id n" "lr_next_LRN q = - 1"
    using assms(1) by (auto simp: chain_end_def)
  have "lr_LRN q \<noteq> p"
    using wf_log_LRN_inj [OF assms(4) q(1) assms(5)] q(3) assms(2,3) by auto
  then have "q \<in> set (set_next p l rs @ [r])" using q(1) by (force simp: in_set_next)
  with q show ?thesis by (auto simp: chain_end_def)
qed

lemma log_inv_linked:
  assumes inv: "log_inv s rs" and n: "find_txn t (head_txn_list s) = Some n"
    and r: "rec_ok r" "lr_LRN r = log_size s" "lr_txn_id r = t" "lr_prev_LRN r = tn_last_LRN n" "lr_next_LRN r = - 1"
    and s': "log_linked t r s = Some s'"
  shows "log_inv s' (set_next (tn_last_LRN n) (lr_LRN r) rs @ [r])"
proof -
  have nt: "n \<in> set (head_txn_list s)" "tn_txn_id n = t" using n by (auto dest: find_txn_SomeD)
  then obtain r0 where r0: "r0 \<in> set rs" "lr_LRN r0 = tn_last_LRN n" "lr_txn_id r0 = t" "lr_next_LRN r0 = - 1"
    using inv by (auto simp: log_inv_def chain_end_def)
  obtain ts where ts: "upd_txn t (\<lambda>n. n\<lparr>tn_last_LRN := lr_LRN r\<rparr>) (head_txn_list s) = Some ts"
    and s'_eq: "s' = s\<lparr>head_txn_list := ts,
             event_log := append_record r (patch_next (lr_prev_LRN r) (lr_LRN r) (event_log s)),
             fs_calls := fs_calls s @ [Flush_log]\<rparr>"
    using s' by (auto simp: log_linked_def Option.bind_eq_Some_conv)
  have I: "content (event_log s) = encode_log rs" "wf_log 0 rs" "linked rs" "txns_ok (head_txn_list s)"
    "\<And>m. m \<in> set (head_txn_list s) \<Longrightarrow> chain_end rs m"
    using inv by (auto simp: log_inv_def)
  let ?rs = "set_next (tn_last_LRN n) (lr_LRN r) rs @ [r]"
  have "content (event_log s') = encode_log ?rs"
    using patch_next_log [OF I(1,2) r0(1,2)] r(4) by (simp add: s'_eq append_record_content)
  moreover have "in_s64 (lr_LRN r)" using r(1) by (simp add: rec_ok_def)
  then have "wf_log 0 ?rs"
    using I(2) r(1,2) log_size_eq [OF inv] by (intro wf_log_snoc wf_log_set_next) auto
  moreover have "linked ?rs"
    using I(2,3) r0 r log_size_eq [OF inv] by (intro linked_extend) auto
  moreover have "txns_ok (head_txn_list s')"
    using txns_ok_upd [OF I(4) _ ts] by (simp add: s'_eq)
  moreover have "chain_end ?rs m" if m: "m \<in> set (head_txn_list s')" for m
  proof -
    have "find_txn (tn_txn_id m) ts = Some m"
      using txns_ok_find \<open>txns_ok (head_txn_list s')\<close> m by (auto simp: s'_eq)
    then have f: "(if tn_txn_id m = t then map_option (\<lambda>n. n\<lparr>tn_last_LRN := lr_LRN r\<rparr>) (find_txn (tn_txn_id m) (head_txn_list s))
               else find_txn (tn_txn_id m) (head_txn_list s)) = Some m"
      using find_upd_txn [OF _ ts, of "tn_txn_id m"] by simp
    show ?thesis
    proof (cases "tn_txn_id m = t")
      case True
      with f n have "tn_last_LRN m = lr_LRN r" by auto
      then show ?thesis using True r(3,5) by (auto simp: chain_end_def)
    next
      case False
      with f have "m \<in> set (head_txn_list s)" by (auto dest: find_txn_SomeD)
      then show ?thesis using False I r0 by (intro chain_end_extend) auto
    qed
  qed
  ultimately show ?thesis by (simp add: log_inv_def)
qed

section \<open>Start and end of a transaction\<close>

lemma NA_ok [simp]: "length NA = 3" "in_s64 3" "in_s64 (- 1)" "in_s32 (- 1)"
  "in_s32 1" "in_s32 8"
  by (simp_all add: NA_def in_s64_def in_s32_def)

lemma linked_snoc_fresh:
  assumes "linked rs" and "lr_prev_LRN r = - 1" and "lr_next_LRN r = - 1"
  shows "linked (rs @ [r])"
  using assms by (fastforce simp: linked_def)

definition beg_record :: "server \<Rightarrow> int \<Rightarrow> log_record" where
  "beg_record s t = \<lparr>lr_LRN = log_size s, lr_txn_id = t, lr_prev_LRN = - 1, lr_next_LRN = - 1,
     lr_record_type = log_type_code TXN_BEG, lr_fd = - 1, lr_offset = - 1, lr_data = NA, lr_data1 = NA\<rparr>"

lemma log_txn_beg_shape:
  assumes "\<not> log_mutex s" and "log_dev_ok s"
  shows "log_txn_beg t s = Some (log_size s,
     s\<lparr>event_log := append_record (beg_record s t) (event_log s), fs_calls := fs_calls s @ [Flush_log]\<rparr>)"
  using assms by (simp add: log_txn_beg_def beg_record_def log_size_def log_op_defs)

lemma chain_end_snoc: "chain_end rs n \<Longrightarrow> chain_end (rs @ [r]) n"
  by (auto simp: chain_end_def)

lemma log_inv_begin:
  assumes inv: "log_inv s rs" and fresh: "find_txn t (head_txn_list s) = None"
    and t: "in_s32 t" and small: "log_size s < 2147483648"
    and lb: "log_txn_beg t s = Some (l, s1)" and free: "\<not> log_mutex s" "log_dev_ok s"
  shows "log_inv (new_txn_insert t l s1) (rs @ [beg_record s t])"
proof -
  have l: "l = log_size s" and s1: "s1 = s\<lparr>event_log := append_record (beg_record s t) (event_log s), fs_calls := fs_calls s @ [Flush_log]\<rparr>"
    using lb log_txn_beg_shape [OF free, of t] by auto
  have sz: "in_s32 (log_size s)" using small by (simp add: in_s32_def log_size_def)
  have ok: "rec_ok (beg_record s t)"
    using t sz by (simp add: rec_ok_def beg_record_def in_s64_if_s32)
  have I: "content (event_log s) = encode_log rs" "wf_log 0 rs" "linked rs" "txns_ok (head_txn_list s)"
    "\<And>m. m \<in> set (head_txn_list s) \<Longrightarrow> chain_end rs m"
    using inv by (auto simp: log_inv_def)
  have "linked (rs @ [beg_record s t])"
    using I(3) by (rule linked_snoc_fresh) (simp_all add: beg_record_def)
  moreover have "wf_log 0 (rs @ [beg_record s t])"
    using I(2) ok log_size_eq [OF inv] by (intro wf_log_snoc) (simp_all add: beg_record_def)
  moreover have "txns_ok (insert_txn (get_txn_node t (s32 l)) (head_txn_list s))"
    using I(4) fresh by (intro txns_ok_insert) (simp_all add: get_txn_node_def)
  moreover have "chain_end (rs @ [beg_record s t]) (get_txn_node t (s32 l))"
    using sz l by (simp add: chain_end_def get_txn_node_def beg_record_def)
  ultimately show ?thesis
    using I(1,5) by (auto simp: log_inv_def new_txn_insert_def s1 append_record_content chain_end_snoc)
qed

lemma log_inv_drop_txn:
  assumes "log_inv s rs" and "txn_delete t s = Some s'"
  shows "log_inv s' rs"
proof -
  obtain ts where ts: "delete_txn t (head_txn_list s) = Some ts" and s': "s' = s\<lparr>head_txn_list := ts\<rparr>"
    using assms(2) by (auto simp: txn_delete_def Option.bind_eq_Some_conv)
  show ?thesis
    using assms(1) txns_ok_delete [OF _ ts] delete_txn_subset [OF ts] by (auto simp: log_inv_def s')
qed

definition end_record :: "server \<Rightarrow> int \<Rightarrow> int \<Rightarrow> log_record" where
  "end_record s t prev = \<lparr>lr_LRN = log_size s, lr_txn_id = t, lr_prev_LRN = prev, lr_next_LRN = - 1,
     lr_record_type = log_type_code TXN_END, lr_fd = - 1, lr_offset = - 1, lr_data = NA, lr_data1 = NA\<rparr>"

lemma log_txn_end_shape:
  assumes "\<not> log_mutex s" and "log_dev_ok s"
  shows "log_txn_end t prev s = Some (log_size s,
     s\<lparr>event_log := append_record (end_record s t prev) (patch_next prev (log_size s) (event_log s)),
       fs_calls := fs_calls s @ [Flush_log]\<rparr>)"
  using assms by (simp add: log_txn_end_def end_record_def log_size_def log_op_defs)

lemma log_inv_end:
  assumes inv: "log_inv s rs" and n: "find_txn t (head_txn_list s) = Some n" and t: "in_s32 t"
    and small: "log_size s < 9223372036854775808"
    and del: "txn_delete t s = Some s1" and le: "log_txn_end t (tn_last_LRN n) s1 = Some (l, s2)"
    and free: "\<not> log_mutex s" "log_dev_ok s"
  shows "log_inv s2 (set_next (tn_last_LRN n) (log_size s) rs @ [end_record s t (tn_last_LRN n)])"
proof -
  obtain ts where ts: "delete_txn t (head_txn_list s) = Some ts" and s1: "s1 = s\<lparr>head_txn_list := ts\<rparr>"
    using del by (auto simp: txn_delete_def Option.bind_eq_Some_conv)
  have nt: "n \<in> set (head_txn_list s)" "tn_txn_id n = t" using n by (auto dest: find_txn_SomeD)
  then obtain r0 where r0: "r0 \<in> set rs" "lr_LRN r0 = tn_last_LRN n" "lr_txn_id r0 = t" "lr_next_LRN r0 = - 1"
    using inv by (auto simp: log_inv_def chain_end_def)
  have I: "content (event_log s) = encode_log rs" "wf_log 0 rs" "linked rs" "txns_ok (head_txn_list s)"
    "\<And>m. m \<in> set (head_txn_list s) \<Longrightarrow> chain_end rs m"
    using inv by (auto simp: log_inv_def)
  let ?r = "end_record s t (tn_last_LRN n)"
  let ?rs = "set_next (tn_last_LRN n) (log_size s) rs @ [?r]"
  have s2: "s2 = s\<lparr>head_txn_list := ts,
      event_log := append_record ?r (patch_next (tn_last_LRN n) (log_size s) (event_log s)),
      fs_calls := fs_calls s @ [Flush_log]\<rparr>"
    using le log_txn_end_shape [of s1 t "tn_last_LRN n"] free by (simp add: s1 log_size_def end_record_def)
  have sz: "in_s64 (log_size s)" using small by (simp add: in_s64_def log_size_def)
  have prevok: "in_s64 (tn_last_LRN n)"
    using wf_log_LRN_bounds [OF I(2) r0(1)] r0(2) small log_size_eq [OF inv] by (simp add: in_s64_def)
  have ok: "rec_ok ?r" using t sz prevok by (simp add: rec_ok_def end_record_def)
  have "content (event_log s2) = encode_log ?rs"
    using patch_next_log [OF I(1,2) r0(1,2)] by (simp add: s2 append_record_content)
  moreover have "wf_log 0 ?rs"
    using I(2) ok sz log_size_eq [OF inv] by (intro wf_log_snoc wf_log_set_next) (auto simp: end_record_def)
  moreover have "linked ?rs"
    using I(2,3) r0 log_size_eq [OF inv] linked_extend [of rs r0 "tn_last_LRN n" ?r]
    by (simp add: end_record_def)
  moreover have "txns_ok ts" using txns_ok_delete [OF I(4) ts] .
  moreover have "chain_end ?rs m" if m: "m \<in> set ts" for m
  proof -
    have "tn_txn_id m \<noteq> t"
      using find_delete_same [OF I(4) ts] m by (auto simp: find_txn_None_iff)
    moreover have "m \<in> set (head_txn_list s)" using delete_txn_subset [OF ts m] .
    ultimately show ?thesis using I r0 by (intro chain_end_extend) auto
  qed
  ultimately show ?thesis by (simp add: log_inv_def s2)
qed

section \<open>Properties of the log\<close>

lemma log_linked_total:
  assumes "find_txn t (head_txn_list s) = Some n"
  shows "\<exists>s'. log_linked t r s = Some s'"
  using assms upd_txn_None_iff [of t "\<lambda>n. n\<lparr>tn_last_LRN := lr_LRN r\<rparr>" "head_txn_list s"]
  by (auto simp: log_linked_def)

lemma mk_record_ok:
  assumes "log_inv s rs" and "n \<in> set (head_txn_list s)" and "in_s32 (tn_txn_id n)" and "in_s32 fd" and "in_s64 off"
    and "log_size s < 9223372036854775808"
    and "int (length d) < 9223372036854775808" and "int (length d1) < 9223372036854775808"
  shows "rec_ok (mk_record s n ty fd off d d1)"
proof -
  obtain r0 where "r0 \<in> set rs" "lr_LRN r0 = tn_last_LRN n" and "wf_log 0 rs"
    using assms(1,2) by (auto simp: log_inv_def chain_end_def)
  then have "in_s64 (tn_last_LRN n)"
    using wf_log_LRN_bounds [of 0 rs r0] log_size_eq [OF assms(1)] assms(6) by (auto simp: in_s64_def)
  then show ?thesis
    using assms(3-) by (auto simp: rec_ok_def mk_record_def in_s64_def log_size_def)
qed

lemma log_op_chained:
  assumes inv: "log_inv s rs" and n: "find_txn t (head_txn_list s) = Some n" and t: "in_s32 t"
    and ok: "in_s32 fd" "in_s64 off" "log_size s < 9223372036854775808"
      "int (length d) < 9223372036854775808" "int (length d1) < 9223372036854775808"
  shows "\<exists>s'. log_linked t (mk_record s n ty fd off d d1) s = Some s' \<and>
     log_inv s' (set_next (tn_last_LRN n) (log_size s) rs @ [mk_record s n ty fd off d d1])"
proof -
  let ?r = "mk_record s n ty fd off d d1"
  have nt: "n \<in> set (head_txn_list s)" "tn_txn_id n = t" using n by (auto dest: find_txn_SomeD)
  have "rec_ok ?r" using mk_record_ok [OF inv nt(1)] nt(2) t ok by simp
  moreover have R: "lr_LRN ?r = log_size s" "lr_txn_id ?r = t" "lr_prev_LRN ?r = tn_last_LRN n" "lr_next_LRN ?r = - 1"
    using nt(2) by (simp_all add: mk_record_def)
  moreover obtain s' where s': "log_linked t ?r s = Some s'" using log_linked_total [OF n] by blast
  ultimately show ?thesis using log_inv_linked [OF inv n, of ?r s'] by auto
qed

text \<open>C11: A write of a live transaction is logged.  Where the mutex is free, the device works and
  the record fits, \<open>log_write\<close> returns the old size of the log as the record's number, reading the
  log back gives the old records, the transaction's previous one now pointing forward to the new
  one, followed by an UPDATE record with the first \<open>k\<close> bytes of the NUL-terminated buffer, and
  the chaining of records and live transactions still holds.\<close>

theorem log_write_appends:
  assumes "log_inv s rs" and "find_txn t (head_txn_list s) = Some n" and "in_s32 t"
    and "\<not> log_mutex s" and "log_dev_ok s" and "k \<le> length d + 1" and "in_s32 fd" and "in_s64 off"
    and "log_size s < 9223372036854775808" and "int k < 9223372036854775808"
  shows "\<exists>s' rs'. log_write t fd off k d s = Some (log_size s, s') \<and>
     rs' = set_next (tn_last_LRN n) (log_size s) rs @
           [mk_record s n UPDATE fd off (take k (d @ [CHR 0x00])) NA] \<and>
     parse_log (content (event_log s')) = Some rs' \<and> log_inv s' rs'"
proof -
  let ?d = "take k (d @ [CHR 0x00])"
  have "int (length ?d) < 9223372036854775808" using assms(10) by simp
  moreover have "int (length NA) < 9223372036854775808" by simp
  ultimately obtain s' where s': "log_linked t (mk_record s n UPDATE fd off ?d NA) s = Some s'"
      "log_inv s' (set_next (tn_last_LRN n) (log_size s) rs @ [mk_record s n UPDATE fd off ?d NA])"
    using log_op_chained [OF assms(1,2,3,7,8,9)] by blast
  have "log_write t fd off k d s = Some (log_size s, s')"
    using log_op_shapes(3) [OF assms(4,5,2,6), of fd off] s'(1) by (simp add: nul_terminated_def)
  with s'(2) show ?thesis using log_inv_parse [OF s'(2)] by blast
qed

text \<open>A server with one transaction, just begun.\<close>

definition begun_server :: server where
  "begun_server = new_txn_insert 1 0 ((global_init [])\<lparr>event_log :=
     append_record (beg_record (global_init []) 1) (event_log (global_init []))\<rparr>)"

lemma begun_inv:
  "log_inv begun_server [beg_record (global_init []) 1]"
  "find_txn 1 (head_txn_list begun_server) = Some (get_txn_node 1 0)"
  "\<not> log_mutex begun_server" "log_dev_ok begun_server" "log_size begun_server = 66"
proof -
  have "log_inv (global_init []) []"
    by (simp add: log_inv_def global_init_def linked_def txns_ok_def)
  moreover have "log_txn_beg 1 (global_init []) = Some (0, (global_init [])\<lparr>event_log :=
     append_record (beg_record (global_init []) 1) (event_log (global_init [])), fs_calls := [Flush_log]\<rparr>)"
    using log_txn_beg_shape [of "global_init []" 1] by (simp add: global_init_def log_size_def)
  ultimately have "log_inv (new_txn_insert 1 0 ((global_init [])\<lparr>event_log :=
     append_record (beg_record (global_init []) 1) (event_log (global_init [])), fs_calls := [Flush_log]\<rparr>))
      ([] @ [beg_record (global_init []) 1])"
    by (rule_tac log_inv_begin) (simp_all add: global_init_def in_s32_def log_size_def)
  then show "log_inv begun_server [beg_record (global_init []) 1]"
    by (simp add: log_inv_def begun_server_def new_txn_insert_def)
  show "find_txn 1 (head_txn_list begun_server) = Some (get_txn_node 1 0)"
    "\<not> log_mutex begun_server" "log_dev_ok begun_server" "log_size begun_server = 66"
    by (simp_all add: begun_server_def new_txn_insert_def global_init_def get_txn_node_def
        log_size_def s32_def append_record_content length_encode_record beg_record_def)
qed

theorem log_write_appends_witness:
  "\<exists>s' rs'. log_write 1 5 100 2 ''abc'' begun_server = Some (66, s') \<and>
     rs' = set_next 0 66 [beg_record (global_init []) 1] @
           [mk_record begun_server (get_txn_node 1 0) UPDATE 5 100 ''ab'' NA] \<and>
     parse_log (content (event_log s')) = Some rs' \<and> log_inv s' rs'"
  using log_write_appends [OF begun_inv(1,2) _ begun_inv(3,4), of 2 "''abc''" 5 100]
  by (simp add: begun_inv(5) in_s32_def in_s64_def get_txn_node_def)

text \<open>C12: A device that stops accepting writes blocks the log for good.  Every logging operation but the
  beginning of a transaction first links the previous record to the new one; where that write fails it
  returns -1 with the mutex still held and nothing else changed.  (\<open>log_txn_beg\<close> has no record to link,
  does not test its writes and lets go of the mutex.)  From then on no logging operation of any
  transaction returns.\<close>

theorem log_error_leaves_mutex:
  assumes "find_txn t (head_txn_list s) = Some n" and "\<not> log_mutex s" and "\<not> log_dev_ok s"
  shows "log_txn_commit t s = Some (- 1, s\<lparr>log_mutex := True\<rparr>) \<and> log_txn_abort t s = Some (- 1, s\<lparr>log_mutex := True\<rparr>) \<and>
     log_txn_end t lrn s = Some (- 1, s\<lparr>log_mutex := True\<rparr>) \<and> log_write t fd off k d s = Some (- 1, s\<lparr>log_mutex := True\<rparr>) \<and>
     log_rename t a b s = Some (- 1, s\<lparr>log_mutex := True\<rparr>) \<and> log_creat t a b s = Some (- 1, s\<lparr>log_mutex := True\<rparr>) \<and>
     log_unlink t a s = Some (- 1, s\<lparr>log_mutex := True\<rparr>) \<and>
     map_option (\<lambda>(_, s'). log_mutex s') (log_txn_beg u s) = Some False \<and>
     (\<forall>s'. log_mutex s' \<longrightarrow>
        log_txn_beg u s' = None \<and> log_txn_commit u s' = None \<and> log_txn_abort u s' = None \<and>
        log_txn_end u lrn s' = None \<and> log_write u fd off k d s' = None \<and> log_rename u a b s' = None \<and>
        log_creat u a b s' = None \<and> log_unlink u a s' = None)"
  using assms
  by (auto simp: log_unlink_def log_txn_beg_def log_txn_commit_def log_txn_abort_def log_txn_end_def
      log_write_def log_rename_def log_creat_def log_op_defs Let_def split: Option.bind_split)

theorem log_error_leaves_mutex_witness:
  "log_unlink 1 ''f'' (begun_server\<lparr>log_dev_ok := False\<rparr>) = Some (- 1, begun_server\<lparr>log_dev_ok := False, log_mutex := True\<rparr>) \<and>
   log_txn_beg 2 (begun_server\<lparr>log_dev_ok := False, log_mutex := True\<rparr>) = None"
proof -
  have b: "find_txn 1 (head_txn_list (begun_server\<lparr>log_dev_ok := False\<rparr>)) = Some (get_txn_node 1 0)"
      "\<not> log_mutex (begun_server\<lparr>log_dev_ok := False\<rparr>)" "\<not> log_dev_ok (begun_server\<lparr>log_dev_ok := False\<rparr>)"
    by (simp_all add: begun_inv)
  show ?thesis using log_error_leaves_mutex [OF b, of 0 0 0 0 "[]" "''f''" "[]" 2] by simp
qed

end
