(* ===== verification/DelayedOps.thy ===== *)
theory DelayedOps
  imports LogChains
begin

text \<open>
  What a commit does in place (the delayed part of Log_manager.c): each lock record that was
  taken for writing carries a list of write records, each the record number of a log record;
  the commit reads the log record back and performs the write, rename, creation or removal it
  describes.  The code reads through the shared \<open>event_log\<close> stream, whose position it moves.
  Calls that go to the file system are added to \<open>fs_calls\<close>.
\<close>

section \<open>Operations\<close>

text \<open>The string that starts a buffer.\<close>

definition c_string :: "char list \<Rightarrow> cstring" where
  "c_string bs = takeWhile (\<lambda>c. c \<noteq> CHR 0x00) bs"

definition fread_block :: "cfile \<Rightarrow> (char list \<times> cfile) option" where
  "fread_block f = do {
     (b_len, f) \<leftarrow> fread_obj 8 f;
     n \<leftarrow> get_length b_len;
     fread_obj n f }"

text \<open>\<open>fd\<close>, \<open>offset\<close> and the data of the record at \<open>LRN\<close>.\<close>

definition read_update :: "int \<Rightarrow> cfile \<Rightarrow> (int \<times> int \<times> char list \<times> cfile) option" where
  "read_update LRN f = do {
     let f = fseek_cur (8 + 4 + 8 + 8 + 4) (fseek_set LRN f);
     (b_fd, f) \<leftarrow> fread_obj 4 f;
     (b_off, f) \<leftarrow> fread_obj 8 f;
     (data, f) \<leftarrow> fread_block f;
     Some (get_s32 b_fd, get_s64 b_off, data, f) }"

text \<open>The first data field of the record at \<open>LRN\<close>.\<close>

definition read_path :: "int \<Rightarrow> cfile \<Rightarrow> (char list \<times> cfile) option" where
  "read_path LRN f = fread_block (fseek_cur (8 + 4 + 8 + 8 + 4 + 4 + 8) (fseek_set LRN f))"

text \<open>\<open>lseek\<close> and \<open>write\<close> are both called, whatever they return: a failure is only printed.\<close>

fun delayed_write_loop :: "nat \<Rightarrow> addr option \<Rightarrow> server \<Rightarrow> server option" where
  "delayed_write_loop 0 p s = None"
| "delayed_write_loop (Suc k) p s =
     (case p of None \<Rightarrow> Some s
      | Some a \<Rightarrow> do {
          w \<leftarrow> wr_heap (lk s) a;
          (fd, offset, data, f) \<leftarrow> read_update (wr_LRN w) (event_log s);
          let s = emit (Fs_lseek fd offset) (s\<lparr>event_log := f\<rparr>);
          let s = emit (Fs_write fd data) s;
          m \<leftarrow> wr_free a (lk s);
          delayed_write_loop k (wr_next w) (s\<lparr>lk := m\<rparr>) })"

definition delayed_write :: "addr \<Rightarrow> server \<Rightarrow> server option" where
  "delayed_write file_to_write s = do {
     n \<leftarrow> fl_heap (lk s) file_to_write;
     delayed_write_loop (Suc (brk (lk s))) (fl_writes_at n) s }"

text \<open>The search for the other directory of a rename: the first lock of the transaction, from
  \<open>p\<close> on, that has a write record with the same record number.  The result is \<open>Some None\<close>
  when the list ends.\<close>

fun find_record :: "(addr \<Rightarrow> write_records option) \<Rightarrow> int \<Rightarrow> nat \<Rightarrow> addr option \<Rightarrow> addr option option" where
  "find_record h LRN 0 p = None"
| "find_record h LRN (Suc k) p =
     (case p of None \<Rightarrow> Some None
      | Some a \<Rightarrow> do { w \<leftarrow> h a; if wr_LRN w = LRN then Some (Some a) else find_record h LRN k (wr_next w) })"

fun find_partner :: "lockmem \<Rightarrow> int \<Rightarrow> nat \<Rightarrow> addr option \<Rightarrow> (addr \<times> addr) option option" where
  "find_partner m LRN 0 p = None"
| "find_partner m LRN (Suc k) p =
     (case p of None \<Rightarrow> Some None
      | Some a \<Rightarrow> do {
          n \<leftarrow> fl_heap m a;
          r \<leftarrow> find_record (wr_heap m) LRN (Suc (brk m)) (fl_writes_at n);
          case r of Some b \<Rightarrow> Some (Some (a, b)) | None \<Rightarrow> find_partner m LRN k (fl_next_txn n) })"

text \<open>The partner's record is unlinked from its list.\<close>

definition unlink_record :: "addr \<Rightarrow> addr \<Rightarrow> lockmem \<Rightarrow> lockmem option" where
  "unlink_record a b m = do {
     n \<leftarrow> fl_heap m a;
     w \<leftarrow> wr_heap m b;
     if fl_writes_at n = Some b then do {
       m \<leftarrow> fl_set (Some a) (\<lambda>n. n\<lparr>fl_writes_at := wr_next w\<rparr>) m;
       if wr_next w \<noteq> None then wr_set (wr_next w) (\<lambda>x. x\<lparr>wr_prev := None\<rparr>) m else Some m }
     else do {
       m \<leftarrow> wr_set (wr_prev w) (\<lambda>x. x\<lparr>wr_next := wr_next w\<rparr>) m;
       if wr_next w \<noteq> None then wr_set (wr_next w) (\<lambda>x. x\<lparr>wr_prev := wr_prev w\<rparr>) m else Some m } }"

definition delayed_rename :: "addr \<Rightarrow> server \<Rightarrow> server option" where
  "delayed_rename file_rename1 s = do {
     n1 \<leftarrow> fl_heap (lk s) file_rename1;
     p1 \<leftarrow> fl_writes_at n1;
     r1 \<leftarrow> wr_heap (lk s) p1;
     partner \<leftarrow> (if wr_write_length r1 \<noteq> - 3
                 then find_partner (lk s) (wr_LRN r1) (Suc (brk (lk s))) (fl_next_txn n1)
                 else Some None);
     (oldpath, f) \<leftarrow> read_path (wr_LRN r1) (event_log s);
     (newpath, f) \<leftarrow> fread_block f;
     let s = emit (Fs_rename (c_string oldpath) (c_string newpath)) (s\<lparr>event_log := f\<rparr>);
     m \<leftarrow> (if wr_write_length r1 \<noteq> - 3
           then do { (a2, p2) \<leftarrow> partner; m \<leftarrow> unlink_record a2 p2 (lk s); wr_free p2 m }
           else Some (lk s));
     m \<leftarrow> wr_free p1 m;
     Some (s\<lparr>lk := m\<rparr>) }"

text \<open>The mode is compared as a string; only \<open>"256"\<close> (\<open>S_IRUSR\<close>) has an effect.\<close>

definition delayed_creat :: "addr \<Rightarrow> server \<Rightarrow> server option" where
  "delayed_creat file_creat s = do {
     n \<leftarrow> fl_heap (lk s) file_creat;
     p \<leftarrow> fl_writes_at n;
     r \<leftarrow> wr_heap (lk s) p;
     (newpath, f) \<leftarrow> read_path (wr_LRN r) (event_log s);
     (mode, f) \<leftarrow> fread_block f;
     let s = s\<lparr>event_log := f\<rparr>;
     Some (if c_string mode = ''256'' then emit (Fs_sync (c_string newpath)) s else s) }"

definition delayed_unlink :: "addr \<Rightarrow> server \<Rightarrow> server option" where
  "delayed_unlink file_creat s = do {
     n \<leftarrow> fl_heap (lk s) file_creat;
     p \<leftarrow> fl_writes_at n;
     r \<leftarrow> wr_heap (lk s) p;
     (newpath, f) \<leftarrow> read_path (wr_LRN r) (event_log s);
     Some (emit (Fs_unlink (c_string newpath)) (s\<lparr>event_log := f\<rparr>)) }"

text \<open>\<open>file_update->writes_at->write_length\<close>, read anew at each test.\<close>

definition head_kind :: "addr \<Rightarrow> server \<Rightarrow> int option" where
  "head_kind a s = do {
     n \<leftarrow> fl_heap (lk s) a; p \<leftarrow> fl_writes_at n; r \<leftarrow> wr_heap (lk s) p; Some (wr_write_length r) }"

fun delayed_update_loop :: "nat \<Rightarrow> addr \<Rightarrow> server \<Rightarrow> server option" where
  "delayed_update_loop 0 a s = None"
| "delayed_update_loop (Suc k) a s = do {
     n \<leftarrow> fl_heap (lk s) a;
     if fl_writes_at n = None then Some s
     else do {
       kd \<leftarrow> head_kind a s;
       s \<leftarrow> (if kd \<in> {- 1, - 2, - 3} then delayed_rename a s else Some s);
       kd \<leftarrow> head_kind a s;
       s \<leftarrow> (if kd = - 4 then delayed_creat a s else Some s);
       kd \<leftarrow> head_kind a s;
       s \<leftarrow> (if kd = - 5 then delayed_unlink a s else Some s);
       n \<leftarrow> fl_heap (lk s) a;
       p \<leftarrow> fl_writes_at n;
       r \<leftarrow> wr_heap (lk s) p;
       m \<leftarrow> fl_set (Some a) (\<lambda>n. n\<lparr>fl_writes_at := wr_next r\<rparr>) (lk s);
       delayed_update_loop k a (s\<lparr>lk := m\<rparr>) } }"

definition delayed_update :: "addr \<Rightarrow> server \<Rightarrow> server option" where
  "delayed_update a s = delayed_update_loop (Suc (brk (lk s))) a s"

section \<open>Reading a record back\<close>

lemma fread_block_inside:
  assumes "content f = u @ le_bytes 8 (int (length d)) @ d @ w" and "fpos f = length u" and "in_s64 (int (length d))"
  shows "fread_block f = Some (d, f\<lparr>fpos := length u + 8 + length d\<rparr>)"
proof -
  have 1: "fread_obj 8 f = Some (le_bytes 8 (int (length d)), f\<lparr>fpos := length u + 8\<rparr>)"
    using assms(1,2) by (intro fread_obj_inside [of f u _ "d @ w"]) auto
  have 2: "fread_obj (length d) (f\<lparr>fpos := length u + 8\<rparr>) = Some (d, f\<lparr>fpos := length u + 8 + length d\<rparr>)"
    using assms(1) fread_obj_inside [of "f\<lparr>fpos := length u + 8\<rparr>" "u @ le_bytes 8 (int (length d))" d w "length d"] by simp
  show ?thesis using 1 2 assms(3) by (simp add: fread_block_def)
qed

lemma record_in_log:
  assumes "content f = encode_log rs" and "wf_log 0 rs" and "r \<in> set rs"
  obtains u w where "content f = u @ encode_record r @ w" and "lr_LRN r = int (length u)" and "rec_ok r"
proof -
  obtain us vs where "rs = us @ r # vs" using assms(3) by (auto simp: in_set_conv_decomp)
  with assms(1,2) that [of "encode_log us" "encode_log vs"] show thesis by (simp add: wf_log_append)
qed

lemma read_update_record:
  assumes "content f = encode_log rs" and "wf_log 0 rs" and "r \<in> set rs"
  shows "\<exists>f'. read_update (lr_LRN r) f = Some (lr_fd r, lr_offset r, lr_data r, f') \<and> content f' = content f"
proof -
  obtain u w where c: "content f = u @ encode_record r @ w" and l: "lr_LRN r = int (length u)" and ok: "rec_ok r"
    using record_in_log [OF assms] .
  let ?h = "u @ le_bytes 8 (lr_LRN r) @ le_bytes 4 (lr_txn_id r) @ le_bytes 8 (lr_prev_LRN r) @
     le_bytes 8 (lr_next_LRN r) @ le_bytes 4 (lr_record_type r)"
  let ?t = "le_bytes 8 (int (length (lr_data1 r))) @ lr_data1 r @ w"
  let ?f = "f\<lparr>fpos := length u + 32\<rparr>"
  have s: "fseek_cur 32 (fseek_set (lr_LRN r) f) = ?f"
    by (simp add: l fseek_cur_def fseek_set_def)
  have c': "content f = ?h @ le_bytes 4 (lr_fd r) @ le_bytes 8 (lr_offset r) @
      le_bytes 8 (int (length (lr_data r))) @ lr_data r @ ?t"
    using c by (simp add: encode_record_def)
  have 1: "fread_obj 4 ?f = Some (le_bytes 4 (lr_fd r), f\<lparr>fpos := length u + 36\<rparr>)"
    using c' fread_obj_inside [of ?f ?h "le_bytes 4 (lr_fd r)" _ 4] by simp
  have 2: "fread_obj 8 (f\<lparr>fpos := length u + 36\<rparr>) = Some (le_bytes 8 (lr_offset r), f\<lparr>fpos := length u + 44\<rparr>)"
    using c' fread_obj_inside [of "f\<lparr>fpos := length u + 36\<rparr>" "?h @ le_bytes 4 (lr_fd r)" "le_bytes 8 (lr_offset r)" _ 8] by simp
  have 3: "fread_block (f\<lparr>fpos := length u + 44\<rparr>) = Some (lr_data r, f\<lparr>fpos := length u + 52 + length (lr_data r)\<rparr>)"
    using c' ok fread_block_inside [of "f\<lparr>fpos := length u + 44\<rparr>" "?h @ le_bytes 4 (lr_fd r) @ le_bytes 8 (lr_offset r)" "lr_data r" ?t]
    by (simp add: rec_ok_def)
  show ?thesis using s 1 2 3 ok by (simp add: read_update_def rec_ok_def)
qed

lemma read_path_record:
  assumes "content f = encode_log rs" and "wf_log 0 rs" and "r \<in> set rs"
  shows "\<exists>f1 f2. read_path (lr_LRN r) f = Some (lr_data r, f1) \<and> fread_block f1 = Some (lr_data1 r, f2) \<and>
     content f1 = content f \<and> content f2 = content f"
proof -
  obtain u w where c: "content f = u @ encode_record r @ w" and l: "lr_LRN r = int (length u)" and ok: "rec_ok r"
    using record_in_log [OF assms] .
  let ?h = "u @ le_bytes 8 (lr_LRN r) @ le_bytes 4 (lr_txn_id r) @ le_bytes 8 (lr_prev_LRN r) @
     le_bytes 8 (lr_next_LRN r) @ le_bytes 4 (lr_record_type r) @ le_bytes 4 (lr_fd r) @ le_bytes 8 (lr_offset r)"
  let ?d = "le_bytes 8 (int (length (lr_data r))) @ lr_data r"
  let ?t = "le_bytes 8 (int (length (lr_data1 r))) @ lr_data1 r @ w"
  let ?f = "f\<lparr>fpos := length u + 44\<rparr>" and ?f1 = "f\<lparr>fpos := length u + 52 + length (lr_data r)\<rparr>"
  have c': "content f = ?h @ ?d @ ?t" using c by (simp add: encode_record_def)
  have "fseek_cur 44 (fseek_set (lr_LRN r) f) = ?f" by (simp add: l fseek_cur_def fseek_set_def)
  then have "read_path (lr_LRN r) f = Some (lr_data r, ?f1)"
    using c' ok fread_block_inside [of ?f ?h "lr_data r" ?t] by (simp add: read_path_def rec_ok_def)
  moreover have "fread_block ?f1 = Some (lr_data1 r, f\<lparr>fpos := length u + 60 + length (lr_data r) + length (lr_data1 r)\<rparr>)"
    using c' ok fread_block_inside [of ?f1 "?h @ ?d" "lr_data1 r" w] by (simp add: rec_ok_def add.commute add.left_commute)
  ultimately show ?thesis by simp
qed

section \<open>What the commit performs\<close>

text \<open>The two calls that put a logged write in place.\<close>

definition write_calls :: "log_record \<Rightarrow> fs_call list" where
  "write_calls r = [Fs_lseek (lr_fd r) (lr_offset r), Fs_write (lr_fd r) (lr_data r)]"

text \<open>The log record a write record names.\<close>

definition names_record :: "server \<Rightarrow> log_record list \<Rightarrow> addr \<Rightarrow> log_record \<Rightarrow> bool" where
  "names_record s rs a r \<longleftrightarrow> r \<in> set rs \<and> map_option wr_LRN (wr_heap (lk s) a) = Some (lr_LRN r)"

definition same_but_log :: "server \<Rightarrow> server \<Rightarrow> bool" where
  "same_but_log s s' \<longleftrightarrow> content (event_log s') = content (event_log s) \<and>
     head_txn_list s' = head_txn_list s \<and> head_wait_list s' = head_wait_list s \<and>
     log_mutex s' = log_mutex s \<and> log_dev_ok s' = log_dev_ok s \<and> BACKUP s' = BACKUP s \<and> pz s' = pz s \<and>
     brk (lk s') = brk (lk s) \<and> head_lock_list (lk s') = head_lock_list (lk s)"

lemma same_but_log_refl [simp]: "same_but_log s s"
  by (simp add: same_but_log_def)

lemma same_but_log_trans: "same_but_log s1 s2 \<Longrightarrow> same_but_log s2 s3 \<Longrightarrow> same_but_log s1 s3"
  by (simp add: same_but_log_def)

fun free_all :: "addr list \<Rightarrow> (addr \<Rightarrow> 'w option) \<Rightarrow> (addr \<Rightarrow> 'w option)" where
  "free_all [] h = h"
| "free_all (a # as) h = free_all as (h(a := None))"

lemma free_all_apply: "free_all as h a = (if a \<in> set as then None else h a)"
  by (induction as arbitrary: h) auto

lemma delayed_write_loop_spec:
  assumes "wf_log 0 rs"
  shows "lpath (wr_heap (lk s)) wr_next p as None \<Longrightarrow> distinct as \<Longrightarrow> length as < k \<Longrightarrow>
   content (event_log s) = encode_log rs \<Longrightarrow> list_all2 (names_record s rs) as qs \<Longrightarrow>
   \<exists>s'. delayed_write_loop k p s = Some s' \<and>
     fs_calls s' = fs_calls s @ concat (map write_calls qs) \<and>
     wr_heap (lk s') = free_all as (wr_heap (lk s)) \<and> fl_heap (lk s') = fl_heap (lk s) \<and> same_but_log s s'"
proof (induction as arbitrary: s p k qs)
  case Nil
  then show ?case by (cases k) auto
next
  case (Cons a as)
  from Cons.prems(3) obtain k' where k: "k = Suc k'" "length as < k'" by (cases k) auto
  from Cons.prems(5) obtain r rest where q: "qs = r # rest" "names_record s rs a r" "list_all2 (names_record s rs) as rest"
    by (cases qs) auto
  from Cons.prems(1) q(2) obtain w where w: "p = Some a" "wr_heap (lk s) a = Some w" "wr_LRN w = lr_LRN r" "r \<in> set rs"
      "lpath (wr_heap (lk s)) wr_next (wr_next w) as None"
    by (auto simp: names_record_def)
  obtain f' where f': "read_update (lr_LRN r) (event_log s) = Some (lr_fd r, lr_offset r, lr_data r, f')"
      "content f' = content (event_log s)"
    using read_update_record [OF Cons.prems(4) assms w(4)] by blast
  let ?s = "s\<lparr>event_log := f', fs_calls := fs_calls s @ write_calls r,
      lk := (lk s)\<lparr>wr_heap := (wr_heap (lk s))(a := None)\<rparr>\<rparr>"
  have a: "a \<notin> set as" using Cons.prems(2) by simp
  have "list_all2 (names_record ?s rs) as rest"
    using q(3) by (rule list.rel_mono_strong) (use a in \<open>auto simp: names_record_def\<close>)
  then have "\<exists>s'. delayed_write_loop k' (wr_next w) ?s = Some s' \<and>
      fs_calls s' = fs_calls ?s @ concat (map write_calls rest) \<and>
      wr_heap (lk s') = free_all as (wr_heap (lk ?s)) \<and> fl_heap (lk s') = fl_heap (lk ?s) \<and> same_but_log ?s s'"
    using w(5) a k(2) Cons.prems(2,4) f'(2) by (intro Cons.IH) (simp_all add: lpath_upd_other)
  then obtain s' where s': "delayed_write_loop k' (wr_next w) ?s = Some s'"
      "fs_calls s' = fs_calls ?s @ concat (map write_calls rest)"
      "wr_heap (lk s') = free_all as (wr_heap (lk ?s))" "fl_heap (lk s') = fl_heap (lk ?s)" "same_but_log ?s s'"
    by blast
  have "delayed_write_loop k p s = delayed_write_loop k' (wr_next w) ?s"
    using k w f'(1) by (simp add: emit_def wr_free_def write_calls_def)
  moreover have "same_but_log s s'" using s'(5) f'(2) by (simp add: same_but_log_def)
  ultimately show ?case using s' q(1) by simp
qed

lemma delayed_rename_dangles: "delayed_rename a s = Some s' \<Longrightarrow> head_kind a s' = None"
proof -
  assume "delayed_rename a s = Some s'"
  then obtain n1 p1 r1 m m' where n1: "fl_heap (lk s) a = Some n1" "fl_writes_at n1 = Some p1" "wr_heap (lk s) p1 = Some r1"
    and m': "wr_free p1 m = Some m'" "lk s' = m'"
    and m: "m = lk s \<or> (\<exists>a2 p2 mu. unlink_record a2 p2 (lk s) = Some mu \<and> wr_free p2 mu = Some m)"
    unfolding delayed_rename_def
    by (auto simp: Option.bind_eq_Some_conv emit_def simp del: find_partner.simps split: if_splits) blast+
  have "\<exists>n. fl_heap m a = Some n \<and> fl_writes_at n = Some p1"
    using m
  proof
    assume "\<exists>a2 p2 mu. unlink_record a2 p2 (lk s) = Some mu \<and> wr_free p2 mu = Some m"
    then obtain a2 p2 mu where u: "unlink_record a2 p2 (lk s) = Some mu" "wr_free p2 mu = Some m" by blast
    have "p1 \<noteq> p2" using u(2) m'(1) by (auto simp: wr_free_def Option.bind_eq_Some_conv)
    then have "\<exists>n. fl_heap mu a = Some n \<and> fl_writes_at n = Some p1"
      using u(1) n1 by (auto simp: unlink_record_def fl_set_def wr_set_def Option.bind_eq_Some_conv split: if_splits)
    then show ?thesis using u(2) by (auto simp: wr_free_def Option.bind_eq_Some_conv)
  qed (use n1 in simp)
  moreover have "lk s' = m\<lparr>wr_heap := (wr_heap m)(p1 := None)\<rparr>"
    using m' by (simp add: wr_free_def Option.bind_eq_Some_conv)
  ultimately show ?thesis by (auto simp: head_kind_def)
qed

text \<open>What a record of the log stands for when its write record has the kind \<open>k\<close>.\<close>

definition performs :: "int \<Rightarrow> log_record \<Rightarrow> fs_call list" where
  "performs k r = (if k = - 4 then (if c_string (lr_data1 r) = ''256'' then [Fs_sync (c_string (lr_data r))] else [])
                   else [Fs_unlink (c_string (lr_data r))])"

definition kind_at :: "server \<Rightarrow> addr \<Rightarrow> int" where
  "kind_at s b = (case wr_heap (lk s) b of Some w \<Rightarrow> wr_write_length w | None \<Rightarrow> 0)"

lemma delayed_update_loop_spec:
  assumes "wf_log 0 rs"
  shows "fl_heap (lk s) a = Some n \<Longrightarrow> lpath (wr_heap (lk s)) wr_next (fl_writes_at n) as None \<Longrightarrow> length as < k \<Longrightarrow>
   content (event_log s) = encode_log rs \<Longrightarrow> list_all2 (names_record s rs) as qs \<Longrightarrow>
   (\<And>b. b \<in> set as \<Longrightarrow> kind_at s b \<in> {- 4, - 5}) \<Longrightarrow>
   \<exists>s'. delayed_update_loop k a s = Some s' \<and>
     fs_calls s' = fs_calls s @ concat (map2 (\<lambda>b r. performs (kind_at s b) r) as qs) \<and>
     wr_heap (lk s') = wr_heap (lk s) \<and> fl_heap (lk s') = (fl_heap (lk s))(a \<mapsto> n\<lparr>fl_writes_at := None\<rparr>) \<and>
     same_but_log s s'"
proof (induction as arbitrary: s n k qs)
  case Nil
  then have "fl_writes_at n = None" by simp
  with Nil have "fl_heap (lk s) = (fl_heap (lk s))(a \<mapsto> n\<lparr>fl_writes_at := None\<rparr>)" by (simp add: fun_upd_idem)
  with Nil \<open>fl_writes_at n = None\<close> show ?case by (cases k) auto
next
  case (Cons b as)
  from Cons.prems(3) obtain k' where k: "k = Suc k'" "length as < k'" by (cases k) auto
  from Cons.prems(5) obtain r rest where q: "qs = r # rest" "names_record s rs b r" "list_all2 (names_record s rs) as rest"
    by (cases qs) auto
  from Cons.prems(2) q(2) obtain w where w: "fl_writes_at n = Some b" "wr_heap (lk s) b = Some w" "wr_LRN w = lr_LRN r"
      "r \<in> set rs" "lpath (wr_heap (lk s)) wr_next (wr_next w) as None"
    by (auto simp: names_record_def)
  have kd: "wr_write_length w \<in> {- 4, - 5}" using Cons.prems(6) [of b] w(2) by (simp add: kind_at_def)
  obtain f1 f2 where f: "read_path (lr_LRN r) (event_log s) = Some (lr_data r, f1)" "fread_block f1 = Some (lr_data1 r, f2)"
      "content f1 = content (event_log s)" "content f2 = content (event_log s)"
    using read_path_record [OF Cons.prems(4) assms w(4)] by blast
  let ?m = "(lk s)\<lparr>fl_heap := (fl_heap (lk s))(a \<mapsto> n\<lparr>fl_writes_at := wr_next w\<rparr>)\<rparr>"
  let ?s = "s\<lparr>event_log := (if wr_write_length w = - 4 then f2 else f1),
      fs_calls := fs_calls s @ performs (wr_write_length w) r, lk := ?m\<rparr>"
  have step: "delayed_update_loop k a s = delayed_update_loop k' a ?s"
    using k w f(1,2) kd Cons.prems(1)
    by (auto simp: delayed_creat_def delayed_unlink_def head_kind_def emit_def performs_def fl_set_def)
  have sk: "kind_at ?s = kind_at s" by (simp add: kind_at_def fun_eq_iff)
  have sn: "names_record ?s rs = names_record s rs" by (simp add: names_record_def fun_eq_iff)
  let ?n = "n\<lparr>fl_writes_at := wr_next w\<rparr>"
  have "\<exists>s'. delayed_update_loop k' a ?s = Some s' \<and>
     fs_calls s' = fs_calls ?s @ concat (map2 (\<lambda>b r. performs (kind_at ?s b) r) as rest) \<and>
     wr_heap (lk s') = wr_heap (lk ?s) \<and> fl_heap (lk s') = (fl_heap (lk ?s))(a \<mapsto> ?n\<lparr>fl_writes_at := None\<rparr>) \<and>
     same_but_log ?s s'"
  proof (rule Cons.IH)
    show "fl_heap (lk ?s) a = Some ?n" by simp
    show "lpath (wr_heap (lk ?s)) wr_next (fl_writes_at ?n) as None" using w(5) by simp
    show "content (event_log ?s) = encode_log rs" using f(3,4) Cons.prems(4) by simp
    show "list_all2 (names_record ?s rs) as rest" using q(3) sn by simp
    show "kind_at ?s c \<in> {- 4, - 5}" if "c \<in> set as" for c using Cons.prems(6) [of c] that sk by simp
  qed (rule k(2))
  then obtain s' where s': "delayed_update_loop k' a ?s = Some s'"
     "fs_calls s' = fs_calls ?s @ concat (map2 (\<lambda>b r. performs (kind_at s b) r) as rest)"
     "wr_heap (lk s') = wr_heap (lk s)" "fl_heap (lk s') = (fl_heap (lk s))(a \<mapsto> n\<lparr>fl_writes_at := None\<rparr>)" "same_but_log ?s s'"
    unfolding sk by auto
  have "same_but_log s s'" using s'(5) f(3,4) by (simp add: same_but_log_def)
  moreover have "kind_at s b = wr_write_length w" using w(2) by (simp add: kind_at_def)
  ultimately show ?case using s' q(1) step by simp
qed

section \<open>Properties\<close>

text \<open>C13: The writes of a transaction are performed from the log.  If the write records of a locked
  file name, in order, records of a well-formed log, then \<open>delayed_write\<close> makes, for each of
  them and in that order, one \<open>lseek\<close> to the logged offset and one \<open>write\<close> of the logged data on the
  logged descriptor, frees the records and changes nothing else but the position of the log stream.
  What the file system answers to the two calls is only printed.\<close>

theorem delayed_write_replays:
  assumes "fl_heap (lk s) a = Some n" and "mem_ok (lk s)" and "lpath (wr_heap (lk s)) wr_next (fl_writes_at n) ws None"
    and "content (event_log s) = encode_log rs" and "wf_log 0 rs" and "list_all2 (names_record s rs) ws qs"
  shows "\<exists>s'. delayed_write a s = Some s' \<and>
     fs_calls s' = fs_calls s @ concat (map write_calls qs) \<and>
     (\<forall>b. wr_heap (lk s') b = (if b \<in> set ws then None else wr_heap (lk s) b)) \<and>
     fl_heap (lk s') = fl_heap (lk s) \<and> same_but_log s s'"
proof -
  have "length ws < Suc (brk (lk s))" using mem_ok_wr_path_length [OF assms(2,3)] by simp
  then obtain s' where "delayed_write_loop (Suc (brk (lk s))) (fl_writes_at n) s = Some s'"
      "fs_calls s' = fs_calls s @ concat (map write_calls qs)"
      "wr_heap (lk s') = free_all ws (wr_heap (lk s))" "fl_heap (lk s') = fl_heap (lk s)" "same_but_log s s'"
    using delayed_write_loop_spec [OF assms(5,3) lpath_distinct [OF assms(3)] _ assms(4,6)] by blast
  then show ?thesis using assms(1) by (simp add: delayed_write_def free_all_apply)
qed

text \<open>A server with a logged record and one locked file whose write record names it.\<close>

definition logged :: "log_type \<Rightarrow> char list \<Rightarrow> char list \<Rightarrow> log_record" where
  "logged ty d d1 = \<lparr>lr_LRN = 0, lr_txn_id = 1, lr_prev_LRN = - 1, lr_next_LRN = - 1,
     lr_record_type = log_type_code ty, lr_fd = 5, lr_offset = 100, lr_data = d, lr_data1 = d1\<rparr>"

definition logged_node :: file_lock where
  "logged_node = \<lparr>fl_file_inode = 7, fl_file_mode = 1, fl_fd = 5, fl_file_offset = 0, fl_file_size = 0,
     fl_flags = 2, fl_parent_txn = 1, fl_next_txn = None, fl_prev_shared_rec = None,
     fl_next_shared_rec = None, fl_next = None, fl_prev = Some 0, fl_writes_at = Some 1\<rparr>"

definition logged_server :: "log_record \<Rightarrow> int \<Rightarrow> server" where
  "logged_server r kd = (global_init (encode_log [r]))\<lparr>lk := \<lparr>
     fl_heap = [0 \<mapsto> logged_node],
     wr_heap = [1 \<mapsto> \<lparr>wr_initial_off = 100, wr_write_length = kd, wr_LRN = 0, wr_next = None, wr_prev = None\<rparr>],
     brk = 2, head_lock_list = Some 0\<rparr>\<rparr>"

lemma logged_server_ok:
  assumes "length d < 1000" and "length d1 < 1000"
  shows "mem_ok (lk (logged_server (logged ty d d1) kd))" "wf_log 0 [logged ty d d1]"
    "content (event_log (logged_server (logged ty d d1) kd)) = encode_log [logged ty d d1]"
    "list_all2 (names_record (logged_server (logged ty d d1) kd) [logged ty d d1]) [1] [logged ty d d1]"
    "lpath (wr_heap (lk (logged_server (logged ty d d1) kd))) wr_next (Some 1) [1] None"
    "fl_heap (lk (logged_server (logged ty d d1) kd)) 0 = Some logged_node" "fl_writes_at logged_node = Some 1"
  using assms log_type_code_s32 [of ty] by (auto simp: logged_server_def logged_def mem_ok_def rec_ok_def global_init_def names_record_def
      in_s32_def in_s64_def logged_node_def split: if_splits)

theorem delayed_write_replays_witness:
  "\<exists>s'. delayed_write 0 (logged_server (logged UPDATE ''ab'' NA) 2) = Some s' \<and>
     fs_calls s' = fs_calls (logged_server (logged UPDATE ''ab'' NA) 2) @
        concat (map write_calls [logged UPDATE ''ab'' NA]) \<and>
     (\<forall>b. wr_heap (lk s') b = (if b \<in> set [1] then None else wr_heap (lk (logged_server (logged UPDATE ''ab'' NA) 2)) b)) \<and>
     fl_heap (lk s') = fl_heap (lk (logged_server (logged UPDATE ''ab'' NA) 2)) \<and>
     same_but_log (logged_server (logged UPDATE ''ab'' NA) 2) s'"
  by (rule delayed_write_replays [OF logged_server_ok(6,1) _ logged_server_ok(3,2,4)])
    (simp_all add: logged_node_def logged_server_def)

text \<open>C14: Creations and removals are performed from the log.  If the write records of a locked
  directory are creations and removals that name, in order, records of a well-formed log,
  then \<open>delayed_update\<close> syncs each created file (those of mode 256; others are skipped) and
  unlinks each removed one, in that order and under the logged paths, and empties the list.\<close>

theorem delayed_update_replays:
  assumes "fl_heap (lk s) a = Some n" and "mem_ok (lk s)" and "lpath (wr_heap (lk s)) wr_next (fl_writes_at n) ws None"
    and "content (event_log s) = encode_log rs" and "wf_log 0 rs" and "list_all2 (names_record s rs) ws qs"
    and "\<And>b. b \<in> set ws \<Longrightarrow> kind_at s b \<in> {- 4, - 5}"
  shows "\<exists>s'. delayed_update a s = Some s' \<and>
     fs_calls s' = fs_calls s @ concat (map2 (\<lambda>b r. performs (kind_at s b) r) ws qs) \<and>
     fl_heap (lk s') = (fl_heap (lk s))(a \<mapsto> n\<lparr>fl_writes_at := None\<rparr>) \<and> same_but_log s s'"
proof -
  have "length ws < Suc (brk (lk s))" using mem_ok_wr_path_length [OF assms(2,3)] by simp
  then show ?thesis
    using delayed_update_loop_spec [OF assms(5,1,3) _ assms(4,6,7)] unfolding delayed_update_def by blast
qed

theorem delayed_update_replays_witness:
  "\<exists>s'. delayed_update 0 (logged_server (logged CREAT (nul_terminated ''f'') (nul_terminated ''256'')) (- 4)) = Some s' \<and>
     fs_calls s' = [Fs_sync ''f''] \<and>
     fl_heap (lk s') = (fl_heap (lk (logged_server (logged CREAT (nul_terminated ''f'') (nul_terminated ''256'')) (- 4))))
        (0 \<mapsto> (the (fl_heap (lk (logged_server (logged CREAT (nul_terminated ''f'') (nul_terminated ''256'')) (- 4))) 0))\<lparr>fl_writes_at := None\<rparr>) \<and>
     same_but_log (logged_server (logged CREAT (nul_terminated ''f'') (nul_terminated ''256'')) (- 4)) s'"
proof -
  let ?r = "logged CREAT (nul_terminated ''f'') (nul_terminated ''256'')" and ?s = "logged_server (logged CREAT (nul_terminated ''f'') (nul_terminated ''256'')) (- 4)"
  note ok = logged_server_ok [where d = "nul_terminated ''f''" and ?d1.0 = "nul_terminated ''256''"]
  have "\<exists>s'. delayed_update 0 ?s = Some s' \<and>
     fs_calls s' = fs_calls ?s @ concat (map2 (\<lambda>b r. performs (kind_at ?s b) r) [1] [?r]) \<and>
     fl_heap (lk s') = (fl_heap (lk ?s))(0 \<mapsto> (the (fl_heap (lk ?s) 0))\<lparr>fl_writes_at := None\<rparr>) \<and> same_but_log ?s s'"
    using delayed_update_replays [OF ok(6,1) _ ok(3,2,4), of CREAT "- 4"] ok(5) [of CREAT "- 4"] ok(6) [of CREAT "- 4"]
    by (simp add: ok(7) nul_terminated_def kind_at_def logged_server_def)
  moreover have "performs (kind_at ?s 1) ?r = [Fs_sync ''f'']" "fs_calls ?s = []"
    by (simp_all add: logged_server_def kind_at_def performs_def logged_def c_string_def nul_terminated_def global_init_def)
  ultimately show ?thesis by simp
qed

text \<open>C15: A commit that has a rename to perform reads freed memory.  \<open>delayed_rename\<close> frees the write
  record it was called for, and \<open>delayed_update\<close> looks at that record again: with a rename
  at the head of the list, no execution of \<open>delayed_update\<close> is defined.\<close>

theorem delayed_rename_use_after_free:
  assumes "head_kind a s = Some kd" and "kd \<in> {- 1, - 2, - 3}"
  shows "delayed_update a s = None"
proof -
  obtain n p where "fl_heap (lk s) a = Some n" "fl_writes_at n = Some p"
    using assms(1) by (auto simp: head_kind_def Option.bind_eq_Some_conv)
  then show ?thesis using assms delayed_rename_dangles [of a s]
    by (cases "delayed_rename a s") (auto simp: delayed_update_def)
qed

theorem delayed_rename_use_after_free_witness:
  "delayed_update 0 (logged_server (logged RENAME (nul_terminated ''a'') (nul_terminated ''b'')) (- 3)) = None"
  by (rule delayed_rename_use_after_free [of _ _ "- 3"]) (simp_all add: head_kind_def logged_server_def logged_node_def)

end
