(* ===== verification/LockRelease.thy ===== *)
theory LockRelease
  imports LockList WaitList DelayedOps
begin

text \<open>
  The end of a transaction: its locks are released one by one along its own list
  (\<open>release_locks_on_success\<close> in Lock_manager1.c, \<open>release_locks_on_abort\<close> in Lock_manager2.c,
  \<open>release_locks_by_backup\<close> in backup_manager.c), and the handlers \<open>on_txn_commit\<close> and
  \<open>on_txn_abort\<close> of TxFS_manager.c that log, release and forget it.  The release of one lock is
  one definition per caller, in the branches of the code.
\<close>

section \<open>Operations\<close>

text \<open>The pointers between the holders of a shared lock.  The code does this only when
  transactions wait for the file.\<close>

definition unlink_shared :: "addr \<Rightarrow> lockmem \<Rightarrow> lockmem option" where
  "unlink_shared a m = do {
     n \<leftarrow> fl_heap m a;
     m \<leftarrow> (if fl_next_shared_rec n = None \<and> fl_prev_shared_rec n \<noteq> None
           then fl_set (fl_prev_shared_rec n) (\<lambda>x. x\<lparr>fl_next_shared_rec := None\<rparr>) m else Some m);
     n \<leftarrow> fl_heap m a;
     m \<leftarrow> (if fl_prev_shared_rec n = None \<and> fl_next_shared_rec n \<noteq> None
           then fl_set (fl_next_shared_rec n) (\<lambda>x. x\<lparr>fl_prev_shared_rec := None\<rparr>) m else Some m);
     n \<leftarrow> fl_heap m a;
     if fl_next_shared_rec n \<noteq> None \<and> fl_prev_shared_rec n \<noteq> None
     then do {
       m \<leftarrow> fl_set (fl_prev_shared_rec n) (\<lambda>x. x\<lparr>fl_next_shared_rec := fl_next_shared_rec n\<rparr>) m;
       fl_set (fl_next_shared_rec n) (\<lambda>x. x\<lparr>fl_prev_shared_rec := fl_prev_shared_rec n\<rparr>) m }
     else Some m }"

text \<open>The fate of one lock record: \<open>cl0\<close> closes the file where nobody waits, \<open>cl1\<close> where somebody
  does (the conditions on the descriptor differ).\<close>

definition release_node ::
  "(int \<Rightarrow> server \<Rightarrow> server) \<Rightarrow> (int \<Rightarrow> server \<Rightarrow> server) \<Rightarrow> addr \<Rightarrow> server \<Rightarrow> server option" where
  "release_node cl0 cl1 a s = do {
     n \<leftarrow> fl_heap (lk s) a;
     case search_wait_list (fl_file_inode n) (head_wait_list s) of
       None \<Rightarrow> do {
         let s = cl0 (fl_fd n) s;
         m \<leftarrow> delete_file_list a (lk s);
         Some (s\<lparr>lk := m\<rparr>) }
     | Some w \<Rightarrow>
         if fl_file_mode n = 0 then
           if fl_next_shared_rec n = None \<and> fl_prev_shared_rec n = None then do {
             let s = cl1 (fl_fd n) s;
             m \<leftarrow> delete_file_list a (lk s);
             wake_up (wn_file_inode w) (s\<lparr>lk := m\<rparr>) }
           else do {
             m \<leftarrow> unlink_shared a (lk s);
             let s = cl1 (fl_fd n) (s\<lparr>lk := m\<rparr>);
             m \<leftarrow> delete_file_list a (lk s);
             Some (s\<lparr>lk := m\<rparr>) }
         else do {
           let s = cl1 (fl_fd n) s;
           m \<leftarrow> delete_file_list a (lk s);
           wake_up (wn_file_inode w) (s\<lparr>lk := m\<rparr>) } }"

definition perform_delayed :: "addr \<Rightarrow> server \<Rightarrow> server option" where
  "perform_delayed a s = do {
     n \<leftarrow> fl_heap (lk s) a;
     if fl_flags n \<noteq> 0 \<and> fl_writes_at n \<noteq> None then do {
       p \<leftarrow> fl_writes_at n;
       w \<leftarrow> wr_heap (lk s) p;
       if wr_write_length w < 0 then delayed_update a s else delayed_write a s }
     else Some s }"

definition close_if :: "(int \<Rightarrow> bool) \<Rightarrow> (int \<Rightarrow> fs_call) \<Rightarrow> int \<Rightarrow> server \<Rightarrow> server" where
  "close_if P c fd s = (if P fd then emit (c fd) s else s)"

fun release_success_loop :: "nat \<Rightarrow> int \<Rightarrow> addr option \<Rightarrow> server \<Rightarrow> server option" where
  "release_success_loop 0 txnid p s = None"
| "release_success_loop (Suc k) txnid p s =
     (case p of None \<Rightarrow> Some s
      | Some a \<Rightarrow> do {
          s \<leftarrow> perform_delayed a s;
          n \<leftarrow> fl_heap (lk s) a;
          s \<leftarrow> release_node (close_if (\<lambda>fd. fd > 0) (\<lambda>fd. Tr_close fd txnid))
                            (close_if (\<lambda>fd. fd \<noteq> 0) (\<lambda>fd. Tr_close fd txnid)) a s;
          release_success_loop k txnid (fl_next_txn n) s })"

definition release_locks_on_success :: "int \<Rightarrow> server \<Rightarrow> server option" where
  "release_locks_on_success txnid s = do {
     t \<leftarrow> find_txn txnid (head_txn_list s);
     s \<leftarrow> set_txn txnid (\<lambda>n. n\<lparr>tn_file_rec_no := None\<rparr>) s;
     release_success_loop (Suc (brk (lk s))) txnid (tn_file_rec_no t) (flush_log s) }"

fun free_writes :: "nat \<Rightarrow> addr option \<Rightarrow> lockmem \<Rightarrow> lockmem option" where
  "free_writes 0 p m = None"
| "free_writes (Suc k) p m =
     (case p of None \<Rightarrow> Some m
      | Some b \<Rightarrow> do { w \<leftarrow> wr_heap m b; m \<leftarrow> wr_free b m; free_writes k (wr_next w) m })"

definition free_write_at :: "addr \<Rightarrow> lockmem \<Rightarrow> lockmem option" where
  "free_write_at a m = do { n \<leftarrow> fl_heap m a; free_writes (Suc (brk m)) (fl_writes_at n) m }"

fun release_abort_loop :: "nat \<Rightarrow> int \<Rightarrow> addr option \<Rightarrow> server \<Rightarrow> server option" where
  "release_abort_loop 0 txnid p s = None"
| "release_abort_loop (Suc k) txnid p s =
     (case p of None \<Rightarrow> Some s
      | Some a \<Rightarrow> do {
          n \<leftarrow> fl_heap (lk s) a;
          m \<leftarrow> (if fl_flags n \<noteq> 0 \<and> fl_writes_at n \<noteq> None then free_write_at a (lk s) else Some (lk s));
          s \<leftarrow> release_node (close_if (\<lambda>fd. fd \<ge> 0) (\<lambda>fd. Tr_close_abort fd txnid))
                            (close_if (\<lambda>fd. fd \<ge> 0) (\<lambda>fd. Tr_close_abort fd txnid)) a (s\<lparr>lk := m\<rparr>);
          release_abort_loop k txnid (fl_next_txn n) s })"

definition release_locks_on_abort :: "int \<Rightarrow> server \<Rightarrow> server option" where
  "release_locks_on_abort txnid s = do {
     t \<leftarrow> find_txn txnid (head_txn_list s);
     s \<leftarrow> set_txn txnid (\<lambda>n. n\<lparr>tn_file_rec_no := None\<rparr>) s;
     release_abort_loop (Suc (brk (lk s))) txnid (tn_file_rec_no t) (flush_log s) }"

text \<open>The backup transaction lets go of one file at a time: the record is found by its inode and
  taken out of the transaction's own list first.\<close>

fun find_own :: "lockmem \<Rightarrow> int \<Rightarrow> nat \<Rightarrow> addr option \<Rightarrow> addr option \<Rightarrow> (addr option \<times> addr) option" where
  "find_own m f 0 foll p = None"
| "find_own m f (Suc k) foll p = do {
     a \<leftarrow> p;
     n \<leftarrow> fl_heap m a;
     if fl_file_inode n = f then Some (foll, a) else find_own m f k (Some a) (fl_next_txn n) }"

definition release_locks_by_backup :: "int \<Rightarrow> int \<Rightarrow> server \<Rightarrow> server option" where
  "release_locks_by_backup txnid f_inode s = do {
     t \<leftarrow> find_txn txnid (head_txn_list s);
     (foll, a) \<leftarrow> find_own (lk s) f_inode (Suc (brk (lk s))) None (tn_file_rec_no t);
     n \<leftarrow> fl_heap (lk s) a;
     s \<leftarrow> (case foll of
             None \<Rightarrow> set_txn txnid (\<lambda>t. t\<lparr>tn_file_rec_no := fl_next_txn n\<rparr>) s
           | Some b \<Rightarrow> do { m \<leftarrow> fl_set (Some b) (\<lambda>x. x\<lparr>fl_next_txn := fl_next_txn n\<rparr>) (lk s);
                           Some (s\<lparr>lk := m\<rparr>) });
     release_node (\<lambda>fd s. s) (\<lambda>fd s. s) a s }"

text \<open>The handlers.  The results of the logging calls are not looked at.\<close>

definition on_txn_commit :: "int \<Rightarrow> server \<Rightarrow> (int \<times> server) option" where
  "on_txn_commit txnid s = do {
     (_, s) \<leftarrow> log_txn_commit txnid s;
     s \<leftarrow> release_locks_on_success txnid s;
     prev_LRN \<leftarrow> get_prev_log_LRN txnid s;
     s \<leftarrow> txn_delete txnid s;
     (_, s) \<leftarrow> log_txn_end txnid prev_LRN s;
     Some (txnid, s) }"

definition on_txn_abort :: "int \<Rightarrow> server \<Rightarrow> (int \<times> server) option" where
  "on_txn_abort txnid s = do {
     (_, s) \<leftarrow> log_txn_abort txnid s;
     s \<leftarrow> release_locks_on_abort txnid s;
     prev_LRN \<leftarrow> get_prev_log_LRN txnid s;
     s \<leftarrow> txn_delete txnid s;
     (_, s) \<leftarrow> log_txn_end txnid prev_LRN s;
     Some (txnid, s) }"

end
