(* ===== verification/LockTable.thy ===== *)
theory LockTable
  imports LockRelease
begin

text \<open>
  The invariant of the lock table.  The lock list is well formed and in the order of the
  inodes; two records of one inode are both shared; the pointers between shared records stay
  within one inode; every record belongs to a live transaction and is on that transaction's own
  list.  This theory defines the invariant, says what each piece of code leaves alone
  (\<open>same_id\<close>, \<open>quiet\<close>), and proves that releasing locks preserves it.
\<close>

section \<open>The invariant\<close>

definition mode_of :: "lockmem \<Rightarrow> addr \<Rightarrow> int" where
  "mode_of m a = (case fl_heap m a of Some n \<Rightarrow> fl_file_mode n | None \<Rightarrow> 0)"

definition parent_of :: "lockmem \<Rightarrow> addr \<Rightarrow> int" where
  "parent_of m a = (case fl_heap m a of Some n \<Rightarrow> fl_parent_txn n | None \<Rightarrow> 0)"

definition compatible :: "lockmem \<Rightarrow> addr list \<Rightarrow> bool" where
  "compatible m xs \<longleftrightarrow>
     (\<forall>a \<in> set xs. mode_of m a = 0 \<or> mode_of m a = 1) \<and>
     (\<forall>a \<in> set xs. \<forall>b \<in> set xs. a \<noteq> b \<longrightarrow> ino m a = ino m b \<longrightarrow> mode_of m a = 0 \<and> mode_of m b = 0)"

text \<open>A pointer between shared records may dangle; where it does not, it leads to a record of
  the lock list for the same inode.\<close>

definition shared_ok :: "addr set \<Rightarrow> lockmem \<Rightarrow> bool" where
  "shared_ok X m \<longleftrightarrow> (\<forall>a n b. fl_heap m a = Some n \<longrightarrow>
     fl_next_shared_rec n = Some b \<or> fl_prev_shared_rec n = Some b \<longrightarrow>
     b < brk m \<and> (\<forall>n'. fl_heap m b = Some n' \<longrightarrow> b \<in> X \<and> fl_file_inode n' = fl_file_inode n))"

lemma shared_okD:
  assumes "shared_ok X m" and "fl_heap m a = Some n" and "fl_next_shared_rec n = Some b \<or> fl_prev_shared_rec n = Some b"
  shows "b < brk m" and "fl_heap m b = Some n' \<Longrightarrow> fl_file_inode n' = fl_file_inode n" and "fl_heap m b = Some n' \<Longrightarrow> b \<in> X"
  using assms unfolding shared_ok_def by blast+

definition table_ok :: "lockmem \<Rightarrow> addr list \<Rightarrow> bool" where
  "table_ok m xs \<longleftrightarrow> lock_list m xs \<and> inodes_sorted m xs \<and> compatible m xs \<and> shared_ok (set xs) m"

definition owned :: "lockmem \<Rightarrow> addr list \<Rightarrow> int \<Rightarrow> addr set" where
  "owned m xs t = {a \<in> set xs. parent_of m a = t}"

definition txn_view :: "txn_node list \<Rightarrow> (int \<times> addr option) list" where
  "txn_view ts = map (\<lambda>n. (tn_txn_id n, tn_file_rec_no n)) ts"

definition owner_ok :: "lockmem \<Rightarrow> (int \<times> addr option) list \<Rightarrow> addr list \<Rightarrow> bool" where
  "owner_ok m tv xs \<longleftrightarrow> sorted_wrt (<) (map fst tv) \<and>
     (\<forall>(t, p) \<in> set tv. \<exists>as. lpath (fl_heap m) fl_next_txn p as None \<and> set as = owned m xs t) \<and>
     (\<forall>a \<in> set xs. parent_of m a \<in> fst ` set tv)"

definition lock_inv :: "server \<Rightarrow> addr list \<Rightarrow> bool" where
  "lock_inv s xs \<longleftrightarrow> table_ok (lk s) xs \<and> owner_ok (lk s) (txn_view (head_txn_list s)) xs"

section \<open>What is left alone\<close>

definition fl_id where
  "fl_id n = (fl_file_inode n, fl_file_mode n, fl_flags n, fl_parent_txn n, fl_next_txn n)"

definition same_id :: "addr set \<Rightarrow> lockmem \<Rightarrow> lockmem \<Rightarrow> bool" where
  "same_id A m m' \<longleftrightarrow> (\<forall>b. b \<notin> A \<longrightarrow> map_option fl_id (fl_heap m' b) = map_option fl_id (fl_heap m b))"

definition quiet :: "server \<Rightarrow> server \<Rightarrow> bool" where
  "quiet s s' \<longleftrightarrow> content (event_log s') = content (event_log s) \<and> head_txn_list s' = head_txn_list s \<and>
     log_mutex s' = log_mutex s \<and> log_dev_ok s' = log_dev_ok s \<and> BACKUP s' = BACKUP s \<and> pz s' = pz s"

lemma quiet_refl [simp]: "quiet s s"
  by (simp add: quiet_def)

lemma quiet_trans: "quiet s1 s2 \<Longrightarrow> quiet s2 s3 \<Longrightarrow> quiet s1 s3"
  by (simp add: quiet_def)

lemma quiet_lk [simp]: "quiet s (s'\<lparr>lk := m\<rparr>) = quiet s s'" "quiet (s\<lparr>lk := m\<rparr>) s' = quiet s s'"
  "quiet s (emit c s') = quiet s s'"
  by (simp_all add: quiet_def emit_def)

lemma same_id_refl [simp]: "same_id A m m"
  by (simp add: same_id_def)

lemma same_id_trans: "same_id A m1 m2 \<Longrightarrow> same_id B m2 m3 \<Longrightarrow> same_id (A \<union> B) m1 m3"
  by (simp add: same_id_def)

lemma same_id_mono: "same_id A m m' \<Longrightarrow> A \<subseteq> B \<Longrightarrow> same_id B m m'"
  by (auto simp: same_id_def)

lemma same_id_nodes:
  assumes "same_nodes A m m'"
  shows "same_id A m m'"
proof -
  have "fl_id n = fl_id (fl_core n)" for n by (simp add: fl_id_def)
  then have "map_option fl_id p = map_option fl_id (map_option fl_core p)" for p by (cases p) auto
  then show ?thesis using assms unfolding same_id_def same_nodes_def by metis
qed

lemma same_id_field:
  assumes "same_id A m m'" and "b \<notin> A"
  shows "map_option fl_file_inode (fl_heap m' b) = map_option fl_file_inode (fl_heap m b)"
    "map_option fl_file_mode (fl_heap m' b) = map_option fl_file_mode (fl_heap m b)"
    "map_option fl_parent_txn (fl_heap m' b) = map_option fl_parent_txn (fl_heap m b)"
    "map_option fl_next_txn (fl_heap m' b) = map_option fl_next_txn (fl_heap m b)"
    "fl_heap m' b = None \<longleftrightarrow> fl_heap m b = None"
proof -
  have e: "map_option fl_id (fl_heap m' b) = map_option fl_id (fl_heap m b)"
    using assms by (simp add: same_id_def)
  then show "map_option fl_file_inode (fl_heap m' b) = map_option fl_file_inode (fl_heap m b)"
    "map_option fl_file_mode (fl_heap m' b) = map_option fl_file_mode (fl_heap m b)"
    "map_option fl_parent_txn (fl_heap m' b) = map_option fl_parent_txn (fl_heap m b)"
    "map_option fl_next_txn (fl_heap m' b) = map_option fl_next_txn (fl_heap m b)"
    "fl_heap m' b = None \<longleftrightarrow> fl_heap m b = None"
    by (cases "fl_heap m b"; cases "fl_heap m' b"; simp add: fl_id_def)+
qed

lemma mode_of_alt: "mode_of m a = (case map_option fl_file_mode (fl_heap m a) of Some i \<Rightarrow> i | None \<Rightarrow> 0)"
  by (simp add: mode_of_def split: option.splits)

lemma parent_of_alt: "parent_of m a = (case map_option fl_parent_txn (fl_heap m a) of Some i \<Rightarrow> i | None \<Rightarrow> 0)"
  by (simp add: parent_of_def split: option.splits)

lemma same_id_view:
  assumes "same_id A m m'" and "b \<notin> A"
  shows "ino m' b = ino m b" "mode_of m' b = mode_of m b" "parent_of m' b = parent_of m b"
  by (simp_all add: ino_alt mode_of_alt parent_of_alt same_id_field [OF assms])

lemma same_id_path:
  "same_id A m m' \<Longrightarrow> A \<inter> set as = {} \<Longrightarrow> lpath (fl_heap m') fl_next_txn p as q = lpath (fl_heap m) fl_next_txn p as q"
  by (rule lpath_cong) (auto intro: same_id_field(4))

lemma same_id_sorted:
  assumes "same_id A m m'" and "A \<inter> set xs = {}"
  shows "inodes_sorted m' xs = inodes_sorted m xs" "compatible m' xs = compatible m xs"
proof -
  have "map (ino m') xs = map (ino m) xs" using assms by (intro map_cong) (auto intro!: same_id_view)
  then show "inodes_sorted m' xs = inodes_sorted m xs" by (simp only: inodes_sorted_def)
  have "ino m' a = ino m a" "mode_of m' a = mode_of m a" if "a \<in> set xs" for a
    using assms that by (auto intro!: same_id_view)
  then show "compatible m' xs = compatible m xs" unfolding compatible_def by auto
qed

lemma compatible_subset: "compatible m xs \<Longrightarrow> set ys \<subseteq> set xs \<Longrightarrow> compatible m ys"
  by (auto simp: compatible_def)

lemma inodes_sorted_remove: "inodes_sorted m (us @ a # vs) \<Longrightarrow> inodes_sorted m (us @ vs)"
  by (auto simp: inodes_sorted_def sorted_append)

lemma dseg_cong:
  "(\<And>a. a \<in> set as \<Longrightarrow> map_option (\<lambda>n. (fl_prev n, fl_next n)) (h' a) = map_option (\<lambda>n. (fl_prev n, fl_next n)) (h a)) \<Longrightarrow>
   dseg h' pv p as q = dseg h pv p as q"
proof (induction as arbitrary: pv p)
  case Nil
  then show ?case by simp
next
  case (Cons a as)
  have "map_option (\<lambda>n. (fl_prev n, fl_next n)) (h' a) = map_option (\<lambda>n. (fl_prev n, fl_next n)) (h a)"
    using Cons.prems by simp
  with Cons show ?case by (cases "h a"; cases "h' a") auto
qed

section \<open>The delayed operations leave the locks alone\<close>

definition no_writes :: "file_lock \<Rightarrow> file_lock" where
  "no_writes n = n\<lparr>fl_writes_at := None\<rparr>"

lemma no_writes_sel [simp]:
  "fl_file_inode (no_writes n) = fl_file_inode n" "fl_file_mode (no_writes n) = fl_file_mode n"
  "fl_flags (no_writes n) = fl_flags n" "fl_fd (no_writes n) = fl_fd n"
  "fl_parent_txn (no_writes n) = fl_parent_txn n" "fl_next_txn (no_writes n) = fl_next_txn n"
  "fl_next_shared_rec (no_writes n) = fl_next_shared_rec n" "fl_prev_shared_rec (no_writes n) = fl_prev_shared_rec n"
  "fl_next (no_writes n) = fl_next n" "fl_prev (no_writes n) = fl_prev n"
  "no_writes (n\<lparr>fl_writes_at := p\<rparr>) = no_writes n"
  by (simp_all add: no_writes_def)

lemma no_writes_eqD:
  assumes "no_writes k = no_writes n"
  shows "fl_file_inode k = fl_file_inode n" "fl_next_txn k = fl_next_txn n" "fl_file_mode k = fl_file_mode n"
    "fl_next_shared_rec k = fl_next_shared_rec n" "fl_prev_shared_rec k = fl_prev_shared_rec n"
  using arg_cong [OF assms, of fl_file_inode] arg_cong [OF assms, of fl_next_txn] arg_cong [OF assms, of fl_file_mode]
    arg_cong [OF assms, of fl_next_shared_rec] arg_cong [OF assms, of fl_prev_shared_rec] by simp_all

text \<open>Only write records and the pointers to them have changed.\<close>

definition writes_only :: "lockmem \<Rightarrow> lockmem \<Rightarrow> bool" where
  "writes_only m m' \<longleftrightarrow> (\<forall>b. map_option no_writes (fl_heap m' b) = map_option no_writes (fl_heap m b)) \<and>
     (\<forall>b. wr_heap m b = None \<longrightarrow> wr_heap m' b = None) \<and> brk m' = brk m \<and> head_lock_list m' = head_lock_list m"

lemma writes_only_refl [simp]: "writes_only m m"
  by (simp add: writes_only_def)

lemma writes_only_trans: "writes_only m1 m2 \<Longrightarrow> writes_only m2 m3 \<Longrightarrow> writes_only m1 m3"
  by (simp add: writes_only_def)

lemma writes_only_field:
  assumes "writes_only m m'" and "\<And>n. F (no_writes n) = F n"
  shows "map_option F (fl_heap m' b) = map_option F (fl_heap m b)"
proof -
  have F: "map_option F p = map_option F (map_option no_writes p)" for p
    by (cases p) (simp_all add: assms(2))
  show ?thesis using assms(1) unfolding F [of "fl_heap m b"] F [of "fl_heap m' b"] writes_only_def by simp
qed

lemma writes_only_Some:
  "writes_only m m' \<Longrightarrow> fl_heap m b = Some n \<Longrightarrow> \<exists>n'. fl_heap m' b = Some n' \<and> no_writes n' = no_writes n"
  unfolding writes_only_def by (cases "fl_heap m' b") (metis option.simps(8,9) option.distinct(1) option.inject)+

lemma writes_only_same_id: "writes_only m m' \<Longrightarrow> same_id {} m m'"
  unfolding same_id_def by (intro allI impI writes_only_field) (simp_all add: fl_id_def)

lemma writes_only_mem_ok: "writes_only m m' \<Longrightarrow> mem_ok m \<Longrightarrow> mem_ok m'"
proof -
  assume w: "writes_only m m'" and ok: "mem_ok m"
  have "a < brk m'" if "fl_heap m' a = Some n" for a n
  proof -
    have "fl_heap m a \<noteq> None" using w that unfolding writes_only_def by (metis option.simps(8) option.map_disc_iff option.distinct(1))
    then show ?thesis using ok w by (auto simp: mem_ok_def writes_only_def)
  qed
  moreover have "a < brk m'" if "wr_heap m' a = Some n" for a n
    using w that ok by (cases "wr_heap m a") (auto simp: mem_ok_def writes_only_def)
  ultimately show "mem_ok m'" by (auto simp: mem_ok_def)
qed

lemma writes_only_table:
  assumes "writes_only m m'" and "table_ok m xs"
  shows "table_ok m' xs"
proof -
  have "dseg (fl_heap m') (hd xs) (head_lock_list m') xs None = dseg (fl_heap m) (hd xs) (head_lock_list m) xs None"
    using assms(1) by (subst dseg_cong [of xs "fl_heap m'" "fl_heap m"])
      (use assms(1) in \<open>auto simp: writes_only_def intro!: writes_only_field [OF assms(1)]\<close>)
  then have "lock_list m' xs"
    using assms writes_only_mem_ok by (auto simp: table_ok_def lock_list_def)
  moreover have "shared_ok (set xs) m'"
    unfolding shared_ok_def
  proof (intro allI impI)
    fix a n b
    assume n: "fl_heap m' a = Some n" and b: "fl_next_shared_rec n = Some b \<or> fl_prev_shared_rec n = Some b"
    have e: "map_option no_writes (fl_heap m' x) = map_option no_writes (fl_heap m x)" for x
      using assms(1) by (simp add: writes_only_def)
    from e [of a] n obtain k where k: "fl_heap m a = Some k" "no_writes k = no_writes n"
      by (cases "fl_heap m a") auto
    have f: "fl_next_shared_rec k = fl_next_shared_rec n" "fl_prev_shared_rec k = fl_prev_shared_rec n" "fl_file_inode k = fl_file_inode n"
      using no_writes_eqD [OF k(2)] by simp_all
    have sh: "shared_ok (set xs) m" using assms(2) by (simp add: table_ok_def)
    show "b < brk m' \<and> (\<forall>n'. fl_heap m' b = Some n' \<longrightarrow> b \<in> set xs \<and> fl_file_inode n' = fl_file_inode n)"
    proof (intro conjI allI impI)
      have b': "fl_next_shared_rec k = Some b \<or> fl_prev_shared_rec k = Some b" using b f by simp
      show "b < brk m'" using shared_okD(1) [OF sh k(1) b'] assms(1) by (simp add: writes_only_def)
      fix n'
      assume n': "fl_heap m' b = Some n'"
      from e [of b] n' obtain k' where k': "fl_heap m b = Some k'" "no_writes k' = no_writes n'"
        by (cases "fl_heap m b") auto
      have "fl_file_inode k' = fl_file_inode n'" using k'(2) by (rule no_writes_eqD(1))
      then show "fl_file_inode n' = fl_file_inode n"
        using shared_okD(2) [OF sh k(1) b' k'(1)] f(3) by simp
      show "b \<in> set xs" using shared_okD(3) [OF sh k(1) b' k'(1)] .
    qed
  qed
  ultimately show ?thesis
    using assms(2) same_id_sorted [OF writes_only_same_id [OF assms(1)], of xs] by (simp add: table_ok_def)
qed

lemma writes_only_intros:
  "wr_free b m = Some m' \<Longrightarrow> writes_only m m'"
  "wr_set p g m = Some m' \<Longrightarrow> writes_only m m'"
  "fl_set p (\<lambda>n. n\<lparr>fl_writes_at := q\<rparr>) m = Some m' \<Longrightarrow> writes_only m m'"
  by (auto simp: wr_free_def wr_set_def fl_set_def writes_only_def Option.bind_eq_Some_conv split: if_splits)

lemma unlink_record_writes: "unlink_record a b m = Some m' \<Longrightarrow> writes_only m m'"
  unfolding unlink_record_def
  by (auto simp: Option.bind_eq_Some_conv split: if_splits intro: writes_only_trans writes_only_intros)

lemma free_writes_writes: "free_writes k p m = Some m' \<Longrightarrow> writes_only m m'"
  by (induction k p m arbitrary: m' rule: free_writes.induct)
    (auto simp: Option.bind_eq_Some_conv split: option.splits intro: writes_only_trans writes_only_intros(1))

lemma free_write_at_writes: "free_write_at a m = Some m' \<Longrightarrow> writes_only m m'"
  by (auto simp: free_write_at_def Option.bind_eq_Some_conv simp del: free_writes.simps dest: free_writes_writes)

lemma fread_obj_content: "fread_obj n f = Some (bs, f') \<Longrightarrow> content f' = content f"
  by (auto simp: fread_obj_def fread_def Let_def split: if_splits)

lemma seek_content [simp]: "content (fseek_set p f) = content f" "content (fseek_cur d f) = content f"
  by (simp_all add: fseek_set_def fseek_cur_def)

lemma fread_block_content: "fread_block f = Some (bs, f') \<Longrightarrow> content f' = content f"
  by (auto simp: fread_block_def Option.bind_eq_Some_conv dest!: fread_obj_content)

lemma read_content:
  "read_update l f = Some (fd, off, d, f') \<Longrightarrow> content f' = content f"
  "read_path l f = Some (d, f') \<Longrightarrow> content f' = content f"
  by (auto simp: read_update_def read_path_def Option.bind_eq_Some_conv dest!: fread_block_content fread_obj_content)

definition calm :: "server \<Rightarrow> server \<Rightarrow> bool" where
  "calm s s' \<longleftrightarrow> quiet s s' \<and> head_wait_list s' = head_wait_list s \<and> writes_only (lk s) (lk s')"

lemma calm_refl [simp]: "calm s s"
  by (simp add: calm_def)

lemma calm_trans: "calm s1 s2 \<Longrightarrow> calm s2 s3 \<Longrightarrow> calm s1 s3"
  by (auto simp: calm_def intro: quiet_trans writes_only_trans)

lemma calm_lk: "writes_only (lk s) m \<Longrightarrow> calm s (s\<lparr>lk := m\<rparr>)"
  by (simp add: calm_def)

lemma calm_emit: "content f = content (event_log s) \<Longrightarrow> calm s (emit c (s\<lparr>event_log := f\<rparr>))"
  by (simp add: calm_def quiet_def emit_def)

lemma calm_log: "content f = content (event_log s) \<Longrightarrow> calm s (s\<lparr>event_log := f\<rparr>)"
  by (simp add: calm_def quiet_def)

lemma post_calm: "calm s s1 \<Longrightarrow> post m (calm s1) \<Longrightarrow> post m (calm s)"
  by (erule post_weaken) (rule calm_trans)

lemma rename_writes:
  "unlink_record a b m = Some m1 \<Longrightarrow> wr_free b m1 = Some m2 \<Longrightarrow> wr_free p m2 = Some m3 \<Longrightarrow> writes_only m m3"
  using unlink_record_writes writes_only_intros(1) writes_only_trans by blast

lemma delayed_write_loop_calm: "post (delayed_write_loop k p s) (calm s)"
proof (induction k arbitrary: p s)
  case 0
  show ?case by (simp add: post_None)
next
  case (Suc k)
  show ?case unfolding delayed_write_loop.simps
  proof (intro post_intros)
    fix a w x1 fd x2 off x3 d f m
    let ?s = "emit (Fs_write fd d) (emit (Fs_lseek fd off) (s\<lparr>event_log := f\<rparr>))"
    assume "read_update (wr_LRN w) (event_log s) = Some x1" "x1 = (fd, x2)" "x2 = (off, x3)" "x3 = (d, f)"
    then have "calm s ?s" using read_content(1) by (simp add: calm_def quiet_def emit_def)
    moreover assume "wr_free a (lk ?s) = Some m"
    ultimately have "calm s (?s\<lparr>lk := m\<rparr>)"
      using calm_lk writes_only_intros(1) calm_trans by blast
    then show "post (delayed_write_loop k (wr_next w) (?s\<lparr>lk := m\<rparr>)) (calm s)"
      using Suc.IH by (rule post_calm)
  qed simp
qed

lemma delayed_rename_calm: "post (delayed_rename a s) (calm s)"
  unfolding delayed_rename_def
proof (intro post_intros)
  fix n1 p1 r1 partner x1 op f1 x2 np f2 m m'
  let ?s = "emit (Fs_rename (c_string op) (c_string np)) (s\<lparr>event_log := f2\<rparr>)"
  assume "read_path (wr_LRN r1) (event_log s) = Some x1" "x1 = (op, f1)" "fread_block f1 = Some x2" "x2 = (np, f2)"
  then have "content f2 = content (event_log s)" using fread_block_content read_content(2) by metis
  then have c: "calm s ?s" by (rule calm_emit)
  assume m: "(if wr_write_length r1 \<noteq> - 3 then do { (a2, p2) \<leftarrow> partner; m \<leftarrow> unlink_record a2 p2 (lk ?s); wr_free p2 m }
       else Some (lk ?s)) = Some m" and m': "wr_free p1 m = Some m'"
  have "writes_only (lk ?s) m'"
  proof (cases "wr_write_length r1 = - 3")
    case True
    then show ?thesis using m m' writes_only_intros(1) by simp
  next
    case False
    then show ?thesis using m m' rename_writes
      by (cases partner) (auto simp: Option.bind_eq_Some_conv)
  qed
  then have "calm ?s (?s\<lparr>lk := m'\<rparr>)" by (rule calm_lk)
  then show "calm s (?s\<lparr>lk := m'\<rparr>)" using c calm_trans by blast
qed

lemma delayed_creat_calm: "post (delayed_creat a s) (calm s)" "post (delayed_unlink a s) (calm s)"
proof -
  have "calm s (s\<lparr>event_log := f\<rparr>)" "calm s (emit c (s\<lparr>event_log := f\<rparr>))" if "content f = content (event_log s)" for c f
    using that by (auto intro: calm_log calm_emit)
  then show "post (delayed_creat a s) (calm s)" "post (delayed_unlink a s) (calm s)"
    unfolding delayed_creat_def delayed_unlink_def
    by (intro post_intros; auto dest!: read_content(2) fread_block_content)+
qed

lemma delayed_update_loop_calm: "post (delayed_update_loop k a s) (calm s)"
proof (induction k arbitrary: s)
  case 0
  show ?case by (simp add: post_None)
next
  case (Suc k)
  have opt: "post (if c then m else Some s0) (calm s0)" if "post m (calm s0)" for c m s0
    using that by (simp add: post_Some)
  show ?case unfolding delayed_update_loop.simps
  proof (rule post_bind, rule post_if)
    fix n
    assume "fl_writes_at n = None"
    show "post (Some s) (calm s)" by (simp add: post_Some)
  next
    fix n
    show "post (do {
       kd \<leftarrow> head_kind a s;
       s \<leftarrow> (if kd \<in> {- 1, - 2, - 3} then delayed_rename a s else Some s);
       kd \<leftarrow> head_kind a s;
       s \<leftarrow> (if kd = - 4 then delayed_creat a s else Some s);
       kd \<leftarrow> head_kind a s;
       s \<leftarrow> (if kd = - 5 then delayed_unlink a s else Some s);
       n \<leftarrow> fl_heap (lk s) a;
       p \<leftarrow> fl_writes_at n;
       r \<leftarrow> wr_heap (lk s) p;
       m \<leftarrow> fl_set (Some a) (\<lambda>n. n\<lparr>fl_writes_at := wr_next r\<rparr>) (lk s);
       delayed_update_loop k a (s\<lparr>lk := m\<rparr>) }) (calm s)"
    proof (rule post_bind)+
      fix k1 s1 k2 s2 k3 s3 n p r m
      assume "(if k1 \<in> {- 1, - 2, - 3} then delayed_rename a s else Some s) = Some s1"
        and "(if k2 = - 4 then delayed_creat a s1 else Some s1) = Some s2"
        and "(if k3 = - 5 then delayed_unlink a s2 else Some s2) = Some s3"
        and m: "fl_set (Some a) (\<lambda>n. n\<lparr>fl_writes_at := wr_next r\<rparr>) (lk s3) = Some m"
      then have "calm s s1" "calm s1 s2" "calm s2 s3"
        using opt [OF delayed_rename_calm] opt [OF delayed_creat_calm(1)] opt [OF delayed_creat_calm(2)] postD by metis+
      moreover have "calm s3 (s3\<lparr>lk := m\<rparr>)" using m by (intro calm_lk) (rule writes_only_intros)
      ultimately have "calm s (s3\<lparr>lk := m\<rparr>)" using calm_trans by blast
      then show "post (delayed_update_loop k a (s3\<lparr>lk := m\<rparr>)) (calm s)" using Suc.IH by (rule post_calm)
    qed
  qed
qed

lemma perform_delayed_calm: "perform_delayed a s = Some s' \<Longrightarrow> calm s s'"
proof -
  have "post (perform_delayed a s) (calm s)"
    unfolding perform_delayed_def delayed_write_def delayed_update_def
    by (intro post_intros delayed_write_loop_calm delayed_update_loop_calm) simp
  then show "perform_delayed a s = Some s' \<Longrightarrow> calm s s'" by (rule postD)
qed

section \<open>Releasing one lock\<close>

definition no_shared :: "file_lock \<Rightarrow> file_lock" where
  "no_shared n = n\<lparr>fl_prev_shared_rec := None, fl_next_shared_rec := None\<rparr>"

definition shared_only :: "lockmem \<Rightarrow> lockmem \<Rightarrow> bool" where
  "shared_only m m' \<longleftrightarrow> (\<forall>b. map_option no_shared (fl_heap m' b) = map_option no_shared (fl_heap m b)) \<and>
     wr_heap m' = wr_heap m \<and> brk m' = brk m \<and> head_lock_list m' = head_lock_list m"

lemma no_shared_sel [simp]:
  "fl_file_inode (no_shared n) = fl_file_inode n" "fl_file_mode (no_shared n) = fl_file_mode n"
  "fl_flags (no_shared n) = fl_flags n" "fl_parent_txn (no_shared n) = fl_parent_txn n"
  "fl_next_txn (no_shared n) = fl_next_txn n" "fl_next (no_shared n) = fl_next n" "fl_prev (no_shared n) = fl_prev n"
  "no_shared (n\<lparr>fl_prev_shared_rec := p\<rparr>) = no_shared n" "no_shared (n\<lparr>fl_next_shared_rec := p\<rparr>) = no_shared n"
  by (simp_all add: no_shared_def)

lemma shared_only_refl [simp]: "shared_only m m"
  by (simp add: shared_only_def)

lemma shared_only_trans: "shared_only m1 m2 \<Longrightarrow> shared_only m2 m3 \<Longrightarrow> shared_only m1 m3"
  by (simp add: shared_only_def)

lemma shared_only_field:
  assumes "shared_only m m'" and "\<And>n. F (no_shared n) = F n"
  shows "map_option F (fl_heap m' b) = map_option F (fl_heap m b)"
proof -
  have F: "map_option F p = map_option F (map_option no_shared p)" for p
    by (cases p) (simp_all add: assms(2))
  show ?thesis using assms(1) unfolding F [of "fl_heap m b"] F [of "fl_heap m' b"] shared_only_def by simp
qed

lemma shared_only_same_id: "shared_only m m' \<Longrightarrow> same_id {} m m'"
  unfolding same_id_def by (intro allI impI shared_only_field) (simp_all add: fl_id_def)

lemma shared_only_list:
  assumes "shared_only m m'" and "lock_list m xs"
  shows "lock_list m' xs"
proof -
  have "dseg (fl_heap m') (hd xs) (head_lock_list m') xs None = dseg (fl_heap m) (hd xs) (head_lock_list m) xs None"
    using assms(1) by (subst dseg_cong [of xs "fl_heap m'" "fl_heap m"])
      (use assms(1) in \<open>auto simp: shared_only_def intro!: shared_only_field [OF assms(1)]\<close>)
  moreover have "mem_ok m'"
  proof -
    have "fl_heap m' a = None \<longleftrightarrow> fl_heap m a = None" for a
      using same_id_field(5) [OF shared_only_same_id [OF assms(1)]] by simp
    then show ?thesis using assms unfolding lock_list_def mem_ok_def shared_only_def by (metis option.distinct(1) option.exhaust)
  qed
  ultimately show ?thesis using assms by (simp add: lock_list_def)
qed

lemma shared_only_set:
  "fl_set p (\<lambda>x. x\<lparr>fl_next_shared_rec := q\<rparr>) m = Some m' \<Longrightarrow> shared_only m m'"
  "fl_set p (\<lambda>x. x\<lparr>fl_prev_shared_rec := q\<rparr>) m = Some m' \<Longrightarrow> shared_only m m'"
  by (auto simp: fl_set_def shared_only_def Option.bind_eq_Some_conv)

text \<open>A pointer that stays within its inode may be stored.\<close>

lemma shared_ok_set:
  assumes "shared_ok X m" and "fl_set (Some a) g m = Some m'" and "fl_heap m a = Some n"
    and "fl_file_inode (g n) = fl_file_inode n"
    and "\<And>b. fl_next_shared_rec (g n) = Some b \<or> fl_prev_shared_rec (g n) = Some b \<Longrightarrow>
           b < brk m \<and> (\<forall>n'. fl_heap m b = Some n' \<longrightarrow> b \<in> X \<and> fl_file_inode n' = fl_file_inode n)"
  shows "shared_ok X m'"
proof -
  have m': "m' = m\<lparr>fl_heap := (fl_heap m)(a \<mapsto> g n)\<rparr>" using assms(2,3) by (simp add: fl_set_def)
  show ?thesis unfolding shared_ok_def
  proof (intro allI impI)
    fix c k b
    assume k: "fl_heap m' c = Some k" and b: "fl_next_shared_rec k = Some b \<or> fl_prev_shared_rec k = Some b"
    have i: "(\<exists>n0. fl_heap m x = Some n0 \<and> fl_file_inode n0 = fl_file_inode y)" if "fl_heap m' x = Some y" for x y
      using that assms(3,4) by (auto simp: m' split: if_splits)
    have "b < brk m \<and> (\<forall>n'. fl_heap m b = Some n' \<longrightarrow> b \<in> X \<and> fl_file_inode n' = fl_file_inode k)"
    proof (cases "c = a")
      case True
      then have kg: "k = g n" using k by (simp add: m')
      from assms(5) [OF b [unfolded kg]] show ?thesis unfolding kg assms(4) .
    next
      case False
      then have c: "fl_heap m c = Some k" using k by (simp add: m')
      show ?thesis using shared_okD [OF assms(1) c b] by blast
    qed
    then have 1: "b < brk m" and 2: "\<And>n'. fl_heap m b = Some n' \<Longrightarrow> b \<in> X \<and> fl_file_inode n' = fl_file_inode k" by blast+
    have "b \<in> X \<and> fl_file_inode n' = fl_file_inode k" if "fl_heap m' b = Some n'" for n'
      using i [OF that] 2 by metis
    moreover have "b < brk m'" using 1 m' by simp
    ultimately show "b < brk m' \<and> (\<forall>n'. fl_heap m' b = Some n' \<longrightarrow> b \<in> X \<and> fl_file_inode n' = fl_file_inode k)"
      by blast
  qed
qed

lemma unlink_shared_ok:
  assumes "unlink_shared a m = Some m'" and "shared_ok X m"
  shows "shared_only m m' \<and> shared_ok X m'"
proof -
  text \<open>The two kinds of stores: a NULL, or a neighbour's neighbour.\<close>
  have null: "shared_ok X m2" if st: "fl_set (Some b) (\<lambda>x. x\<lparr>fl_next_shared_rec := None\<rparr>) m1 = Some m2 \<or>
      fl_set (Some b) (\<lambda>x. x\<lparr>fl_prev_shared_rec := None\<rparr>) m1 = Some m2" and ok: "shared_ok X m1" for b m1 m2
  proof -
    obtain n where n: "fl_heap m1 b = Some n" using st by (cases "fl_heap m1 b") (auto simp: fl_set_def)
    from st show ?thesis
    proof
      assume s: "fl_set (Some b) (\<lambda>x. x\<lparr>fl_next_shared_rec := None\<rparr>) m1 = Some m2"
      show ?thesis using shared_okD [OF ok n] by (intro shared_ok_set [OF ok s n]) auto
    next
      assume s: "fl_set (Some b) (\<lambda>x. x\<lparr>fl_prev_shared_rec := None\<rparr>) m1 = Some m2"
      show ?thesis using shared_okD [OF ok n] by (intro shared_ok_set [OF ok s n]) auto
    qed
  qed
  obtain n m1 n1 m2 n2 where
    n: "fl_heap m a = Some n"
    and m1: "(if fl_next_shared_rec n = None \<and> fl_prev_shared_rec n \<noteq> None
           then fl_set (fl_prev_shared_rec n) (\<lambda>x. x\<lparr>fl_next_shared_rec := None\<rparr>) m else Some m) = Some m1"
    and n1: "fl_heap m1 a = Some n1"
    and m2: "(if fl_prev_shared_rec n1 = None \<and> fl_next_shared_rec n1 \<noteq> None
           then fl_set (fl_next_shared_rec n1) (\<lambda>x. x\<lparr>fl_prev_shared_rec := None\<rparr>) m1 else Some m1) = Some m2"
    and n2: "fl_heap m2 a = Some n2"
    and m3: "(if fl_next_shared_rec n2 \<noteq> None \<and> fl_prev_shared_rec n2 \<noteq> None
     then do {
       m \<leftarrow> fl_set (fl_prev_shared_rec n2) (\<lambda>x. x\<lparr>fl_next_shared_rec := fl_next_shared_rec n2\<rparr>) m2;
       fl_set (fl_next_shared_rec n2) (\<lambda>x. x\<lparr>fl_prev_shared_rec := fl_prev_shared_rec n2\<rparr>) m }
     else Some m2) = Some m'"
    using assms(1) unfolding unlink_shared_def by (auto simp only: Option.bind_eq_Some_conv)
  have 1: "shared_only m m1 \<and> shared_ok X m1"
    using m1 assms(2) null shared_only_set by (auto split: if_splits)
  have 2: "shared_only m1 m2 \<and> shared_ok X m2"
    using m2 1 null shared_only_set by (auto split: if_splits)
  have 3: "shared_only m2 m' \<and> shared_ok X m'"
  proof (cases "fl_next_shared_rec n2 \<noteq> None \<and> fl_prev_shared_rec n2 \<noteq> None")
    case False
    then have "m' = m2" using m3 by auto
    then show ?thesis using 2 by simp
  next
    case True
    then obtain p q m4 where pq: "fl_prev_shared_rec n2 = Some p" "fl_next_shared_rec n2 = Some q"
      and m4: "fl_set (Some p) (\<lambda>x. x\<lparr>fl_next_shared_rec := Some q\<rparr>) m2 = Some m4"
      and m': "fl_set (Some q) (\<lambda>x. x\<lparr>fl_prev_shared_rec := Some p\<rparr>) m4 = Some m'"
      using m3 by (auto simp: Option.bind_eq_Some_conv)
    have sh: "shared_ok X m2" using 2 by simp
    obtain np where np: "fl_heap m2 p = Some np" using m4 by (auto simp: fl_set_def Option.bind_eq_Some_conv)
    have ip: "fl_file_inode np = fl_file_inode n2" "p < brk m2" "p \<in> X" using shared_okD [OF sh n2, of p] pq np by auto
    have iq: "q < brk m2" "\<And>k. fl_heap m2 q = Some k \<Longrightarrow> q \<in> X \<and> fl_file_inode k = fl_file_inode n2"
      using shared_okD [OF sh n2, of q] pq by auto
    have sh4: "shared_ok X m4"
    proof (rule shared_ok_set [OF sh m4 np])
      fix b
      assume "fl_next_shared_rec (np\<lparr>fl_next_shared_rec := Some q\<rparr>) = Some b \<or>
        fl_prev_shared_rec (np\<lparr>fl_next_shared_rec := Some q\<rparr>) = Some b"
      then consider "b = q" | "fl_prev_shared_rec np = Some b" by auto
      then show "b < brk m2 \<and> (\<forall>n'. fl_heap m2 b = Some n' \<longrightarrow> b \<in> X \<and> fl_file_inode n' = fl_file_inode np)"
      proof cases
        case 1
        then show ?thesis unfolding ip(1) using iq by blast
      next
        case 2
        then show ?thesis using shared_okD [OF sh np] by blast
      qed
    qed simp
    have m4': "m4 = m2\<lparr>fl_heap := (fl_heap m2)(p \<mapsto> np\<lparr>fl_next_shared_rec := Some q\<rparr>)\<rparr>"
      using m4 np by (simp add: fl_set_def)
    obtain nq where nq: "fl_heap m4 q = Some nq" using m' by (auto simp: fl_set_def Option.bind_eq_Some_conv)
    have iq': "fl_file_inode nq = fl_file_inode n2" using nq iq(2) [of nq] ip(1) by (auto simp: m4' split: if_splits)
    have "shared_ok X m'"
    proof (rule shared_ok_set [OF sh4 m' nq])
      fix b
      assume "fl_next_shared_rec (nq\<lparr>fl_prev_shared_rec := Some p\<rparr>) = Some b \<or>
        fl_prev_shared_rec (nq\<lparr>fl_prev_shared_rec := Some p\<rparr>) = Some b"
      then consider "fl_next_shared_rec nq = Some b \<or> fl_prev_shared_rec nq = Some b" | "b = p" by auto
      then show "b < brk m4 \<and> (\<forall>n'. fl_heap m4 b = Some n' \<longrightarrow> b \<in> X \<and> fl_file_inode n' = fl_file_inode nq)"
      proof cases
        case 1
        then show ?thesis using shared_okD [OF sh4 nq] by blast
      next
        case 2
        then show ?thesis using ip iq' by (simp add: m4')
      qed
    qed simp
    then show ?thesis using shared_only_set(1) [OF m4] shared_only_set(2) [OF m'] shared_only_trans by blast
  qed
  show ?thesis using 1 2 3 shared_only_trans by blast
qed

lemma table_ok_delete:
  assumes "table_ok m (us @ a # vs)" and "delete_file_list a m = Some m'"
  shows "table_ok m' (us @ vs) \<and> same_id {a} m m' \<and> fl_heap m' a = None \<and> brk m' = brk m"
proof -
  have ll: "lock_list m (us @ a # vs)" using assms(1) by (simp add: table_ok_def)
  have r: "lock_list m' (us @ vs)" "fl_heap m' a = None" "same_nodes {a} m m'" "brk m' = brk m"
    using delete_file_list_spec [OF ll] assms(2) by auto
  have sid: "same_id {a} m m'" using r(3) by (rule same_id_nodes)
  have "a \<notin> set (us @ vs)" using lock_list_distinct [OF ll] by auto
  then have dis: "{a} \<inter> set (us @ vs) = {}" by simp
  have "inodes_sorted m' (us @ vs)" "compatible m' (us @ vs)"
    using assms(1) inodes_sorted_remove [of m us a vs] compatible_subset [of m "us @ a # vs" "us @ vs"]
    unfolding same_id_sorted [OF sid dis] by (auto simp: table_ok_def)
  moreover have "shared_ok (set (us @ vs)) m'"
    unfolding shared_ok_def
  proof (intro allI impI)
    fix c k b
    assume k: "fl_heap m' c = Some k" and b: "fl_next_shared_rec k = Some b \<or> fl_prev_shared_rec k = Some b"
    have core: "\<exists>k0. fl_heap m x = Some k0 \<and> fl_core k0 = fl_core y" if "fl_heap m' x = Some y" for x y
    proof -
      have "x \<noteq> a" using that r(2) by auto
      then have "map_option fl_core (fl_heap m x) = Some (fl_core y)"
        using r(3) that unfolding same_nodes_def by (metis option.simps(9) singletonD)
      then show ?thesis by auto
    qed
    obtain k0 where k0: "fl_heap m c = Some k0" "fl_core k0 = fl_core k" using core [OF k] by blast
    have e: "fl_next_shared_rec k0 = fl_next_shared_rec k" "fl_prev_shared_rec k0 = fl_prev_shared_rec k"
        "fl_file_inode k0 = fl_file_inode k"
      using arg_cong [OF k0(2), of fl_next_shared_rec] arg_cong [OF k0(2), of fl_prev_shared_rec]
        arg_cong [OF k0(2), of fl_file_inode] by simp_all
    have b0: "fl_next_shared_rec k0 = Some b \<or> fl_prev_shared_rec k0 = Some b" using b e by simp
    have sh: "shared_ok (set (us @ a # vs)) m" using assms(1) by (simp add: table_ok_def)
    have "b \<in> set (us @ vs) \<and> fl_file_inode n' = fl_file_inode k" if n': "fl_heap m' b = Some n'" for n'
    proof -
      obtain j where j: "fl_heap m b = Some j" "fl_core j = fl_core n'" using core [OF n'] by blast
      have "fl_file_inode j = fl_file_inode n'" using arg_cong [OF j(2), of fl_file_inode] by simp
      moreover have "b \<noteq> a" using n' r(2) by auto
      ultimately show ?thesis using shared_okD(2,3) [OF sh k0(1) b0 j(1)] e(3) by simp
    qed
    moreover have "b < brk m'" using shared_okD(1) [OF sh k0(1) b0] r(4) by simp
    ultimately show "b < brk m' \<and> (\<forall>n'. fl_heap m' b = Some n' \<longrightarrow> b \<in> set (us @ vs) \<and> fl_file_inode n' = fl_file_inode k)" by blast
  qed
  ultimately show ?thesis using r sid by (simp add: table_ok_def)
qed

text \<open>Closing a file only adds to the calls made.\<close>

definition only_calls :: "(int \<Rightarrow> server \<Rightarrow> server) \<Rightarrow> bool" where
  "only_calls cl \<longleftrightarrow> (\<forall>fd s. \<exists>cs. cl fd s = s\<lparr>fs_calls := cs\<rparr>)"

lemma only_calls_close_if [simp]: "only_calls (close_if P c)" "only_calls (\<lambda>fd s. s)"
proof -
  have "s = s\<lparr>fs_calls := fs_calls s\<rparr>" for s :: server by simp
  then have "\<exists>cs. s = s\<lparr>fs_calls := cs\<rparr>" for s :: server by blast
  then show "only_calls (close_if P c)" "only_calls (\<lambda>fd s. s)"
    unfolding only_calls_def close_if_def emit_def by auto
qed

lemma only_callsD:
  assumes "only_calls cl"
  shows "lk (cl fd s) = lk s" "quiet s (cl fd s)" "head_wait_list (cl fd s) = head_wait_list s"
proof -
  obtain cs where "cl fd s = s\<lparr>fs_calls := cs\<rparr>" using assms by (auto simp: only_calls_def)
  then show "lk (cl fd s) = lk s" "quiet s (cl fd s)" "head_wait_list (cl fd s) = head_wait_list s"
    by (simp_all add: quiet_def)
qed

lemma wake_up_quiet: "post (wake_up f s) (\<lambda>s'. quiet s s' \<and> lk s' = lk s)"
  unfolding wake_up_def set_wait_def by (intro post_intros) (simp add: quiet_def)

text \<open>One lock is released: its record leaves the list, the others stay.\<close>

definition released :: "addr set \<Rightarrow> addr list \<Rightarrow> server \<Rightarrow> server \<Rightarrow> bool" where
  "released A xs s s' \<longleftrightarrow> table_ok (lk s') xs \<and> same_id A (lk s) (lk s') \<and> quiet s s' \<and> brk (lk s') = brk (lk s)"

lemma release_node_ok:
  assumes t: "table_ok (lk s) (us @ a # vs)" and cl: "only_calls c0" "only_calls c1"
  shows "post (release_node c0 c1 a s) (released {a} (us @ vs) s)"
proof -
  have del: "released {a} (us @ vs) s s2"
    if m: "delete_file_list a (lk s1) = Some m" and tk: "table_ok (lk s1) (us @ a # vs)" and q: "quiet s s2"
      and b: "brk (lk s1) = brk (lk s)" and i: "same_id {} (lk s) (lk s1)" and l: "lk s2 = m" for s1 m s2
    using table_ok_delete [OF tk m] q l b same_id_trans [OF i] by (auto simp: released_def)
  have wk: "post (wake_up f (s1\<lparr>lk := m\<rparr>)) (released {a} (us @ vs) s)"
    if "delete_file_list a (lk s1) = Some m" "lk s1 = lk s" "quiet s s1" for f s1 m
    using wake_up_quiet [of f "s1\<lparr>lk := m\<rparr>"] that t
    by (elim post_weaken) (auto intro!: del [of s1 m] intro: quiet_trans)
  show ?thesis
    unfolding release_node_def
  proof (intro post_intros)
    fix n m
    assume "delete_file_list a (lk (c0 (fl_fd n) s)) = Some m"
    then show "released {a} (us @ vs) s ((c0 (fl_fd n) s)\<lparr>lk := m\<rparr>)"
      using only_callsD [OF cl(1)] t by (intro del [of "c0 (fl_fd n) s" m]) auto
  next
    fix n w m
    assume "delete_file_list a (lk (c1 (fl_fd n) s)) = Some m"
    then show "post (wake_up (wn_file_inode w) ((c1 (fl_fd n) s)\<lparr>lk := m\<rparr>)) (released {a} (us @ vs) s)"
      "post (wake_up (wn_file_inode w) ((c1 (fl_fd n) s)\<lparr>lk := m\<rparr>)) (released {a} (us @ vs) s)"
      using only_callsD [OF cl(2)] by (auto intro: wk)
  next
    fix n w m0 m
    assume u: "unlink_shared a (lk s) = Some m0"
      and m: "delete_file_list a (lk (c1 (fl_fd n) (s\<lparr>lk := m0\<rparr>))) = Some m"
    have sh: "shared_only (lk s) m0" "shared_ok (set (us @ a # vs)) m0" using unlink_shared_ok [OF u] t by (auto simp: table_ok_def)
    have "table_ok m0 (us @ a # vs)"
      using t sh shared_only_list [OF sh(1)] same_id_sorted [OF shared_only_same_id [OF sh(1)], of "us @ a # vs"]
      by (simp add: table_ok_def)
    moreover have "quiet s (c1 (fl_fd n) (s\<lparr>lk := m0\<rparr>))" using only_callsD(2) [OF cl(2), of "s\<lparr>lk := m0\<rparr>" "fl_fd n"] by simp
    ultimately show "released {a} (us @ vs) s ((c1 (fl_fd n) (s\<lparr>lk := m0\<rparr>))\<lparr>lk := m\<rparr>)"
      using m only_callsD(1) [OF cl(2), of "fl_fd n" "s\<lparr>lk := m0\<rparr>"] sh(1) shared_only_same_id [OF sh(1)]
      by (intro del [of "c1 (fl_fd n) (s\<lparr>lk := m0\<rparr>)" m]) (auto simp: shared_only_def)
  qed
qed

lemma released_trans: "released A xs s1 s2 \<Longrightarrow> released B ys s2 s3 \<Longrightarrow> released (A \<union> B) ys s1 s3"
  unfolding released_def using quiet_trans same_id_trans by metis

lemma calm_released: "calm s s' \<Longrightarrow> table_ok (lk s) xs \<Longrightarrow> released {} xs s s'"
  by (auto simp: calm_def released_def intro: writes_only_table writes_only_same_id) (simp add: writes_only_def)

lemma release_step:
  assumes t: "table_ok (lk s) xs" and p: "lpath (fl_heap (lk s)) fl_next_txn p (a # as) None" and sub: "set (a # as) \<subseteq> set xs"
    and c: "calm s s1" and n: "fl_heap (lk s1) a = Some n" and r: "released {a} (remove1 a xs) s1 s2"
  shows "released {a} (remove1 a xs) s s2" "lpath (fl_heap (lk s2)) fl_next_txn (fl_next_txn n) as None"
    "set as \<subseteq> set (remove1 a xs)"
proof -
  have r1: "released {} xs s s1" using calm_released [OF c t] .
  show "released {a} (remove1 a xs) s s2" using released_trans [OF r1 r] by simp
  have dist: "a \<notin> set as" using lpath_distinct [OF p] by simp
  have "lpath (fl_heap (lk s1)) fl_next_txn p (a # as) None"
    using p r1 by (subst same_id_path [of "{}" "lk s" "lk s1"]) (simp_all only: released_def Int_empty_left)
  then have "lpath (fl_heap (lk s1)) fl_next_txn (fl_next_txn n) as None" using n by simp
  then show "lpath (fl_heap (lk s2)) fl_next_txn (fl_next_txn n) as None"
    using same_id_path [of "{a}" "lk s1" "lk s2" as] r dist by (simp add: released_def)
  show "set as \<subseteq> set (remove1 a xs)" 
  proof
    fix x
    assume "x \<in> set as"
    then have "x \<noteq> a" "x \<in> set xs" using sub dist by auto
    then show "x \<in> set (remove1 a xs)" by simp
  qed
qed

lemma remove1_split: "distinct xs \<Longrightarrow> a \<in> set xs \<Longrightarrow> \<exists>us vs. xs = us @ a # vs \<and> remove1 a xs = us @ vs"
proof -
  assume "a \<in> set xs"
  then obtain us vs where "xs = us @ a # vs" "a \<notin> set us" using split_list_first [of a xs] by blast
  then have "xs = us @ a # vs \<and> remove1 a xs = us @ vs" by (simp add: remove1_append)
  then show ?thesis by blast
qed

lemma release_node_remove:
  assumes "table_ok (lk s) xs" and "a \<in> set xs" and "only_calls c0" "only_calls c1"
  shows "post (release_node c0 c1 a s) (released {a} (remove1 a xs) s)"
proof -
  have "distinct xs" using assms(1) lock_list_distinct by (auto simp: table_ok_def)
  then obtain us vs where "xs = us @ a # vs" "remove1 a xs = us @ vs" using remove1_split assms(2) by metis
  then show ?thesis using release_node_ok [of s us a vs c0 c1] assms by simp
qed

lemma filter_remove1: "distinct xs \<Longrightarrow> filter (\<lambda>x. x \<notin> set as) (remove1 a xs) = filter (\<lambda>x. x \<notin> set (a # as)) xs"
  unfolding distinct_remove1_removeAll removeAll_filter_not_eq filter_filter
  by (rule filter_cong) auto

lemma release_success_loop_ok:
  "table_ok (lk s) xs \<Longrightarrow> lpath (fl_heap (lk s)) fl_next_txn p as None \<Longrightarrow> set as \<subseteq> set xs \<Longrightarrow>
   post (release_success_loop k t p s) (released (set as) (filter (\<lambda>x. x \<notin> set as) xs) s)"
proof (induction as arbitrary: k p s xs)
  case Nil
  have "released {} xs s s" using Nil(1) by (simp add: released_def)
  then show ?case using Nil by (cases k) (simp_all add: post_None post_Some)
next
  case (Cons a as)
  have p: "p = Some a" using Cons.prems(2) by simp
  have dist: "distinct xs" using Cons.prems(1) lock_list_distinct by (auto simp: table_ok_def)
  show ?case
  proof (cases k)
    case 0
    then show ?thesis by (simp add: post_None)
  next
    case (Suc k')
    show ?thesis unfolding Suc p release_success_loop.simps option.case
    proof (rule post_bind)+
      fix s1 n s2
      assume d: "perform_delayed a s = Some s1" and n: "fl_heap (lk s1) a = Some n"
        and r: "release_node (close_if (\<lambda>fd. fd > 0) (\<lambda>fd. Tr_close fd t)) (close_if (\<lambda>fd. fd \<noteq> 0) (\<lambda>fd. Tr_close fd t)) a s1 = Some s2"
      note c = perform_delayed_calm [OF d]
      have "table_ok (lk s1) xs" using calm_released [OF c Cons.prems(1)] by (simp add: released_def)
      then have r1: "released {a} (remove1 a xs) s1 s2"
        using Cons.prems(3) by (intro postD [OF release_node_remove r]) simp_all
      note rs = release_step [OF Cons.prems(1) Cons.prems(2) Cons.prems(3) c n r1]
      have "post (release_success_loop k' t (fl_next_txn n) s2) (released (set as) (filter (\<lambda>x. x \<notin> set as) (remove1 a xs)) s2)"
        using rs by (intro Cons.IH) (auto simp: released_def)
      then show "post (release_success_loop k' t (fl_next_txn n) s2) (released (set (a # as)) (filter (\<lambda>x. x \<notin> set (a # as)) xs) s)"
        unfolding filter_remove1 [OF dist] by (rule post_weaken) (use released_trans [OF rs(1)] in simp)
    qed
  qed
qed

lemma release_abort_loop_ok:
  "table_ok (lk s) xs \<Longrightarrow> lpath (fl_heap (lk s)) fl_next_txn p as None \<Longrightarrow> set as \<subseteq> set xs \<Longrightarrow>
   post (release_abort_loop k t p s) (released (set as) (filter (\<lambda>x. x \<notin> set as) xs) s)"
proof (induction as arbitrary: k p s xs)
  case Nil
  have "released {} xs s s" using Nil(1) by (simp add: released_def)
  then show ?case using Nil by (cases k) (simp_all add: post_None post_Some)
next
  case (Cons a as)
  have p: "p = Some a" using Cons.prems(2) by simp
  have dist: "distinct xs" using Cons.prems(1) lock_list_distinct by (auto simp: table_ok_def)
  show ?case
  proof (cases k)
    case 0
    then show ?thesis by (simp add: post_None)
  next
    case (Suc k')
    show ?thesis unfolding Suc p release_abort_loop.simps option.case
    proof (rule post_bind)+
      fix n0 m s2
      assume n0: "fl_heap (lk s) a = Some n0"
        and m: "(if fl_flags n0 \<noteq> 0 \<and> fl_writes_at n0 \<noteq> None then free_write_at a (lk s) else Some (lk s)) = Some m"
        and r: "release_node (close_if (\<lambda>fd. fd \<ge> 0) (\<lambda>fd. Tr_close_abort fd t)) (close_if (\<lambda>fd. fd \<ge> 0) (\<lambda>fd. Tr_close_abort fd t)) a
              (s\<lparr>lk := m\<rparr>) = Some s2"
      have w: "writes_only (lk s) m" using m free_write_at_writes by (auto split: if_splits)
      then have c: "calm s (s\<lparr>lk := m\<rparr>)" by (rule calm_lk)
      obtain n where n: "fl_heap m a = Some n" "no_writes n = no_writes n0" using writes_only_Some [OF w n0] by blast
      have nx: "fl_next_txn n = fl_next_txn n0" using no_writes_eqD(2) [OF n(2)] .
      have "table_ok (lk (s\<lparr>lk := m\<rparr>)) xs" using calm_released [OF c Cons.prems(1)] by (simp add: released_def)
      then have r1: "released {a} (remove1 a xs) (s\<lparr>lk := m\<rparr>) s2"
        using Cons.prems(3) by (intro postD [OF release_node_remove r]) simp_all
      have n': "fl_heap (lk (s\<lparr>lk := m\<rparr>)) a = Some n" using n(1) by simp
      note rs = release_step [OF Cons.prems(1) Cons.prems(2) Cons.prems(3) c n' r1, unfolded nx]
      have "post (release_abort_loop k' t (fl_next_txn n0) s2) (released (set as) (filter (\<lambda>x. x \<notin> set as) (remove1 a xs)) s2)"
        using rs by (intro Cons.IH) (auto simp: released_def)
      then show "post (release_abort_loop k' t (fl_next_txn n0) s2) (released (set (a # as)) (filter (\<lambda>x. x \<notin> set (a # as)) xs) s)"
        unfolding filter_remove1 [OF dist] by (rule post_weaken) (use released_trans [OF rs(1)] in simp)
    qed
  qed
qed

section \<open>Releasing all locks of a transaction\<close>

lemma txn_view_sorted: "sorted_wrt (<) (map fst (txn_view ts)) = txns_ok ts"
  by (simp add: txn_view_def txns_ok_def comp_def)

lemma txn_view_find: "find_txn t ts = Some n \<Longrightarrow> (t, tn_file_rec_no n) \<in> set (txn_view ts)"
  by (auto simp: txn_view_def dest: find_txn_SomeD)

lemma txn_view_upd:
  assumes "txns_ok ts" and "upd_txn t g ts = Some ts'" and "\<And>n. tn_txn_id (g n) = tn_txn_id n"
  shows "map fst (txn_view ts') = map fst (txn_view ts)"
    "(u, p) \<in> set (txn_view ts') \<Longrightarrow> u \<noteq> t \<Longrightarrow> (u, p) \<in> set (txn_view ts)"
    "(t, p) \<in> set (txn_view ts') \<Longrightarrow> \<exists>n. find_txn t ts = Some n \<and> p = tn_file_rec_no (g n)"
proof -
  show "map fst (txn_view ts') = map fst (txn_view ts)"
    using upd_txn_ids [OF assms(3,2)] by (simp add: txn_view_def comp_def)
  have ok': "txns_ok ts'" using txns_ok_upd [OF assms(1,3,2)] .
  have f: "find_txn u ts' = (if u = t then map_option g (find_txn u ts) else find_txn u ts)" for u
    using find_upd_txn [OF assms(3,2)] .
  show "(u, p) \<in> set (txn_view ts)" if up: "(u, p) \<in> set (txn_view ts')" and ne: "u \<noteq> t"
  proof -
    obtain n where n: "n \<in> set ts'" "u = tn_txn_id n" "p = tn_file_rec_no n" using up by (auto simp: txn_view_def)
    then have "find_txn u ts = Some n" using txns_ok_find [OF ok' n(1)] f [of u] ne by simp
    then show ?thesis using txn_view_find n(3) by blast
  qed
  show "\<exists>n. find_txn t ts = Some n \<and> p = tn_file_rec_no (g n)" if tp: "(t, p) \<in> set (txn_view ts')"
  proof -
    obtain n where n: "n \<in> set ts'" "t = tn_txn_id n" "p = tn_file_rec_no n" using tp by (auto simp: txn_view_def)
    then have "Some n = map_option g (find_txn t ts)" using txns_ok_find [OF ok' n(1)] f [of t] by simp
    then show ?thesis using n(3) by (cases "find_txn t ts") auto
  qed
qed

lemma lock_inv_release:
  assumes inv: "lock_inv s xs" and n: "find_txn t (head_txn_list s) = Some n"
    and s1: "set_txn t (\<lambda>n. n\<lparr>tn_file_rec_no := None\<rparr>) s = Some s1"
    and loop: "\<And>as k. table_ok (lk s) xs \<Longrightarrow> lpath (fl_heap (lk s)) fl_next_txn (tn_file_rec_no n) as None \<Longrightarrow>
        set as \<subseteq> set xs \<Longrightarrow> post (L k) (released (set as) (filter (\<lambda>x. x \<notin> set as) xs) (flush_log s1))"
  shows "post (L k) (\<lambda>s'. lock_inv s' (filter (\<lambda>a. parent_of (lk s) a \<noteq> t) xs) \<and>
     owned (lk s') (filter (\<lambda>a. parent_of (lk s) a \<noteq> t) xs) t = {} \<and>
     same_id (owned (lk s) xs t) (lk s) (lk s') \<and> quiet s1 s' \<and> brk (lk s') = brk (lk s))"
proof -
  let ?ts = "head_txn_list s" and ?own = "owned (lk s) xs t" and ?ys = "filter (\<lambda>a. parent_of (lk s) a \<noteq> t) xs"
  have tb: "table_ok (lk s) xs" and ow: "owner_ok (lk s) (txn_view ?ts) xs" using inv by (auto simp: lock_inv_def)
  obtain as where as: "lpath (fl_heap (lk s)) fl_next_txn (tn_file_rec_no n) as None" "set as = ?own"
    using ow txn_view_find [OF n] by (auto simp: owner_ok_def)
  have ys: "filter (\<lambda>x. x \<notin> set as) xs = ?ys" by (rule filter_cong) (auto simp: as(2) owned_def)
  have sub: "set as \<subseteq> set xs" by (auto simp: as(2) owned_def)
  obtain ts1 where ts1: "upd_txn t (\<lambda>n. n\<lparr>tn_file_rec_no := None\<rparr>) ?ts = Some ts1" "s1 = s\<lparr>head_txn_list := ts1\<rparr>"
    using s1 by (auto simp: set_txn_def Option.bind_eq_Some_conv)
  have ok: "txns_ok ?ts" using ow txn_view_sorted by (auto simp: owner_ok_def)
  note v = txn_view_upd [OF ok ts1(1)]
  show ?thesis
  proof (rule post_weaken [OF loop [OF tb as(1) sub]])
    fix s'
    assume "released (set as) (filter (\<lambda>x. x \<notin> set as) xs) (flush_log s1) s'"
    then have "released ?own ?ys (flush_log s1) s'" by (simp only: ys) (simp only: as(2))
    then have r: "table_ok (lk s') ?ys" "same_id ?own (lk s) (lk s')" "quiet (flush_log s1) s'" "brk (lk s') = brk (lk s)"
      unfolding released_def by (simp_all add: ts1(2) flush_log_def emit_def)
    have tl: "head_txn_list s' = ts1" using r(3) by (simp add: quiet_def flush_log_def emit_def ts1(2))
    have par: "parent_of (lk s') a = parent_of (lk s) a" if "a \<in> set ?ys" for a
      using that r(2) by (intro same_id_view) (auto simp: owned_def)
    have own': "owned (lk s') ?ys u = (if u = t then {} else owned (lk s) xs u)" for u
    proof -
      have "a \<in> set ?ys \<and> parent_of (lk s') a = u \<longleftrightarrow> a \<in> set ?ys \<and> parent_of (lk s) a = u" for a
        using par [of a] by metis
      then show ?thesis unfolding owned_def by auto
    qed
    have "owner_ok (lk s') (txn_view ts1) ?ys"
      unfolding owner_ok_def
    proof (intro conjI ballI)
      show "sorted_wrt (<) (map fst (txn_view ts1))" using v(1) ow by (simp add: owner_ok_def)
      show "parent_of (lk s') a \<in> fst ` set (txn_view ts1)" if "a \<in> set ?ys" for a
      proof -
        have "\<forall>a \<in> set xs. parent_of (lk s) a \<in> fst ` set (txn_view ?ts)" using ow by (simp add: owner_ok_def)
        moreover have "fst ` set (txn_view ts1) = fst ` set (txn_view ?ts)" using arg_cong [OF v(1), of set] by simp
        ultimately show ?thesis using par [OF that] that by simp
      qed
      fix up
      assume up: "up \<in> set (txn_view ts1)"
      obtain u p where [simp]: "up = (u, p)" by (cases up)
      show "case up of (u, p) \<Rightarrow> \<exists>as. lpath (fl_heap (lk s')) fl_next_txn p as None \<and> set as = owned (lk s') ?ys u"
      proof (cases "u = t")
        case True
        then have "p = None" using v(3) [of p] up by auto
        then show ?thesis using True own' [of t] by auto
      next
        case False
        then have "(u, p) \<in> set (txn_view ?ts)" using v(2) up by auto
        then obtain bs where bs: "lpath (fl_heap (lk s)) fl_next_txn p bs None" "set bs = owned (lk s) xs u"
          using ow by (auto simp: owner_ok_def)
        have "?own \<inter> set bs = {}" using bs(2) False by (auto simp: owned_def)
        then have "lpath (fl_heap (lk s')) fl_next_txn p bs None" using same_id_path [OF r(2)] bs(1) by simp
        then show ?thesis using bs(2) own' [of u] False by auto
      qed
    qed
    then have "lock_inv s' ?ys" using r(1) tl by (simp add: lock_inv_def)
    moreover have "quiet s1 s'" using r(3) by (simp add: quiet_def flush_log_def emit_def)
    ultimately show "lock_inv s' ?ys \<and> owned (lk s') ?ys t = {} \<and> same_id ?own (lk s) (lk s') \<and> quiet s1 s' \<and> brk (lk s') = brk (lk s)"
      using own' [of t] r(2,4) by simp
  qed
qed

definition released_all :: "int \<Rightarrow> addr list \<Rightarrow> server \<Rightarrow> server \<Rightarrow> bool" where
  "released_all t xs s s' \<longleftrightarrow>
     lock_inv s' (filter (\<lambda>a. parent_of (lk s) a \<noteq> t) xs) \<and>
     owned (lk s') (filter (\<lambda>a. parent_of (lk s) a \<noteq> t) xs) t = {} \<and>
     same_id (owned (lk s) xs t) (lk s) (lk s') \<and>
     (\<exists>s1. set_txn t (\<lambda>n. n\<lparr>tn_file_rec_no := None\<rparr>) s = Some s1 \<and> quiet s1 s') \<and> brk (lk s') = brk (lk s)"

lemma release_locks_ok:
  assumes inv: "lock_inv s xs"
  shows "post (release_locks_on_success t s) (released_all t xs s)" "post (release_locks_on_abort t s) (released_all t xs s)"
proof -
  have "post (release_success_loop k t (tn_file_rec_no n) (flush_log s1)) (released_all t xs s)"
       "post (release_abort_loop k t (tn_file_rec_no n) (flush_log s1)) (released_all t xs s)"
    if n: "find_txn t (head_txn_list s) = Some n" and s1: "set_txn t (\<lambda>n. n\<lparr>tn_file_rec_no := None\<rparr>) s = Some s1" for n s1 k
  proof -
    have e: "lk (flush_log s1) = lk s"
      using s1 by (auto simp: set_txn_def Option.bind_eq_Some_conv flush_log_def emit_def)
    have 1: "post (release_success_loop k t (tn_file_rec_no n) (flush_log s1)) (released (set as) (filter (\<lambda>x. x \<notin> set as) xs) (flush_log s1))"
      and 2: "post (release_abort_loop k t (tn_file_rec_no n) (flush_log s1)) (released (set as) (filter (\<lambda>x. x \<notin> set as) xs) (flush_log s1))"
      if "table_ok (lk s) xs" "lpath (fl_heap (lk s)) fl_next_txn (tn_file_rec_no n) as None" "set as \<subseteq> set xs" for as k
      using that by (auto intro!: release_success_loop_ok release_abort_loop_ok simp: e)
    show "post (release_success_loop k t (tn_file_rec_no n) (flush_log s1)) (released_all t xs s)"
      by (rule post_weaken [OF lock_inv_release [OF inv n s1]], rule 1) (use s1 in \<open>auto simp: released_all_def\<close>)
    show "post (release_abort_loop k t (tn_file_rec_no n) (flush_log s1)) (released_all t xs s)"
      by (rule post_weaken [OF lock_inv_release [OF inv n s1]], rule 2) (use s1 in \<open>auto simp: released_all_def\<close>)
  qed
  then show "post (release_locks_on_success t s) (released_all t xs s)" "post (release_locks_on_abort t s) (released_all t xs s)"
    unfolding release_locks_on_success_def release_locks_on_abort_def by (intro post_bind; blast)+
qed

end
