(* ===== verification/TxnEnd.thy ===== *)
theory TxnEnd
  imports LockTable
begin

text \<open>
  The end of a transaction as a whole: \<open>on_txn_commit\<close> and \<open>on_txn_abort\<close> keep the invariants of
  the log and of the lock table together, take all locks of the transaction and nothing else,
  and, where its locks are exclusive, always return, waking every transaction that waits for
  one of the files.
\<close>

section \<open>The log and the locks do not touch each other\<close>

lemma txn_view_set:
  "set_txn t g s = Some s' \<Longrightarrow> (\<And>n. tn_txn_id (g n) = tn_txn_id n) \<Longrightarrow> (\<And>n. tn_file_rec_no (g n) = tn_file_rec_no n) \<Longrightarrow>
   txn_view (head_txn_list s') = txn_view (head_txn_list s)"
proof -
  assume s: "set_txn t g s = Some s'" and g: "\<And>n. tn_txn_id (g n) = tn_txn_id n" "\<And>n. tn_file_rec_no (g n) = tn_file_rec_no n"
  have "upd_txn t g ts = Some ts' \<Longrightarrow> txn_view ts' = txn_view ts" for ts ts'
    by (induction ts arbitrary: ts') (auto simp: txn_view_def g Option.bind_eq_Some_conv split: if_splits)
  then show ?thesis using s by (auto simp: set_txn_def Option.bind_eq_Some_conv)
qed

definition log_only :: "server \<Rightarrow> server \<Rightarrow> bool" where
  "log_only s s' \<longleftrightarrow> lk s' = lk s \<and> head_wait_list s' = head_wait_list s \<and>
     txn_view (head_txn_list s') = txn_view (head_txn_list s) \<and> BACKUP s' = BACKUP s \<and> pz s' = pz s"

lemma log_only_lock_inv: "log_only s s' \<Longrightarrow> lock_inv s' xs = lock_inv s xs"
  by (simp add: log_only_def lock_inv_def)

lemma update_txn_only: "update_txn t l s = Some s' \<Longrightarrow> log_only s s'"
  unfolding update_txn_def log_only_def using txn_view_set [of t _ s s']
  by (auto simp: set_txn_def Option.bind_eq_Some_conv)

lemma log_linked_only: "log_linked t r s = Some s' \<Longrightarrow> log_only s s'"
proof -
  assume l: "log_linked t r s = Some s'"
  obtain ts where ts: "upd_txn t (\<lambda>n. n\<lparr>tn_last_LRN := lr_LRN r\<rparr>) (head_txn_list s) = Some ts"
    and s': "s' = s\<lparr>head_txn_list := ts, event_log := append_record r (patch_next (lr_prev_LRN r) (lr_LRN r) (event_log s)),
             fs_calls := fs_calls s @ [Flush_log]\<rparr>"
    using l by (auto simp: log_linked_def Option.bind_eq_Some_conv)
  have "txn_view ts = txn_view (head_txn_list s)"
    using txn_view_set [of t "\<lambda>n. n\<lparr>tn_last_LRN := lr_LRN r\<rparr>" s "s\<lparr>head_txn_list := ts\<rparr>"] ts by (simp add: set_txn_def)
  then show ?thesis by (simp add: s' log_only_def)
qed

lemma log_linked_free: "log_linked t r s = Some s' \<Longrightarrow> log_mutex s' = log_mutex s \<and> log_dev_ok s' = log_dev_ok s"
  by (auto simp: log_linked_def Option.bind_eq_Some_conv)

lemma log_inv_quiet: "log_inv s rs \<Longrightarrow> quiet s s' \<Longrightarrow> log_inv s' rs"
  by (simp add: log_inv_def quiet_def)

lemma chain_end_cong: "tn_last_LRN n' = tn_last_LRN n \<Longrightarrow> tn_txn_id n' = tn_txn_id n \<Longrightarrow> chain_end rs n' = chain_end rs n"
  by (simp add: chain_end_def)

lemma log_inv_set_rec:
  assumes "log_inv s rs" and "set_txn t g s = Some s'" and "\<And>n. tn_txn_id (g n) = tn_txn_id n" and "\<And>n. tn_last_LRN (g n) = tn_last_LRN n"
  shows "log_inv s' rs"
proof -
  obtain ts where ts: "upd_txn t g (head_txn_list s) = Some ts" "s' = s\<lparr>head_txn_list := ts\<rparr>"
    using assms(2) by (auto simp: set_txn_def Option.bind_eq_Some_conv)
  have "upd_txn t g us = Some us' \<Longrightarrow> \<forall>n \<in> set us. chain_end rs n \<Longrightarrow> \<forall>n \<in> set us'. chain_end rs n" for us us'
  proof (induction us arbitrary: us')
    case Nil
    then show ?case by simp
  next
    case (Cons n us)
    have "chain_end rs (g n)" using Cons.prems(2) assms(3,4) by (simp add: chain_end_def)
    then show ?case using Cons by (auto simp: Option.bind_eq_Some_conv split: if_splits)
  qed
  then show ?thesis
    using assms(1) ts txns_ok_upd [OF _ assms(3) ts(1)] by (auto simp: log_inv_def)
qed

lemma find_set_rec:
  assumes "set_txn t g s = Some s'" and "\<And>n. tn_txn_id (g n) = tn_txn_id n"
  shows "find_txn u (head_txn_list s') = (if u = t then map_option g (find_txn u (head_txn_list s)) else find_txn u (head_txn_list s))"
  using assms find_upd_txn [OF assms(2)] by (auto simp: set_txn_def Option.bind_eq_Some_conv)

lemma lock_inv_delete:
  assumes "lock_inv s xs" and "owned (lk s) xs t = {}" and "txn_delete t s = Some s'"
  shows "lock_inv s' xs"
proof -
  obtain ts where ts: "delete_txn t (head_txn_list s) = Some ts" "s' = s\<lparr>head_txn_list := ts\<rparr>"
    using assms(3) by (auto simp: txn_delete_def Option.bind_eq_Some_conv)
  have ow: "owner_ok (lk s) (txn_view (head_txn_list s)) xs" using assms(1) by (simp add: lock_inv_def)
  then have ok: "txns_ok (head_txn_list s)" using txn_view_sorted by (auto simp: owner_ok_def)
  have ok': "txns_ok ts" using txns_ok_delete [OF ok ts(1)] .
  have sub: "set (txn_view ts) \<subseteq> set (txn_view (head_txn_list s))"
    using delete_txn_subset [OF ts(1)] by (auto simp: txn_view_def)
  have "parent_of (lk s) a \<in> fst ` set (txn_view ts)" if a: "a \<in> set xs" for a
  proof -
    have ne: "parent_of (lk s) a \<noteq> t" using assms(2) a by (auto simp: owned_def)
    obtain n where n: "n \<in> set (head_txn_list s)" "tn_txn_id n = parent_of (lk s) a"
      using ow a by (force simp: owner_ok_def txn_view_def)
    then have "find_txn (parent_of (lk s) a) ts = Some n"
      using find_delete_other [OF ts(1) ne] txns_ok_find [OF ok n(1)] by simp
    then show ?thesis using txn_view_find by force
  qed
  then have "owner_ok (lk s) (txn_view ts) xs"
    using ow sub ok' txn_view_sorted unfolding owner_ok_def by blast
  then show ?thesis using assms(1) ts(2) by (simp add: lock_inv_def)
qed

section \<open>Commit and abort\<close>

text \<open>What both handlers do after the record \<open>ty\<close> is logged.\<close>

lemma finish_ok:
  assumes L: "lock_inv s xs" "log_inv s rs" "find_txn t (head_txn_list s) = Some n" "in_s32 t"
    and free: "\<not> log_mutex s" "log_dev_ok s" and size: "log_size s < 9223372036854775000"
    and l: "log_linked t (mk_record s n ty (- 1) (- 1) NA NA) s = Some s1"
    and r: "released_all t xs s1 s2" and p: "get_prev_log_LRN t s2 = Some prev"
    and d: "txn_delete t s2 = Some s3" and e: "log_txn_end t prev s3 = Some (lrn, s')"
  shows "find_txn t (head_txn_list s') = None \<and> \<not> log_mutex s' \<and> log_dev_ok s' \<and>
     lock_inv s' (filter (\<lambda>a. parent_of (lk s) a \<noteq> t) xs) \<and> same_id (owned (lk s) xs t) (lk s) (lk s') \<and>
     log_inv s' (set_next (log_size s) (log_size s1)
        (set_next (tn_last_LRN n) (log_size s) rs @ [mk_record s n ty (- 1) (- 1) NA NA]) @ [end_record s1 t (log_size s)])"
proof -
  let ?r = "mk_record s n ty (- 1) (- 1) NA NA" and ?ys = "filter (\<lambda>a. parent_of (lk s) a \<noteq> t) xs"
  have only: "log_only s s1" using log_linked_only [OF l] .
  have I1: "log_inv s1 (set_next (tn_last_LRN n) (log_size s) rs @ [?r])"
  proof -
    have "\<exists>s'. log_linked t ?r s = Some s' \<and> log_inv s' (set_next (tn_last_LRN n) (log_size s) rs @ [?r])"
      by (rule log_op_chained [OF L(2,3,4)]) (use size in simp_all)
    then show ?thesis using l by simp
  qed
  obtain sr where sr: "set_txn t (\<lambda>n. n\<lparr>tn_file_rec_no := None\<rparr>) s1 = Some sr" "quiet sr s2"
    using r by (auto simp: released_all_def)
  have I2: "log_inv s2 (set_next (tn_last_LRN n) (log_size s) rs @ [?r])"
    using log_inv_quiet [OF log_inv_set_rec [OF I1 sr(1)] sr(2)] by simp
  have lkeq: "lk s1 = lk s" using only by (simp add: log_only_def)
  have r': "lock_inv s2 ?ys" "owned (lk s2) ?ys t = {}" "same_id (owned (lk s) xs t) (lk s) (lk s2)"
    using r by (simp_all add: released_all_def lkeq)
  obtain n1 where n1: "find_txn t (head_txn_list s1) = Some n1" "tn_last_LRN n1 = log_size s"
  proof -
    obtain ts where "upd_txn t (\<lambda>n. n\<lparr>tn_last_LRN := lr_LRN ?r\<rparr>) (head_txn_list s) = Some ts" "head_txn_list s1 = ts"
      using l by (auto simp: log_linked_def Option.bind_eq_Some_conv)
    then show thesis using that find_upd_txn [of "\<lambda>n. n\<lparr>tn_last_LRN := lr_LRN ?r\<rparr>" t "head_txn_list s" ts t] L(3)
      by (simp add: mk_record_def)
  qed
  have n2: "find_txn t (head_txn_list s2) = Some (n1\<lparr>tn_file_rec_no := None\<rparr>)"
    using find_set_rec [OF sr(1), of t] n1(1) sr(2) by (simp add: quiet_def)
  then have prev: "prev = log_size s" using p n1(2) by (simp add: get_prev_log_LRN_def)
  have sz: "log_size s2 = log_size s1"
    using sr by (auto simp: quiet_def log_size_def set_txn_def Option.bind_eq_Some_conv)
  have sz1: "log_size s1 = log_size s + 66"
    using log_size_eq [OF I1] log_size_eq [OF L(2)] by (simp add: length_encode_set_next length_encode_record mk_record_def NA_def)
  have fm: "\<not> log_mutex s2" "log_dev_ok s2"
    using log_linked_free [OF l] free sr by (auto simp: quiet_def set_txn_def Option.bind_eq_Some_conv)
  have I3: "log_inv s' (set_next (log_size s) (log_size s2) (set_next (tn_last_LRN n) (log_size s) rs @ [?r]) @ [end_record s2 t (log_size s)])"
    using log_inv_end [OF I2 n2 L(4) _ d _ fm] e size sz sz1 n1(2) prev by simp
  have fr3: "\<not> log_mutex s3" "log_dev_ok s3" and d3: "lk s3 = lk s2" "head_wait_list s3 = head_wait_list s2"
    using d fm by (auto simp: txn_delete_def Option.bind_eq_Some_conv)
  have fin: "lk s' = lk s3" "head_txn_list s' = head_txn_list s3" "\<not> log_mutex s'" "log_dev_ok s'"
    using e log_txn_end_shape [OF fr3, of t prev] fr3 by auto
  have "lock_inv s3 ?ys" using lock_inv_delete [OF r'(1,2) d] .
  then have "lock_inv s' ?ys" using fin(1,2) by (simp add: lock_inv_def)
  moreover have "find_txn t (head_txn_list s') = None"
    using d find_delete_same [of "head_txn_list s2" t] I2 fin(2)
    by (auto simp: txn_delete_def Option.bind_eq_Some_conv log_inv_def)
  moreover have "end_record s2 t (log_size s) = end_record s1 t (log_size s)" using sz by (simp add: end_record_def)
  ultimately show ?thesis using I3 fin r'(3) d3(1) sz by simp
qed

section \<open>Exclusive locks are always released\<close>

text \<open>The broadcasts that waiters for the files in \<open>A\<close> get.\<close>

definition wake_all :: "int set \<Rightarrow> wait_node list \<Rightarrow> wait_node list" where
  "wake_all A ws = map (\<lambda>w. if wn_file_inode w \<in> A then w\<lparr>wn_f_lock := cond_broadcast (wn_f_lock w)\<rparr> else w) ws"

lemma broadcast_twice [simp]: "cond_broadcast (cond_broadcast c) = cond_broadcast c"
  by (simp add: cond_broadcast_def)

lemma wake_all_simps [simp]:
  "wake_all {} ws = ws" "wake_all A (wake_all B ws) = wake_all (B \<union> A) ws"
  "map wn_file_inode (wake_all A ws) = map wn_file_inode ws"
  by (auto simp: wake_all_def comp_def)

lemma wake_all_sorted [simp]: "waits_sorted (wake_all A ws) = waits_sorted ws"
  by (simp add: waits_sorted_def)

lemma upd_wait_map:
  "waits_sorted ws \<Longrightarrow> upd_wait f g ws = Some ws' \<Longrightarrow> ws' = map (\<lambda>w. if wn_file_inode w = f then g w else w) ws"
proof (induction ws arbitrary: ws')
  case Nil
  then show ?case by simp
next
  case (Cons w ws)
  have "waits_sorted ws" using Cons.prems(1) by (simp add: waits_sorted_def)
  moreover have "map (\<lambda>w. if wn_file_inode w = f then g w else w) ws = ws" if "wn_file_inode w = f"
    using Cons.prems(1) that by (intro map_idI) (auto simp: waits_sorted_def)
  ultimately show ?case using Cons by (auto simp: Option.bind_eq_Some_conv split: if_splits)
qed

lemma wake_up_all:
  assumes "waits_sorted (head_wait_list s)" and "search_wait_list f (head_wait_list s) = Some w"
  shows "\<exists>s'. wake_up f s = Some s' \<and> lk s' = lk s \<and> head_wait_list s' = wake_all {f} (head_wait_list s)"
proof -
  obtain ws where ws: "upd_wait f (\<lambda>w. w\<lparr>wn_f_lock := cond_broadcast (wn_f_lock w)\<rparr>) (head_wait_list s) = Some ws"
    using assms(2) upd_wait_None_iff by fastforce
  then have "ws = wake_all {f} (head_wait_list s)" using upd_wait_map [OF assms(1) ws] by (simp add: wake_all_def)
  then show ?thesis using ws by (simp add: wake_up_def set_wait_def)
qed

lemma wake_all_none: "search_wait_list f ws = None \<Longrightarrow> wake_all {f} ws = ws"
  unfolding wake_all_def search_wait_None_iff by (rule map_idI) auto

lemma release_node_exclusive:
  assumes ll: "lock_list (lk s) xs" and a: "a \<in> set xs" and n: "fl_heap (lk s) a = Some n" "fl_file_mode n \<noteq> 0"
    and ws: "waits_sorted (head_wait_list s)" and cl: "only_calls c0" "only_calls c1"
  shows "\<exists>s'. release_node c0 c1 a s = Some s' \<and> lock_list (lk s') (remove1 a xs) \<and> same_nodes {a} (lk s) (lk s') \<and>
     head_wait_list s' = wake_all {fl_file_inode n} (head_wait_list s) \<and> brk (lk s') = brk (lk s)"
proof -
  obtain us vs where xs: "xs = us @ a # vs" "remove1 a xs = us @ vs"
    using remove1_split [OF lock_list_distinct [OF ll] a] by blast
  obtain m where m: "delete_file_list a (lk s) = Some m" "lock_list m (remove1 a xs)" "same_nodes {a} (lk s) m" "brk m = brk (lk s)"
    using delete_file_list_spec [of "lk s" us a vs] ll xs by auto
  show ?thesis
  proof (cases "search_wait_list (fl_file_inode n) (head_wait_list s)")
    case None
    then show ?thesis using m n only_callsD [OF cl(1)] wake_all_none [OF None] by (simp add: release_node_def)
  next
    case (Some w)
    let ?s = "(c1 (fl_fd n) s)\<lparr>lk := m\<rparr>"
    have "wn_file_inode w = fl_file_inode n" using search_wait_SomeD [OF Some] by simp
    then show ?thesis
      using m n Some only_callsD [OF cl(2)] wake_up_all [of ?s "fl_file_inode n" w] ws by (auto simp: release_node_def)
  qed
qed

definition plain :: "lockmem \<Rightarrow> addr \<Rightarrow> bool" where
  "plain m a \<longleftrightarrow> (case fl_heap m a of None \<Rightarrow> False | Some n \<Rightarrow> fl_file_mode n \<noteq> 0 \<and> fl_writes_at n = None)"

lemma same_nodes_plain: "same_nodes A m m' \<Longrightarrow> b \<notin> A \<Longrightarrow> plain m' b = plain m b"
  using same_nodes_field [where F = "\<lambda>n. fl_file_mode n \<noteq> 0 \<and> fl_writes_at n = None", of A m m' b]
  by (cases "fl_heap m b"; cases "fl_heap m' b") (auto simp: plain_def)

lemma plain_loop:
  assumes stop: "\<And>k s. L (Suc k) None s = Some s"
    and step: "\<And>k a s n. fl_heap (lk s) a = Some n \<Longrightarrow> plain (lk s) a \<Longrightarrow>
        L (Suc k) (Some a) s = Option.bind (release_node c0 c1 a s) (L k (fl_next_txn n))"
    and cl: "only_calls c0" "only_calls c1"
  shows "lock_list (lk s) xs \<Longrightarrow> waits_sorted (head_wait_list s) \<Longrightarrow> lpath (fl_heap (lk s)) fl_next_txn p as None \<Longrightarrow>
    set as \<subseteq> set xs \<Longrightarrow> (\<forall>a \<in> set as. plain (lk s) a) \<Longrightarrow> length as < k \<Longrightarrow>
    \<exists>s'. L k p s = Some s' \<and> head_wait_list s' = wake_all (ino (lk s) ` set as) (head_wait_list s)"
proof (induction as arbitrary: k p s xs)
  case Nil
  then show ?case using stop by (cases k) auto
next
  case (Cons a as)
  obtain n where p: "p = Some a" and n: "fl_heap (lk s) a = Some n" and nx: "lpath (fl_heap (lk s)) fl_next_txn (fl_next_txn n) as None"
    using Cons.prems(3) by auto
  have pl: "plain (lk s) a" using Cons.prems(5) by simp
  obtain k' where k: "k = Suc k'" "length as < k'" using Cons.prems(6) by (cases k) auto
  have "fl_file_mode n \<noteq> 0" using pl n by (simp add: plain_def)
  then obtain s1 where s1: "release_node c0 c1 a s = Some s1" "lock_list (lk s1) (remove1 a xs)" "same_nodes {a} (lk s) (lk s1)"
      "head_wait_list s1 = wake_all {fl_file_inode n} (head_wait_list s)"
    using release_node_exclusive [OF Cons.prems(1) _ n _ Cons.prems(2) cl] Cons.prems(4) by auto
  have a: "a \<notin> set as" using lpath_distinct [OF Cons.prems(3)] by simp
  have nx1: "lpath (fl_heap (lk s1)) fl_next_txn (fl_next_txn n) as None"
    using nx a same_id_path [OF same_id_nodes [OF s1(3)], of as] by simp
  have pl1: "\<forall>b \<in> set as. plain (lk s1) b"
  proof
    fix b assume "b \<in> set as"
    then show "plain (lk s1) b" using same_nodes_plain [OF s1(3), of b] Cons.prems(5) a by fastforce
  qed
  have sub: "set as \<subseteq> set (remove1 a xs)"
  proof
    fix x assume "x \<in> set as"
    then show "x \<in> set (remove1 a xs)" using Cons.prems(4) a by (cases "x = a") auto
  qed
  have "waits_sorted (head_wait_list s1)" using s1(4) Cons.prems(2) by simp
  then have "\<exists>s'. L k' (fl_next_txn n) s1 = Some s' \<and> head_wait_list s' = wake_all (ino (lk s1) ` set as) (head_wait_list s1)"
    using Cons.IH [OF s1(2) _ nx1 sub pl1 k(2)] by blast
  moreover have "ino (lk s1) ` set as = ino (lk s) ` set as"
    using a by (intro image_cong) (auto intro!: same_nodes_ino [OF s1(3)])
  moreover have "ino (lk s) a = fl_file_inode n" using n by (simp add: ino_def)
  ultimately show ?case using step [OF n pl, of k'] s1(1,4) p k(1) by simp
qed

lemma release_plain:
  assumes inv: "lock_inv s xs" and n: "find_txn t (head_txn_list s) = Some n" and ws: "waits_sorted (head_wait_list s)"
    and pl: "\<forall>a \<in> owned (lk s) xs t. plain (lk s) a"
  shows "\<exists>s'. release_locks_on_success t s = Some s' \<and> head_wait_list s' = wake_all (ino (lk s) ` owned (lk s) xs t) (head_wait_list s)"
    "\<exists>s'. release_locks_on_abort t s = Some s' \<and> head_wait_list s' = wake_all (ino (lk s) ` owned (lk s) xs t) (head_wait_list s)"
proof -
  have ll: "lock_list (lk s) xs" and ow: "owner_ok (lk s) (txn_view (head_txn_list s)) xs"
    using inv by (auto simp: lock_inv_def table_ok_def)
  obtain as where as: "lpath (fl_heap (lk s)) fl_next_txn (tn_file_rec_no n) as None" "set as = owned (lk s) xs t"
    using ow txn_view_find [OF n] by (auto simp: owner_ok_def)
  have sub: "set as \<subseteq> set xs" by (auto simp: as(2) owned_def)
  have len: "length as < Suc (brk (lk s))" using mem_ok_path_length [OF _ as(1)] ll by (simp add: lock_list_def)
  obtain ts where "upd_txn t (\<lambda>n. n\<lparr>tn_file_rec_no := None\<rparr>) (head_txn_list s) = Some ts"
    using upd_txn_None_iff [of t _ "head_txn_list s"] n by fastforce
  then obtain s1 where s1: "set_txn t (\<lambda>n. n\<lparr>tn_file_rec_no := None\<rparr>) s = Some s1" "lk (flush_log s1) = lk s" "lk s1 = lk s"
      "head_wait_list (flush_log s1) = head_wait_list s"
    by (simp add: set_txn_def flush_log_def emit_def)
  have "\<exists>s'. release_success_loop (Suc (brk (lk s))) t (tn_file_rec_no n) (flush_log s1) = Some s' \<and>
      head_wait_list s' = wake_all (ino (lk (flush_log s1)) ` set as) (head_wait_list (flush_log s1))"
    by (rule plain_loop [where ?c0.0 = "close_if (\<lambda>fd. fd > 0) (\<lambda>fd. Tr_close fd t)" and ?c1.0 = "close_if (\<lambda>fd. fd \<noteq> 0) (\<lambda>fd. Tr_close fd t)" and xs = xs])
      (use ll ws as sub pl len s1 in \<open>auto simp: perform_delayed_def plain_def\<close>)
  then show "\<exists>s'. release_locks_on_success t s = Some s' \<and> head_wait_list s' = wake_all (ino (lk s) ` owned (lk s) xs t) (head_wait_list s)"
    using n s1 as(2) by (simp add: release_locks_on_success_def del: release_success_loop.simps)
  have "\<exists>s'. release_abort_loop (Suc (brk (lk s))) t (tn_file_rec_no n) (flush_log s1) = Some s' \<and>
      head_wait_list s' = wake_all (ino (lk (flush_log s1)) ` set as) (head_wait_list (flush_log s1))"
    by (rule plain_loop [where ?c0.0 = "close_if (\<lambda>fd. fd \<ge> 0) (\<lambda>fd. Tr_close_abort fd t)" and ?c1.0 = "close_if (\<lambda>fd. fd \<ge> 0) (\<lambda>fd. Tr_close_abort fd t)" and xs = xs])
      (use ll ws as sub pl len s1 in \<open>auto simp: plain_def\<close>)
  then show "\<exists>s'. release_locks_on_abort t s = Some s' \<and> head_wait_list s' = wake_all (ino (lk s) ` owned (lk s) xs t) (head_wait_list s)"
    using n s1 as(2) by (simp add: release_locks_on_abort_def del: release_abort_loop.simps)
qed

text \<open>The hypotheses of both handlers: the invariants, a live transaction, a log that can be
  written.\<close>

definition ready :: "int \<Rightarrow> addr list \<Rightarrow> log_record list \<Rightarrow> server \<Rightarrow> bool" where
  "ready t xs rs s \<longleftrightarrow> lock_inv s xs \<and> log_inv s rs \<and> find_txn t (head_txn_list s) \<noteq> None \<and> in_s32 t \<and>
     \<not> log_mutex s \<and> log_dev_ok s \<and> log_size s < 9223372036854775000"

section \<open>The two ends of a transaction as one interface\<close>

text \<open>Commit and abort run the same course: log the decision, let go of the locks, forget the
  transaction, log its end.  The locale fixes what differs, the logging call and the release,
  with what they promise.\<close>

locale txn_finish =
  fixes h :: "int \<Rightarrow> server \<Rightarrow> (int \<times> server) option"
    and lg :: "int \<Rightarrow> server \<Rightarrow> (int \<times> server) option"
    and rel :: "int \<Rightarrow> server \<Rightarrow> server option"
    and ty :: log_type
  assumes handler: "h t s = do { (_, s) \<leftarrow> lg t s; s \<leftarrow> rel t s; p \<leftarrow> get_prev_log_LRN t s; s \<leftarrow> txn_delete t s;
      (_, s) \<leftarrow> log_txn_end t p s; Some (t, s) }"
    and lg_shape: "\<not> log_mutex s \<Longrightarrow> log_dev_ok s \<Longrightarrow> find_txn t (head_txn_list s) = Some n \<Longrightarrow>
      lg t s = map_option (Pair (log_size s)) (log_linked t (mk_record s n ty (- 1) (- 1) NA NA) s)"
    and rel_all: "lock_inv s xs \<Longrightarrow> post (rel t s) (released_all t xs s)"
    and rel_plain: "lock_inv s xs \<Longrightarrow> find_txn t (head_txn_list s) = Some n \<Longrightarrow> waits_sorted (head_wait_list s) \<Longrightarrow>
      \<forall>a \<in> owned (lk s) xs t. plain (lk s) a \<Longrightarrow>
      \<exists>s'. rel t s = Some s' \<and> head_wait_list s' = wake_all (ino (lk s) ` owned (lk s) xs t) (head_wait_list s)"
begin

lemma finish_result:
  assumes "ready t xs rs s" and h: "h t s = Some (u, s')"
  shows "u = t \<and> find_txn t (head_txn_list s') = None \<and> \<not> log_mutex s' \<and>
    lock_inv s' (filter (\<lambda>a. parent_of (lk s) a \<noteq> t) xs) \<and>
    (\<exists>rs'. log_inv s' rs' \<and> parse_log (content (event_log s')) = Some rs' \<and>
       map lr_txn_id rs' = map lr_txn_id rs @ [t, t] \<and> map lr_data rs' = map lr_data rs @ [NA, NA] \<and>
       map lr_record_type rs' = map lr_record_type rs @ [log_type_code ty, log_type_code TXN_END])"
proof -
  obtain n where n: "find_txn t (head_txn_list s) = Some n" and fm0: "\<not> log_mutex s" "log_dev_ok s"
    using assms(1) by (auto simp: ready_def)
  have R: "lock_inv s xs" "log_inv s rs" "in_s32 t" "\<not> log_mutex s" "log_dev_ok s" "log_size s < 9223372036854775000"
    using assms(1) by (auto simp: ready_def)
  obtain s1 s2 p s3 l where l: "log_linked t (mk_record s n ty (- 1) (- 1) NA NA) s = Some s1" and r: "rel t s1 = Some s2"
    and p: "get_prev_log_LRN t s2 = Some p" and d: "txn_delete t s2 = Some s3" and e: "log_txn_end t p s3 = Some (l, s')" and u: "u = t"
    using h unfolding handler lg_shape [OF fm0 n] by (auto simp: Option.bind_eq_Some_conv)
  have "lock_inv s1 xs" using log_only_lock_inv [OF log_linked_only [OF l]] R(1) by simp
  then have ra: "released_all t xs s1 s2" using postD [OF rel_all r] by simp
  let ?rs = "set_next (log_size s) (log_size s1)
        (set_next (tn_last_LRN n) (log_size s) rs @ [mk_record s n ty (- 1) (- 1) NA NA]) @ [end_record s1 t (log_size s)]"
  have f: "find_txn t (head_txn_list s') = None" "\<not> log_mutex s'" "lock_inv s' (filter (\<lambda>a. parent_of (lk s) a \<noteq> t) xs)" "log_inv s' ?rs"
    using finish_ok [OF R(1,2) n R(3,4,5,6) l ra p d e] by auto
  have "tn_txn_id n = t" using find_txn_SomeD [OF n] by simp
  then have "map lr_txn_id ?rs = map lr_txn_id rs @ [t, t]" "map lr_data ?rs = map lr_data rs @ [NA, NA]"
    "map lr_record_type ?rs = map lr_record_type rs @ [log_type_code ty, log_type_code TXN_END]"
    by (auto simp: set_next_def mk_record_def end_record_def)
  then show ?thesis using f log_inv_parse [OF f(4)] u by blast
qed

lemma finish_total:
  assumes "ready t xs rs s" and ws: "waits_sorted (head_wait_list s)" and pl: "\<forall>a \<in> owned (lk s) xs t. plain (lk s) a"
  shows "\<exists>s'. h t s = Some (t, s') \<and> head_wait_list s' = wake_all (ino (lk s) ` owned (lk s) xs t) (head_wait_list s)"
proof -
  obtain n where n: "find_txn t (head_txn_list s) = Some n" and fm0: "\<not> log_mutex s" "log_dev_ok s"
    using assms(1) by (auto simp: ready_def)
  let ?r = "mk_record s n ty (- 1) (- 1) NA NA"
  obtain s1 where l: "log_linked t ?r s = Some s1" using log_linked_total [OF n, of ?r] by blast
  note only = log_linked_only [OF l]
  have i1: "lock_inv s1 xs" using log_only_lock_inv [OF only] assms(1) by (simp add: ready_def)
  have k: "lk s1 = lk s" "head_wait_list s1 = head_wait_list s" using only by (simp_all add: log_only_def)
  have n1: "\<exists>n1. find_txn t (head_txn_list s1) = Some n1"
  proof -
    obtain ts where "upd_txn t (\<lambda>n. n\<lparr>tn_last_LRN := lr_LRN ?r\<rparr>) (head_txn_list s) = Some ts" "head_txn_list s1 = ts"
      using l by (auto simp: log_linked_def Option.bind_eq_Some_conv)
    then show ?thesis using find_upd_txn [of "\<lambda>n. n\<lparr>tn_last_LRN := lr_LRN ?r\<rparr>" t "head_txn_list s" ts t] n by simp
  qed
  then obtain s2 where s2: "rel t s1 = Some s2" "head_wait_list s2 = wake_all (ino (lk s) ` owned (lk s) xs t) (head_wait_list s)"
    using rel_plain [of s1 xs t, OF i1] ws pl k by auto
  obtain sr where sr: "set_txn t (\<lambda>n. n\<lparr>tn_file_rec_no := None\<rparr>) s1 = Some sr" "quiet sr s2"
    using postD [OF rel_all [OF i1] s2(1)] by (auto simp: released_all_def)
  obtain n2 where n2: "find_txn t (head_txn_list s2) = Some n2"
    using find_set_rec [OF sr(1), of t] n1 sr(2) by (auto simp: quiet_def)
  then obtain s3 where d: "txn_delete t s2 = Some s3"
    using delete_txn_None_iff [of t "head_txn_list s2"] by (cases "delete_txn t (head_txn_list s2)") (auto simp: txn_delete_def)
  have fm: "\<not> log_mutex s2" "log_dev_ok s2"
    using log_linked_free [OF l] assms(1) sr by (auto simp: ready_def quiet_def set_txn_def Option.bind_eq_Some_conv)
  then have fr3: "\<not> log_mutex s3" "log_dev_ok s3" "head_wait_list s3 = head_wait_list s2"
    using d by (auto simp: txn_delete_def Option.bind_eq_Some_conv)
  have "\<exists>lrn s'. log_txn_end t (tn_last_LRN n2) s3 = Some (lrn, s') \<and> head_wait_list s' = head_wait_list s3"
    using log_txn_end_shape [OF fr3(1,2)] by simp
  then show ?thesis unfolding handler lg_shape [OF fm0 n] using l s2 d fr3(3) n2 by (auto simp: get_prev_log_LRN_def)
qed

end

interpretation commit: txn_finish on_txn_commit log_txn_commit release_locks_on_success TXN_COMMIT
proof
qed (rule on_txn_commit_def log_op_shapes(1) release_locks_ok(1) release_plain(1); assumption)+

interpretation abort: txn_finish on_txn_abort log_txn_abort release_locks_on_abort TXN_ABORT
proof
qed (rule on_txn_abort_def log_op_shapes(2) release_locks_ok(2) release_plain(2); assumption)+

section \<open>Properties\<close>

text \<open>C6: Commit.  Whatever locks the transaction holds and whatever operations it has delayed, when
  \<open>on_txn_commit\<close> returns the transaction is gone with exactly its own locks, the invariants of
  the lock table and of the log hold again, \<open>log_mutex\<close> is free, and the log read back is the
  old one followed by the COMMIT and the END record of the transaction.\<close>

theorem commit_keeps_invariants:
  assumes "ready t xs rs s" and "on_txn_commit t s = Some (u, s')"
  shows "u = t \<and> find_txn t (head_txn_list s') = None \<and> \<not> log_mutex s' \<and>
    lock_inv s' (filter (\<lambda>a. parent_of (lk s) a \<noteq> t) xs) \<and>
    (\<exists>rs'. log_inv s' rs' \<and> parse_log (content (event_log s')) = Some rs' \<and>
       map lr_txn_id rs' = map lr_txn_id rs @ [t, t] \<and> map lr_data rs' = map lr_data rs @ [NA, NA] \<and>
       map lr_record_type rs' = map lr_record_type rs @ [log_type_code TXN_COMMIT, log_type_code TXN_END])"
  by (rule commit.finish_result [OF assms])

text \<open>C7: Abort keeps the same promises, with the ABORT record in the log.\<close>

theorem abort_keeps_invariants:
  assumes "ready t xs rs s" and "on_txn_abort t s = Some (u, s')"
  shows "u = t \<and> find_txn t (head_txn_list s') = None \<and> \<not> log_mutex s' \<and>
    lock_inv s' (filter (\<lambda>a. parent_of (lk s) a \<noteq> t) xs) \<and>
    (\<exists>rs'. log_inv s' rs' \<and> parse_log (content (event_log s')) = Some rs' \<and>
       map lr_txn_id rs' = map lr_txn_id rs @ [t, t] \<and> map lr_data rs' = map lr_data rs @ [NA, NA] \<and>
       map lr_record_type rs' = map lr_record_type rs @ [log_type_code TXN_ABORT, log_type_code TXN_END])"
  by (rule abort.finish_result [OF assms])

text \<open>C8: Where the locks of the transaction are exclusive and no operation is delayed, both
  handlers always return, and exactly the threads that wait for one of its files are woken.\<close>

theorem finish_wakes_waiters:
  assumes "ready t xs rs s" and "waits_sorted (head_wait_list s)" and "\<And>a. a \<in> owned (lk s) xs t \<Longrightarrow> plain (lk s) a"
  shows "(\<exists>s'. on_txn_commit t s = Some (t, s') \<and> head_wait_list s' = wake_all (ino (lk s) ` owned (lk s) xs t) (head_wait_list s)) \<and>
    (\<exists>s'. on_txn_abort t s = Some (t, s') \<and> head_wait_list s' = wake_all (ino (lk s) ` owned (lk s) xs t) (head_wait_list s))"
  using commit.finish_total [OF assms(1,2)] abort.finish_total [OF assms(1,2)] assms(3) by blast

text \<open>A server where transaction 1 holds file 7 exclusively and transaction 2 waits for it.\<close>

definition held_server :: server where
  "held_server = begun_server\<lparr>lk := one_lock, head_txn_list := [(get_txn_node 1 0)\<lparr>tn_file_rec_no := Some 0\<rparr>],
     head_wait_list := [(get_wait_node 7)\<lparr>wn_f_lock := cond_wait 2 cond_init\<rparr>]\<rparr>"

lemma held_ready: "ready 1 [0] [beg_record (global_init []) 1] held_server"
proof -
  have "lock_inv held_server [0]"
    using one_lock_list by (simp add: lock_inv_def table_ok_def held_server_def compatible_def mode_of_def shared_ok_def owner_ok_def
        txn_view_def owned_def parent_of_def get_txn_node_def) (auto simp: one_lock_def get_file_node_def intro!: exI [of _ "[0]"])
  moreover have "log_inv held_server [beg_record (global_init []) 1]"
    using begun_inv(1) by (simp add: log_inv_def held_server_def txns_ok_def chain_end_def begun_server_def new_txn_insert_def global_init_def get_txn_node_def s32_def)
  ultimately show ?thesis using begun_inv(3,4,5)
    by (simp add: ready_def held_server_def in_s32_def get_txn_node_def log_size_def)
qed

lemma held_plain:
  "waits_sorted (head_wait_list held_server)" "\<forall>a \<in> owned (lk held_server) [0] 1. plain (lk held_server) a"
  by (simp_all add: held_server_def waits_sorted_def owned_def plain_def one_lock_def get_file_node_def)

theorem commit_keeps_invariants_witness:
  "\<exists>s'. on_txn_commit 1 held_server = Some (1, s') \<and> (1 = (1::int) \<and> find_txn 1 (head_txn_list s') = None \<and> \<not> log_mutex s' \<and>
    lock_inv s' (filter (\<lambda>a. parent_of (lk held_server) a \<noteq> 1) [0]) \<and>
    (\<exists>rs'. log_inv s' rs' \<and> parse_log (content (event_log s')) = Some rs' \<and>
       map lr_txn_id rs' = map lr_txn_id [beg_record (global_init []) 1] @ [1, 1] \<and>
       map lr_data rs' = map lr_data [beg_record (global_init []) 1] @ [NA, NA] \<and>
       map lr_record_type rs' = map lr_record_type [beg_record (global_init []) 1] @ [log_type_code TXN_COMMIT, log_type_code TXN_END]))"
proof -
  obtain s' where "on_txn_commit 1 held_server = Some (1, s')"
    using commit.finish_total [OF held_ready held_plain(1)] held_plain(2) by blast
  then show ?thesis using commit_keeps_invariants [OF held_ready] by blast
qed

theorem abort_keeps_invariants_witness:
  "\<exists>s'. on_txn_abort 1 held_server = Some (1, s') \<and> (1 = (1::int) \<and> find_txn 1 (head_txn_list s') = None \<and> \<not> log_mutex s' \<and>
    lock_inv s' (filter (\<lambda>a. parent_of (lk held_server) a \<noteq> 1) [0]) \<and>
    (\<exists>rs'. log_inv s' rs' \<and> parse_log (content (event_log s')) = Some rs' \<and>
       map lr_txn_id rs' = map lr_txn_id [beg_record (global_init []) 1] @ [1, 1] \<and>
       map lr_data rs' = map lr_data [beg_record (global_init []) 1] @ [NA, NA] \<and>
       map lr_record_type rs' = map lr_record_type [beg_record (global_init []) 1] @ [log_type_code TXN_ABORT, log_type_code TXN_END]))"
proof -
  obtain s' where "on_txn_abort 1 held_server = Some (1, s')"
    using abort.finish_total [OF held_ready held_plain(1)] held_plain(2) by blast
  then show ?thesis using abort_keeps_invariants [OF held_ready] by blast
qed

theorem finish_wakes_waiters_witness:
  "(\<exists>s'. on_txn_commit 1 held_server = Some (1, s') \<and> head_wait_list s' =
      wake_all (ino (lk held_server) ` owned (lk held_server) [0] 1) (head_wait_list held_server)) \<and>
   (\<exists>s'. on_txn_abort 1 held_server = Some (1, s') \<and> head_wait_list s' =
      wake_all (ino (lk held_server) ` owned (lk held_server) [0] 1) (head_wait_list held_server))"
  by (rule finish_wakes_waiters [OF held_ready]) (use held_plain in blast)+

end
