(* ===== verification/MSManager.thy ===== *)
theory MSManager
  imports TxnEnd
begin

text \<open>
  Serialising user transactions with the backup transaction (MS_manager.c).  A file is read or
  not read by the backup (\<open>files_read_bit\<close>); a transaction is on one side of the backup
  (\<open>before_after\<close>) once it has locked a file.  On a conflict it pauses and tries again, a bounded
  number of times, or aborts.  The table of pauses is a fixed array; an access outside it is a
  fault.  A pause ends one step, \<open>after_pause\<close> is the next.
\<close>

section \<open>Operations\<close>

datatype ms_result = Serializable | Pausing | Aborted

text \<open>\<open>for (i = 0; i <= index_pause_array; i++)\<close> with an array access in the body: \<open>k\<close> rounds from \<open>i\<close>.\<close>

fun pause_clear :: "int \<Rightarrow> nat \<Rightarrow> nat \<Rightarrow> pause_node list \<Rightarrow> pause_node list option" where
  "pause_clear txnid i 0 arr = Some arr"
| "pause_clear txnid i (Suc k) arr =
     (if i < length arr
      then pause_clear txnid (Suc i) k
             (if pn_txnid (arr ! i) = txnid then arr[i := \<lparr>pn_txnid = - 1, pn_pause_times = 0\<rparr>] else arr)
      else None)"

fun pause_scan :: "int \<Rightarrow> nat \<Rightarrow> nat \<Rightarrow> pause_node list \<Rightarrow> nat option" where
  "pause_scan txnid i 0 arr = Some i"
| "pause_scan txnid i (Suc k) arr =
     (if i < length arr
      then if pn_txnid (arr ! i) = txnid then Some i else pause_scan txnid (Suc i) k arr
      else None)"

definition array_get :: "nat \<Rightarrow> 'a list \<Rightarrow> 'a option" where
  "array_get i arr = (if i < length arr then Some (arr ! i) else None)"

definition array_put :: "nat \<Rightarrow> 'a \<Rightarrow> 'a list \<Rightarrow> 'a list option" where
  "array_put i x arr = (if i < length arr then Some (arr[i := x]) else None)"

definition rounds :: "pauses \<Rightarrow> nat" where
  "rounds p = nat (index_pause_array p + 1)"

text \<open>The update of the table on a conflict; \<open>None\<close> in the result says that the transaction has
  paused often enough.\<close>

definition note_pause :: "int \<Rightarrow> pauses \<Rightarrow> (bool \<times> pauses) option option" where
  "note_pause txnid p = do {
     i \<leftarrow> pause_scan txnid 0 (rounds p) (pause_array p);
     e \<leftarrow> array_get i (pause_array p);
     if pn_txnid e = txnid then
       if pn_pause_times e > 5 then Some None
       else do {
         arr \<leftarrow> array_put i (e\<lparr>pn_pause_times := s32 (pn_pause_times e + 1)\<rparr>) (pause_array p);
         Some (Some (False, p\<lparr>pause_array := arr\<rparr>)) }
     else do {
       let idx = index_pause_array p + 1;
       arr \<leftarrow> array_put (nat idx) \<lparr>pn_txnid = txnid, pn_pause_times = 1\<rparr> (pause_array p);
       Some (Some (True, p\<lparr>pause_array := arr, index_pause_array := idx\<rparr>)) } }"

definition mutually_serializable :: "int \<Rightarrow> int \<Rightarrow> server \<Rightarrow> (ms_result \<times> server) option" where
  "mutually_serializable txnid files_read_bit s = do {
     n \<leftarrow> find_txn txnid (head_txn_list s);
     if tn_file_rec_no n = None then Some (Serializable, s)
     else if files_read_bit = tn_before_after n then do {
       arr \<leftarrow> pause_clear txnid 0 (rounds (pz s)) (pause_array (pz s));
       Some (Serializable, s\<lparr>pz := (pz s)\<lparr>pause_array := arr\<rparr>\<rparr>) }
     else if files_read_bit = 0 \<and> tn_before_after n = 1 then do {
       r \<leftarrow> note_pause txnid (pz s);
       case r of
         None \<Rightarrow> do {
           let s = s\<lparr>st := (st s)\<lparr>abrt_after_pause := abrt_after_pause (st s) + 1\<rparr>\<rparr>;
           (_, s) \<leftarrow> on_txn_abort txnid s;
           Some (Aborted, s) }
       | Some (fresh, p) \<Rightarrow>
           Some (Pausing, s\<lparr>pz := p, st := (if fresh then (st s)\<lparr>no_on_wait := no_on_wait (st s) + 1\<rparr> else st s)\<rparr>) }
     else do {
       let s = s\<lparr>st := (st s)\<lparr>no_of_abrt := no_of_abrt (st s) + 1\<rparr>\<rparr>;
       (_, s) \<leftarrow> on_txn_abort txnid s;
       Some (Aborted, s) } }"

text \<open>After two seconds of sleep.\<close>

definition after_pause :: "int \<Rightarrow> server \<Rightarrow> server option" where
  "after_pause txnid s = do {
     s \<leftarrow> set_txn txnid (\<lambda>n. n\<lparr>tn_cur_state := RUNNING\<rparr>) s;
     Some (s\<lparr>st := (st s)\<lparr>total_wait_time := total_wait_time (st s) + 2\<rparr>\<rparr>) }"

section \<open>The table of pauses\<close>

definition slots :: "pauses \<Rightarrow> pause_node list" where
  "slots p = take (rounds p) (pause_array p)"

definition pauses_ok :: "pauses \<Rightarrow> bool" where
  "pauses_ok p \<longleftrightarrow> length (pause_array p) = NUM_PAUSE \<and> 0 \<le> index_pause_array p \<and>
     index_pause_array p < int NUM_PAUSE \<and>
     distinct (filter (\<lambda>u. u \<noteq> - 1) (map pn_txnid (slots p))) \<and>
     (\<forall>e \<in> set (slots p). 0 \<le> pn_pause_times e \<and> pn_pause_times e \<le> 6) \<and>
     (\<forall>e \<in> set (drop (rounds p) (pause_array p)). pn_txnid e = 0)"

fun count_in :: "int \<Rightarrow> pause_node list \<Rightarrow> int option" where
  "count_in t [] = None"
| "count_in t (e # es) = (if pn_txnid e = t then Some (pn_pause_times e) else count_in t es)"

definition pause_count :: "int \<Rightarrow> pauses \<Rightarrow> int option" where
  "pause_count t p = count_in t (slots p)"

lemma pauses_split:
  assumes "pauses_ok p"
  obtains rest where "pause_array p = slots p @ rest" "length (slots p) = rounds p" "rounds p \<le> NUM_PAUSE" "0 < rounds p"
    "length rest = NUM_PAUSE - rounds p" "\<And>e. e \<in> set rest \<Longrightarrow> pn_txnid e = 0"
proof -
  have "rounds p \<le> NUM_PAUSE" "0 < rounds p" using assms by (auto simp: pauses_ok_def rounds_def)
  then show thesis using assms by (intro that [of "drop (rounds p) (pause_array p)"]) (auto simp: pauses_ok_def slots_def)
qed

lemma pauses_okI:
  assumes "pause_array p = es @ rest" and "length es = rounds p" and "length (es @ rest) = NUM_PAUSE"
    and "0 \<le> index_pause_array p" and "distinct (filter (\<lambda>u. u \<noteq> - 1) (map pn_txnid es))"
    and "\<And>e. e \<in> set es \<Longrightarrow> 0 \<le> pn_pause_times e \<and> pn_pause_times e \<le> 6" and "\<And>e. e \<in> set rest \<Longrightarrow> pn_txnid e = 0"
  shows "pauses_ok p \<and> slots p = es"
proof -
  have sl: "slots p = es" "drop (rounds p) (pause_array p) = rest" using assms(1,2) by (simp_all add: slots_def)
  have "index_pause_array p < int NUM_PAUSE" using assms(2,3,4) by (simp add: rounds_def)
  then show ?thesis using sl assms unfolding pauses_ok_def by auto
qed

lemma pauses_okD:
  assumes "pauses_ok p"
  shows "distinct (filter (\<lambda>u. u \<noteq> - 1) (map pn_txnid (slots p)))" "e \<in> set (slots p) \<Longrightarrow> 0 \<le> pn_pause_times e \<and> pn_pause_times e \<le> 6"
    "0 \<le> index_pause_array p"
  using assms by (auto simp: pauses_ok_def)

lemma pause_scan_eq:
  "pause_scan t (length us) (length es) (us @ es @ rest) = Some (length us + length (takeWhile (\<lambda>e. pn_txnid e \<noteq> t) es))"
proof (induction es arbitrary: us)
  case Nil
  then show ?case by simp
next
  case (Cons e es)
  show ?case using Cons [of "us @ [e]"] by (simp add: nth_append)
qed

definition clear_of :: "int \<Rightarrow> pause_node \<Rightarrow> pause_node" where
  "clear_of t e = (if pn_txnid e = t then \<lparr>pn_txnid = - 1, pn_pause_times = 0\<rparr> else e)"

lemma pause_clear_eq:
  "pause_clear t (length us) (length es) (us @ es @ rest) = Some (us @ map (clear_of t) es @ rest)"
proof (induction es arbitrary: us)
  case Nil
  then show ?case by simp
next
  case (Cons e es)
  show ?case using Cons [of "us @ [clear_of t e]"]
    by (cases "pn_txnid e = t") (simp_all add: nth_append list_update_append clear_of_def)
qed

lemma count_in_append: "count_in t (es @ fs) = (case count_in t es of None \<Rightarrow> count_in t fs | Some c \<Rightarrow> Some c)"
  by (induction es) auto

lemma count_in_split:
  "count_in t es = None \<Longrightarrow> takeWhile (\<lambda>e. pn_txnid e \<noteq> t) es = es"
  "count_in t es = Some c \<Longrightarrow> \<exists>us e vs. es = us @ e # vs \<and> pn_txnid e = t \<and> pn_pause_times e = c \<and>
     takeWhile (\<lambda>e. pn_txnid e \<noteq> t) es = us \<and> count_in t us = None"
proof (induction es)
  case Nil
  {
    case 1
    then show ?case by simp
  next
    case 2
    then show ?case by simp
  }
next
  case (Cons x es)
  {
    case 1
    then show ?case using Cons(1) by (simp split: if_splits)
  next
    case 2
    show ?case
    proof (cases "pn_txnid x = t")
      case True
      then show ?thesis using 2 by (intro exI [of _ "[]"] exI [of _ x] exI [of _ es]) simp
    next
      case False
      then obtain us e vs where "es = us @ e # vs" "pn_txnid e = t" "pn_pause_times e = c"
          "takeWhile (\<lambda>e. pn_txnid e \<noteq> t) es = us" "count_in t us = None"
        using Cons(2) 2 by auto
      then show ?thesis using False by (intro exI [of _ "x # us"] exI [of _ e] exI [of _ vs]) simp
    qed
  }
qed

lemma count_in_None: "count_in t es = None \<longleftrightarrow> t \<notin> pn_txnid ` set es"
  by (induction es) auto

lemma array_put_at: "length us = i \<Longrightarrow> array_put i y (us @ x # vs) = Some (us @ y # vs)"
  by (auto simp: array_put_def list_update_append)

lemma array_get_at: "length us = i \<Longrightarrow> array_get i (us @ x # vs) = Some x"
  by (auto simp: array_get_def)

lemma note_pause_again:
  assumes ok: "pauses_ok p" and c: "pause_count t p = Some c" and t: "t \<noteq> - 1"
  shows "c > 5 \<Longrightarrow> note_pause t p = Some None"
    "c \<le> 5 \<Longrightarrow> \<exists>p'. note_pause t p = Some (Some (False, p')) \<and> pauses_ok p' \<and> index_pause_array p' = index_pause_array p \<and>
       pause_count t p' = Some (c + 1) \<and> (\<forall>u. u \<noteq> t \<longrightarrow> pause_count u p' = pause_count u p)"
proof -
  obtain rest where r: "pause_array p = slots p @ rest" "length (slots p) = rounds p" "rounds p \<le> NUM_PAUSE"
    "length rest = NUM_PAUSE - rounds p" "\<And>e. e \<in> set rest \<Longrightarrow> pn_txnid e = 0"
    using pauses_split [OF ok] by metis
  obtain us e vs where s: "slots p = us @ e # vs" "pn_txnid e = t" "pn_pause_times e = c"
    "takeWhile (\<lambda>e. pn_txnid e \<noteq> t) (slots p) = us" "count_in t us = None"
    using count_in_split(2) [of t "slots p" c] c by (auto simp: pause_count_def)
  have scan: "pause_scan t 0 (rounds p) (pause_array p) = Some (length us)"
    using pause_scan_eq [of t "[]" "slots p" rest] r(1,2) s(4) by simp
  have get: "array_get (length us) (pause_array p) = Some e" by (simp add: r(1) s(1) array_get_at)
  show "note_pause t p = Some None" if "c > 5" using that s scan get by (simp add: note_pause_def)
  show "\<exists>p'. note_pause t p = Some (Some (False, p')) \<and> pauses_ok p' \<and> index_pause_array p' = index_pause_array p \<and>
       pause_count t p' = Some (c + 1) \<and> (\<forall>u. u \<noteq> t \<longrightarrow> pause_count u p' = pause_count u p)" if c5: "c \<le> 5"
  proof -
    have "e \<in> set (slots p)" by (simp add: s(1))
    then have c0: "0 \<le> c" using ok s(3) by (auto simp: pauses_ok_def)
    let ?e = "e\<lparr>pn_pause_times := c + 1\<rparr>"
    let ?p = "p\<lparr>pause_array := us @ ?e # vs @ rest\<rparr>"
    have n: "note_pause t p = Some (Some (False, ?p))"
      using scan get s c5 c0 by (simp add: note_pause_def r(1) array_put_at in_s32_def)
    have rp: "rounds ?p = rounds p" by (simp add: rounds_def)
    have ids: "map pn_txnid (us @ ?e # vs) = map pn_txnid (slots p)" by (simp add: s(1))
    have "pauses_ok ?p \<and> slots ?p = us @ ?e # vs"
    proof (rule pauses_okI)
      show "distinct (filter (\<lambda>u. u \<noteq> - 1) (map pn_txnid (us @ ?e # vs)))" unfolding ids using pauses_okD(1) [OF ok] .
      show "0 \<le> pn_pause_times x \<and> pn_pause_times x \<le> 6" if "x \<in> set (us @ ?e # vs)" for x
        using that pauses_okD(2) [OF ok, of x] c0 c5 by (auto simp: s(1))
    qed (use r s(1) rp pauses_okD(3) [OF ok] in auto)
    then have sl: "slots ?p = us @ ?e # vs" and "pauses_ok ?p" by blast+
    moreover have "pause_count t ?p = Some (c + 1)" using s(2,5) by (simp add: pause_count_def sl count_in_append)
    moreover have "\<forall>u. u \<noteq> t \<longrightarrow> pause_count u ?p = pause_count u p"
      using s(2) by (auto simp: pause_count_def sl s(1) count_in_append split: option.splits)
    ultimately show ?thesis using n by auto
  qed
qed

lemma note_pause_fresh:
  assumes ok: "pauses_ok p" and c: "pause_count t p = None" and t: "t \<noteq> - 1" "t \<noteq> 0"
  shows "index_pause_array p + 1 < int NUM_PAUSE \<Longrightarrow>
      \<exists>p'. note_pause t p = Some (Some (True, p')) \<and> pauses_ok p' \<and> index_pause_array p' = index_pause_array p + 1 \<and>
       pause_count t p' = Some 1 \<and> (\<forall>u. u \<noteq> t \<longrightarrow> pause_count u p' = pause_count u p)"
    "index_pause_array p + 1 = int NUM_PAUSE \<Longrightarrow> note_pause t p = None"
proof -
  obtain rest where r: "pause_array p = slots p @ rest" "length (slots p) = rounds p" "rounds p \<le> NUM_PAUSE"
    "length rest = NUM_PAUSE - rounds p" "\<And>e. e \<in> set rest \<Longrightarrow> pn_txnid e = 0"
    using pauses_split [OF ok] by metis
  have s: "takeWhile (\<lambda>e. pn_txnid e \<noteq> t) (slots p) = slots p" "t \<notin> pn_txnid ` set (slots p)"
    using count_in_split(1) [of t "slots p"] c count_in_None [of t "slots p"] by (auto simp: pause_count_def)
  have scan: "pause_scan t 0 (rounds p) (pause_array p) = Some (rounds p)"
    using pause_scan_eq [of t "[]" "slots p" rest] r(1,2) s(1) by simp
  have i0: "0 \<le> index_pause_array p" using ok by (simp add: pauses_ok_def)
  then have rd: "rounds p = nat (index_pause_array p) + 1" "nat (index_pause_array p + 1) = rounds p" by (simp_all add: rounds_def nat_add_distrib)
  show "note_pause t p = None" if "index_pause_array p + 1 = int NUM_PAUSE"
  proof -
    have "rounds p = NUM_PAUSE" using that by (simp add: rounds_def)
    moreover have "length (pause_array p) = NUM_PAUSE" using ok by (simp add: pauses_ok_def)
    ultimately show ?thesis using scan by (simp add: note_pause_def array_get_def)
  qed
  show "\<exists>p'. note_pause t p = Some (Some (True, p')) \<and> pauses_ok p' \<and> index_pause_array p' = index_pause_array p + 1 \<and>
       pause_count t p' = Some 1 \<and> (\<forall>u. u \<noteq> t \<longrightarrow> pause_count u p' = pause_count u p)" if lt: "index_pause_array p + 1 < int NUM_PAUSE"
  proof -
    have rn: "rounds p < NUM_PAUSE" using lt i0 by (simp add: rounds_def)
    then obtain x rest' where rest: "rest = x # rest'" using r(4) by (cases rest) auto
    have x: "pn_txnid x = 0" using r(5) [of x] by (simp add: rest)
    let ?e = "\<lparr>pn_txnid = t, pn_pause_times = 1\<rparr>"
    let ?p = "p\<lparr>pause_array := slots p @ ?e # rest', index_pause_array := index_pause_array p + 1\<rparr>"
    have get: "array_get (rounds p) (pause_array p) = Some x" using r(2) by (simp add: r(1) rest array_get_at)
    have put: "array_put (rounds p) ?e (pause_array p) = Some (slots p @ ?e # rest')"
      using r(2) by (simp add: r(1) rest array_put_at)
    have n: "note_pause t p = Some (Some (True, ?p))"
      unfolding note_pause_def using scan get put x t rd(2) by (simp add: Let_def)
    have rp: "rounds ?p = Suc (rounds p)" using i0 by (simp add: rounds_def)
    have "pauses_ok ?p \<and> slots ?p = slots p @ [?e]"
    proof (rule pauses_okI)
      show "pause_array ?p = (slots p @ [?e]) @ rest'" by simp
      show "distinct (filter (\<lambda>u. u \<noteq> - 1) (map pn_txnid (slots p @ [?e])))"
        using pauses_okD(1) [OF ok] s(2) by auto
      show "0 \<le> pn_pause_times x \<and> pn_pause_times x \<le> 6" if "x \<in> set (slots p @ [?e])" for x
        using that pauses_okD(2) [OF ok, of x] by auto
      show "length (slots p @ [?e]) = rounds ?p" using r(2) rp by simp
      show "length ((slots p @ [?e]) @ rest') = NUM_PAUSE" using r(2,3,4) rest by simp
      show "0 \<le> index_pause_array ?p" using i0 by simp
      show "pn_txnid y = 0" if "y \<in> set rest'" for y using r(5) [of y] that by (simp add: rest)
    qed
    then have sl: "slots ?p = slots p @ [?e]" and "pauses_ok ?p" by blast+
    moreover have pc: "pause_count u ?p = (case pause_count u p of None \<Rightarrow> if t = u then Some 1 else None | Some k \<Rightarrow> Some k)" for u
      unfolding pause_count_def sl count_in_append by (cases "count_in u (slots p)") simp_all
    moreover have "\<forall>u. u \<noteq> t \<longrightarrow> pause_count u ?p = pause_count u p"
    proof (intro allI impI)
      fix u assume "u \<noteq> t"
      then show "pause_count u ?p = pause_count u p" unfolding pc by (cases "pause_count u p") auto
    qed
    moreover have "pause_count t ?p = Some 1" unfolding pc c by simp
    ultimately show ?thesis using n by auto
  qed
qed

lemma clear_ok:
  assumes ok: "pauses_ok p" and t: "t \<noteq> - 1"
  shows "\<exists>arr. pause_clear t 0 (rounds p) (pause_array p) = Some arr \<and> pauses_ok (p\<lparr>pause_array := arr\<rparr>) \<and>
     pause_count t (p\<lparr>pause_array := arr\<rparr>) = None \<and>
     (\<forall>u. u \<noteq> t \<longrightarrow> u \<noteq> - 1 \<longrightarrow> pause_count u (p\<lparr>pause_array := arr\<rparr>) = pause_count u p)"
proof -
  obtain rest where r: "pause_array p = slots p @ rest" "length (slots p) = rounds p" "rounds p \<le> NUM_PAUSE"
    "length rest = NUM_PAUSE - rounds p" "\<And>e. e \<in> set rest \<Longrightarrow> pn_txnid e = 0"
    using pauses_split [OF ok] by metis
  let ?es = "map (clear_of t) (slots p)"
  let ?p = "p\<lparr>pause_array := ?es @ rest\<rparr>"
  have c: "pause_clear t 0 (rounds p) (pause_array p) = Some (?es @ rest)"
    using pause_clear_eq [of t "[]" "slots p" rest] r(1,2) by simp
  have f: "filter (\<lambda>u. u \<noteq> - 1) (map pn_txnid (map (clear_of t) es)) = filter (\<lambda>u. u \<noteq> t) (filter (\<lambda>u. u \<noteq> - 1) (map pn_txnid es))" for es
    using t by (induction es) (auto simp: clear_of_def)
  have "pauses_ok ?p \<and> slots ?p = ?es"
  proof (rule pauses_okI)
    show "0 \<le> pn_pause_times x \<and> pn_pause_times x \<le> 6" if "x \<in> set ?es" for x
      using that pauses_okD(2) [OF ok] by (auto simp: clear_of_def)
    show "distinct (filter (\<lambda>u. u \<noteq> - 1) (map pn_txnid ?es))" unfolding f by (rule distinct_filter) (rule pauses_okD(1) [OF ok])
  qed (use r pauses_okD(3) [OF ok] in \<open>auto simp: rounds_def\<close>)
  moreover have "count_in t (map (clear_of t) es) = None" "u \<noteq> t \<Longrightarrow> u \<noteq> - 1 \<Longrightarrow> count_in u (map (clear_of t) es) = count_in u es" for u es
    using t by (induction es) (auto simp: clear_of_def)
  ultimately show ?thesis using c by (auto simp: pause_count_def)
qed

section \<open>The decision\<close>

lemma ms_decision_raw:
  assumes "find_txn t (head_txn_list s) = Some n" and "tn_file_rec_no n \<noteq> None" and "pauses_ok (pz s)"
    and "t \<noteq> 0" and "t \<noteq> - 1"
  shows "if rb = tn_before_after n then
       \<exists>p. mutually_serializable t rb s = Some (Serializable, s\<lparr>pz := p\<rparr>) \<and> pauses_ok p \<and> pause_count t p = None
     else if rb = 0 \<and> tn_before_after n = 1 then
       (case pause_count t (pz s) of
          None \<Rightarrow> if index_pause_array (pz s) + 1 = int NUM_PAUSE then mutually_serializable t rb s = None
                  else \<exists>s'. mutually_serializable t rb s = Some (Pausing, s') \<and> pauses_ok (pz s') \<and>
                         pause_count t (pz s') = Some 1 \<and> lk s' = lk s \<and> head_txn_list s' = head_txn_list s
        | Some c \<Rightarrow> if c > 5 then mutually_serializable t rb s =
              map_option (\<lambda>(_, s'). (Aborted, s')) (on_txn_abort t (s\<lparr>st := (st s)\<lparr>abrt_after_pause := abrt_after_pause (st s) + 1\<rparr>\<rparr>))
            else \<exists>s'. mutually_serializable t rb s = Some (Pausing, s') \<and> pauses_ok (pz s') \<and>
                   pause_count t (pz s') = Some (c + 1) \<and> lk s' = lk s \<and> head_txn_list s' = head_txn_list s)
     else mutually_serializable t rb s =
       map_option (\<lambda>(_, s'). (Aborted, s')) (on_txn_abort t (s\<lparr>st := (st s)\<lparr>no_of_abrt := no_of_abrt (st s) + 1\<rparr>\<rparr>))"
proof -
  have ab: "Option.bind m (\<lambda>(_, s). Some (Aborted, s)) = map_option (\<lambda>(_, s'). (Aborted, s')) m" for m :: "(int \<times> server) option"
    by (cases m) auto
  consider "rb = tn_before_after n" | "rb \<noteq> tn_before_after n" "rb = 0 \<and> tn_before_after n = 1" "pause_count t (pz s) = None"
    | c where "rb \<noteq> tn_before_after n" "rb = 0 \<and> tn_before_after n = 1" "pause_count t (pz s) = Some c"
    | "rb \<noteq> tn_before_after n" "\<not> (rb = 0 \<and> tn_before_after n = 1)" by auto
  then show ?thesis
  proof cases
    case 1
    then show ?thesis using clear_ok [OF assms(3,5)] assms(1,2) by (auto simp: mutually_serializable_def)
  next
    case 2
    have le: "index_pause_array (pz s) + 1 \<le> int NUM_PAUSE" using assms(3) by (simp add: pauses_ok_def)
    show ?thesis
    proof (cases "index_pause_array (pz s) + 1 = int NUM_PAUSE")
      case True
      then show ?thesis using 2 note_pause_fresh(2) [OF assms(3) 2(3) assms(5,4)] assms(1,2) by (simp add: mutually_serializable_def)
    next
      case False
      then obtain p' where "note_pause t (pz s) = Some (Some (True, p'))" "pauses_ok p'" "pause_count t p' = Some 1"
        using le note_pause_fresh(1) [OF assms(3) 2(3) assms(5,4)] by auto
      then show ?thesis using False 2 assms(1,2) by (simp add: mutually_serializable_def)
    qed
  next
    case (3 c)
    show ?thesis
    proof (cases "c > 5")
      case True
      then show ?thesis using 3 note_pause_again(1) [OF assms(3) 3(3) assms(5)] assms(1,2) by (auto simp: mutually_serializable_def ab)
    next
      case False
      then obtain p' where "note_pause t (pz s) = Some (Some (False, p'))" "pauses_ok p'" "pause_count t p' = Some (c + 1)"
        using note_pause_again(2) [OF assms(3) 3(3) assms(5)] by auto
      then show ?thesis using False 3 assms(1,2) by (simp add: mutually_serializable_def)
    qed
  next
    case 4
    then show ?thesis using assms(1,2) by (auto simp: mutually_serializable_def ab)
  qed
qed

text \<open>C9: The decision, branch by branch, for a live transaction other than the backup and a well-formed
  table of pauses.  A transaction without locks may take any file.  One that holds a file may take
  another one if the backup has treated both alike, and then its pauses are forgotten.  If it is past the
  backup and the file is not, it pauses, each pause counted once, up to six times; after that, and in
  the opposite conflict at once, it is aborted.  A transaction that pauses for the first time takes a new
  slot of the table; slot 0 is never used, so that the hundredth such transaction makes an access out of bounds.\<close>

theorem ms_decision:
  assumes "find_txn t (head_txn_list s) = Some n" and "pauses_ok (pz s)" and "t \<noteq> 0" and "t \<noteq> - 1"
  shows "if tn_file_rec_no n = None then mutually_serializable t rb s = Some (Serializable, s)
     else if rb = tn_before_after n then
       \<exists>p. mutually_serializable t rb s = Some (Serializable, s\<lparr>pz := p\<rparr>) \<and> pauses_ok p \<and> pause_count t p = None
     else if rb = 0 \<and> tn_before_after n = 1 then
       (case pause_count t (pz s) of
          None \<Rightarrow> if index_pause_array (pz s) + 1 = int NUM_PAUSE then mutually_serializable t rb s = None
                  else \<exists>s'. mutually_serializable t rb s = Some (Pausing, s') \<and> pauses_ok (pz s') \<and>
                         pause_count t (pz s') = Some 1 \<and> lk s' = lk s \<and> head_txn_list s' = head_txn_list s
        | Some c \<Rightarrow> if c > 5 then mutually_serializable t rb s =
              map_option (\<lambda>(_, s'). (Aborted, s')) (on_txn_abort t (s\<lparr>st := (st s)\<lparr>abrt_after_pause := abrt_after_pause (st s) + 1\<rparr>\<rparr>))
            else \<exists>s'. mutually_serializable t rb s = Some (Pausing, s') \<and> pauses_ok (pz s') \<and>
                   pause_count t (pz s') = Some (c + 1) \<and> lk s' = lk s \<and> head_txn_list s' = head_txn_list s)
     else mutually_serializable t rb s =
       map_option (\<lambda>(_, s'). (Aborted, s')) (on_txn_abort t (s\<lparr>st := (st s)\<lparr>no_of_abrt := no_of_abrt (st s) + 1\<rparr>\<rparr>))"
proof (cases "tn_file_rec_no n = None")
  case True
  then show ?thesis using assms(1) by (simp add: mutually_serializable_def)
next
  case False
  then show ?thesis unfolding if_not_P [OF False] by (rule ms_decision_raw [OF assms(1) _ assms(2-4)])
qed

text \<open>A server where transaction 1 holds file 7 after the backup has read it.\<close>

definition after_backup :: server where
  "after_backup = held_server\<lparr>BACKUP := ACTIVE, head_txn_list := [(get_txn_node 1 0)\<lparr>tn_file_rec_no := Some 0, tn_before_after := 1\<rparr>]\<rparr>"

lemma after_backup_pauses: "pauses_ok (pz after_backup)" "pause_count 1 (pz after_backup) = None" "index_pause_array (pz after_backup) = 0"
  by (simp_all add: after_backup_def held_server_def begun_server_def new_txn_insert_def global_init_def pauses_ok_def rounds_def
      slots_def pause_count_def NUM_PAUSE_def)

theorem ms_decision_witness:
  "if Some (0::addr) = None then mutually_serializable 1 0 after_backup = Some (Serializable, after_backup)
     else if 0 = (1::int) then
       \<exists>p. mutually_serializable 1 0 after_backup = Some (Serializable, after_backup\<lparr>pz := p\<rparr>) \<and> pauses_ok p \<and> pause_count 1 p = None
     else if 0 = (0::int) \<and> 1 = (1::int) then
       (case pause_count 1 (pz after_backup) of
          None \<Rightarrow> if index_pause_array (pz after_backup) + 1 = int NUM_PAUSE then mutually_serializable 1 0 after_backup = None
                  else \<exists>s'. mutually_serializable 1 0 after_backup = Some (Pausing, s') \<and> pauses_ok (pz s') \<and>
                         pause_count 1 (pz s') = Some 1 \<and> lk s' = lk after_backup \<and> head_txn_list s' = head_txn_list after_backup
        | Some c \<Rightarrow> if c > 5 then mutually_serializable 1 0 after_backup =
              map_option (\<lambda>(_, s'). (Aborted, s')) (on_txn_abort 1 (after_backup\<lparr>st := (st after_backup)\<lparr>abrt_after_pause := abrt_after_pause (st after_backup) + 1\<rparr>\<rparr>))
            else \<exists>s'. mutually_serializable 1 0 after_backup = Some (Pausing, s') \<and> pauses_ok (pz s') \<and>
                   pause_count 1 (pz s') = Some (c + 1) \<and> lk s' = lk after_backup \<and> head_txn_list s' = head_txn_list after_backup)
     else mutually_serializable 1 0 after_backup =
       map_option (\<lambda>(_, s'). (Aborted, s')) (on_txn_abort 1 (after_backup\<lparr>st := (st after_backup)\<lparr>no_of_abrt := no_of_abrt (st after_backup) + 1\<rparr>\<rparr>))"
  using ms_decision [of 1 after_backup "(get_txn_node 1 0)\<lparr>tn_file_rec_no := Some 0, tn_before_after := 1\<rparr>" 0, OF _ after_backup_pauses(1)]
  by (simp add: after_backup_def get_txn_node_def)

text \<open>One transaction asking again and again for the same file: the number of pauses it makes before
  the answer is no longer to pause.\<close>

fun ms_retry :: "nat \<Rightarrow> int \<Rightarrow> int \<Rightarrow> nat \<Rightarrow> server \<Rightarrow> (nat \<times> ms_result \<times> server) option" where
  "ms_retry 0 txnid rb i s = None"
| "ms_retry (Suc k) txnid rb i s = do {
     (r, s) \<leftarrow> mutually_serializable txnid rb s;
     if r = Pausing then do { s \<leftarrow> after_pause txnid s; ms_retry k txnid rb (Suc i) s }
     else Some (i, r, s) }"

text \<open>A transaction in conflict, whose locks are simple enough for its abort to return.\<close>

definition conflicting :: "int \<Rightarrow> addr list \<Rightarrow> log_record list \<Rightarrow> server \<Rightarrow> bool" where
  "conflicting t xs rs s \<longleftrightarrow> ready t xs rs s \<and> waits_sorted (head_wait_list s) \<and> (\<forall>a \<in> owned (lk s) xs t. plain (lk s) a) \<and>
     (\<exists>n. find_txn t (head_txn_list s) = Some n \<and> tn_file_rec_no n \<noteq> None \<and> tn_before_after n = 1) \<and> pauses_ok (pz s)"

lemma ready_cong:
  assumes "ready t xs rs s" and "lk s' = lk s" and "head_txn_list s' = head_txn_list s" and "event_log s' = event_log s"
    and "log_mutex s' = log_mutex s" and "log_dev_ok s' = log_dev_ok s"
  shows "ready t xs rs s'"
  using assms(1) unfolding ready_def lock_inv_def log_inv_def log_size_def assms(2-6) .

lemma pausing_frame:
  assumes "mutually_serializable t rb s = Some (Pausing, s1)"
  shows "\<exists>p z. s1 = s\<lparr>pz := p, st := z\<rparr>"
proof -
  have "post (mutually_serializable t rb s) (\<lambda>(r, s1). r = Pausing \<longrightarrow> s1 = s\<lparr>pz := pz s1, st := st s1\<rparr>)"
    unfolding mutually_serializable_def by (intro post_intros) auto
  then have "s1 = s\<lparr>pz := pz s1, st := st s1\<rparr>" using assms by (auto simp: post_def)
  then show ?thesis by blast
qed

lemma pause_round:
  assumes c: "conflicting t xs rs s" and ms: "mutually_serializable t 0 s = Some (Pausing, s1)" and p: "pauses_ok (pz s1)"
  shows "\<exists>s2. after_pause t s1 = Some s2 \<and> conflicting t xs rs s2 \<and> pz s2 = pz s1 \<and> lk s2 = lk s"
proof -
  obtain p z where s1: "s1 = s\<lparr>pz := p, st := z\<rparr>" using pausing_frame [OF ms] by blast
  obtain n where n: "find_txn t (head_txn_list s) = Some n" "tn_file_rec_no n \<noteq> None" "tn_before_after n = 1" and rd: "ready t xs rs s"
    using c by (auto simp: conflicting_def)
  let ?g = "\<lambda>n. n\<lparr>tn_cur_state := RUNNING\<rparr>"
  obtain ts where ts: "upd_txn t ?g (head_txn_list s) = Some ts"
    using upd_txn_None_iff [of t ?g "head_txn_list s"] n(1) by fastforce
  let ?s2 = "s1\<lparr>head_txn_list := ts, st := z\<lparr>total_wait_time := total_wait_time z + 2\<rparr>\<rparr>"
  have a: "after_pause t s1 = Some ?s2" using ts by (simp add: after_pause_def set_txn_def s1)
  let ?s0 = "s\<lparr>head_txn_list := ts\<rparr>"
  have st: "set_txn t ?g s = Some ?s0" using ts by (simp add: set_txn_def)
  have f: "find_txn t ts = Some (?g n)" using find_set_rec [OF st, of t] n(1) by simp
  have "log_inv ?s0 rs" using log_inv_set_rec [OF _ st] rd by (simp add: ready_def)
  moreover have "lock_inv ?s0 xs" using txn_view_set [OF st] rd by (simp add: ready_def lock_inv_def)
  ultimately have "ready t xs rs ?s0" using rd f by (simp add: ready_def log_size_def)
  then have "ready t xs rs ?s2" by (rule ready_cong) (simp_all add: s1)
  then have "conflicting t xs rs ?s2" using c n f p by (simp add: conflicting_def s1)
  then show ?thesis using a by (auto simp: s1)
qed

lemma retry_from:
  "conflicting t xs rs s \<Longrightarrow> pause_count t (pz s) = Some c \<Longrightarrow> t \<noteq> 0 \<Longrightarrow> t \<noteq> - 1 \<Longrightarrow> c + int k = 6 \<Longrightarrow>
   \<exists>s'. ms_retry (Suc k) t 0 i s = Some (i + k, Aborted, s') \<and> find_txn t (head_txn_list s') = None \<and>
     lock_inv s' (filter (\<lambda>a. parent_of (lk s) a \<noteq> t) xs)"
proof (induction k arbitrary: c s i)
  case 0
  have cf: "conflicting t xs rs s" by fact
  then obtain n where n: "find_txn t (head_txn_list s) = Some n" "tn_file_rec_no n \<noteq> None" "tn_before_after n = 1" "pauses_ok (pz s)"
    by (auto simp: conflicting_def)
  let ?s = "s\<lparr>st := (st s)\<lparr>abrt_after_pause := abrt_after_pause (st s) + 1\<rparr>\<rparr>"
  have ms: "mutually_serializable t 0 s = map_option (\<lambda>(_, s'). (Aborted, s')) (on_txn_abort t ?s)"
    using ms_decision_raw [OF n(1,2,4) 0(3,4), of 0] 0(2,5) n(3) by simp
  have rd: "ready t xs rs ?s" using cf by (rule_tac ready_cong [of t xs rs s]) (simp_all add: conflicting_def)
  obtain s' where s': "on_txn_abort t ?s = Some (t, s')"
    using abort.finish_total [OF rd] cf by (auto simp: conflicting_def)
  have "find_txn t (head_txn_list s') = None" "lock_inv s' (filter (\<lambda>a. parent_of (lk s) a \<noteq> t) xs)"
    using abort.finish_result [OF rd s'] by auto
  moreover have "ms_retry (Suc 0) t 0 i s = Some (i, Aborted, s')" using ms s' by simp
  ultimately show ?case by simp
next
  case (Suc k)
  have cf: "conflicting t xs rs s" by fact
  then obtain n where n: "find_txn t (head_txn_list s) = Some n" "tn_file_rec_no n \<noteq> None" "tn_before_after n = 1" "pauses_ok (pz s)"
    by (auto simp: conflicting_def)
  obtain s1 where s1: "mutually_serializable t 0 s = Some (Pausing, s1)" "pauses_ok (pz s1)" "pause_count t (pz s1) = Some (c + 1)"
    using ms_decision_raw [OF n(1,2,4) Suc.prems(3,4), of 0] Suc.prems(2,5) n(3) by auto
  obtain s2 where s2: "after_pause t s1 = Some s2" "conflicting t xs rs s2" "pz s2 = pz s1" "lk s2 = lk s"
    using pause_round [OF cf s1(1,2)] by blast
  have "\<exists>s'. ms_retry (Suc k) t 0 (Suc i) s2 = Some (Suc i + k, Aborted, s') \<and> find_txn t (head_txn_list s') = None \<and>
     lock_inv s' (filter (\<lambda>a. parent_of (lk s2) a \<noteq> t) xs)"
    by (rule Suc.IH [of s2 "c + 1"]) (use s2 s1(3) Suc.prems(3,4,5) in auto)
  moreover have "ms_retry (Suc (Suc k)) t 0 i s = ms_retry (Suc k) t 0 (Suc i) s2"
    unfolding ms_retry.simps(2) [of "Suc k" t 0 i s] using s1(1) s2(1) by simp
  ultimately show ?case using s2(4) by simp
qed

text \<open>C10: No transaction pauses for ever.  Take a transaction past the backup that has not paused yet,
  holds its files in exclusive mode with no delayed operation (so that its abort returns), and finds a
  slot free in the table of pauses.  If it keeps asking for a file the backup has not read, it pauses
  exactly six times (the comment on \<open>abrt_after_pause\<close> in my_header.h says three) and is then aborted:
  it leaves the list of transactions and its locks, and the lock table stays well formed.\<close>

theorem ms_pauses_bounded:
  assumes "conflicting t xs rs s" and "pause_count t (pz s) = None" and "index_pause_array (pz s) + 1 < int NUM_PAUSE"
    and "t \<noteq> 0" and "t \<noteq> - 1"
  shows "\<exists>s'. ms_retry 7 t 0 0 s = Some (6, Aborted, s') \<and> find_txn t (head_txn_list s') = None \<and>
     lock_inv s' (filter (\<lambda>a. parent_of (lk s) a \<noteq> t) xs)"
proof -
  obtain n where n: "find_txn t (head_txn_list s) = Some n" "tn_file_rec_no n \<noteq> None" "tn_before_after n = 1" "pauses_ok (pz s)"
    using assms(1) by (auto simp: conflicting_def)
  obtain s1 where s1: "mutually_serializable t 0 s = Some (Pausing, s1)" "pauses_ok (pz s1)" "pause_count t (pz s1) = Some 1"
    using ms_decision_raw [OF n(1,2,4) assms(4,5), of 0] assms(2,3) n(3) by auto
  obtain s2 where s2: "after_pause t s1 = Some s2" "conflicting t xs rs s2" "pz s2 = pz s1" "lk s2 = lk s"
    using pause_round [OF assms(1) s1(1,2)] by blast
  have "\<exists>s'. ms_retry (Suc 5) t 0 1 s2 = Some (1 + 5, Aborted, s') \<and> find_txn t (head_txn_list s') = None \<and>
     lock_inv s' (filter (\<lambda>a. parent_of (lk s2) a \<noteq> t) xs)"
    by (rule retry_from [of t xs rs s2 1]) (use s1(3) s2(2,3) assms(4,5) in simp_all)
  moreover have "ms_retry 7 t 0 0 s = ms_retry (Suc 5) t 0 1 s2"
    using s1(1) s2(1) ms_retry.simps(2) [of 6 t 0 0 s] by simp
  ultimately show ?thesis using s2(4) by simp
qed

theorem ms_pauses_bounded_witness:
  "\<exists>s'. ms_retry 7 1 0 0 after_backup = Some (6, Aborted, s') \<and> find_txn 1 (head_txn_list s') = None \<and>
     lock_inv s' (filter (\<lambda>a. parent_of (lk after_backup) a \<noteq> 1) [0])"
proof (rule ms_pauses_bounded)
  have "ready 1 [0] [beg_record (global_init []) 1] after_backup"
    using held_ready by (simp add: ready_def after_backup_def held_server_def lock_inv_def log_inv_def log_size_def
        txn_view_def txns_ok_def chain_end_def get_txn_node_def) auto
  then show "conflicting 1 [0] [beg_record (global_init []) 1] after_backup"
    using held_plain after_backup_pauses(1) by (simp add: conflicting_def) (simp add: after_backup_def held_server_def get_txn_node_def)
qed (simp_all add: after_backup_pauses NUM_PAUSE_def)

end
