(* ===== verification/LockManager.thy ===== *)
theory LockManager
  imports MSManager
begin

text \<open>
  Taking a lock (\<open>insert_file_list\<close> in Lock_manager1.c, \<open>resume\<close> in Lock_manager2.c).  The caller
  holds \<open>file_mutex\<close>.  A request is granted, refused (its transaction has been aborted), or the
  thread stops: asleep on the condition variable of the file, asleep until the other waiters
  have seen a deadlock victim, without the mutex after it has woken to go on or to abort, or pausing for
  the backup.  Each stop ends one step of the model; \<open>woken_lock\<close>, \<open>victim_lock\<close>, \<open>victim_woken\<close>, \<open>try_again\<close>,
  \<open>refuse_victim\<close> and \<open>unpaused_lock\<close> are the rest of the call.  The local \<open>read_bit\<close> of
  \<open>insert_file_list\<close> is never assigned: the value found in it is the argument \<open>rb\<close>.
\<close>

section \<open>Operations\<close>

text \<open>A request refused without a node is \<open>Refused\<close>; \<open>Paused p\<close> remembers the record that is to be
  freed after the pause, if any.\<close>

datatype lock_out = Got addr | Refused | Asleep | Awaiting | Woken | Doomed | Paused "addr option"

text \<open>Any other argument falls off the end of the function: no value.\<close>

definition file_open_flags :: "cstring \<Rightarrow> int option" where
  "file_open_flags a =
     (if a = ''0'' then Some 0 else if a = ''1'' then Some 1 else if a = ''2'' then Some 2
      else if a = ''1025'' then Some 3 else if a = ''1026'' then Some 4 else None)"

definition insert_same_txn_list :: "int \<Rightarrow> int \<Rightarrow> addr \<Rightarrow> server \<Rightarrow> server option" where
  "insert_same_txn_list txnid read_bit new s = do {
     t \<leftarrow> find_txn txnid (head_txn_list s);
     case tn_file_rec_no t of
       None \<Rightarrow> set_txn txnid (\<lambda>t. t\<lparr>tn_file_rec_no := Some new, tn_before_after := read_bit\<rparr>) s
     | Some a \<Rightarrow> do {
         l \<leftarrow> fl_last fl_next_txn (lk s) a;
         m \<leftarrow> fl_set (Some l) (\<lambda>n. n\<lparr>fl_next_txn := Some new\<rparr>) (lk s);
         Some (s\<lparr>lk := m\<rparr>) } }"

text \<open>The file is in nobody's hands.  The backup transaction is not checked against itself.\<close>

definition grant_unlocked :: "int \<Rightarrow> int \<Rightarrow> int \<Rightarrow> addr \<Rightarrow> addr option \<Rightarrow> server \<Rightarrow> (lock_out \<times> server) option" where
  "grant_unlocked f_inode txnid rb new loc s = do {
     (ret, s) \<leftarrow> (if txnid \<noteq> 0 then
                    if BACKUP s = INACTIVE then Some (Serializable, s) else mutually_serializable txnid rb s
                  else Some (Serializable, s));
     case ret of
       Serializable \<Rightarrow> do {
         m \<leftarrow> link_unlocked new f_inode loc (lk s);
         s \<leftarrow> insert_same_txn_list txnid rb new (s\<lparr>lk := m\<rparr>);
         Some (Got new, s) }
     | Pausing \<Rightarrow> Some (Paused (Some new), s)
     | Aborted \<Rightarrow> do { m \<leftarrow> free_file_node new (lk s); Some (Refused, s\<lparr>lk := m\<rparr>) } }"

text \<open>The file is shared, and so is the request: a record behind the last holder's.  Here the check
  is made whether or not a backup is running, and a refused request leaks its record.\<close>

definition grant_shared :: "int \<Rightarrow> int \<Rightarrow> addr \<Rightarrow> addr \<Rightarrow> server \<Rightarrow> (lock_out \<times> server) option" where
  "grant_shared txnid rb new loc s = do {
     (ret, s) \<leftarrow> (if txnid \<noteq> 0 then mutually_serializable txnid rb s else Some (Serializable, s));
     case ret of
       Serializable \<Rightarrow> do {
         ptr \<leftarrow> fl_last fl_next_shared_rec (lk s) loc;
         m \<leftarrow> link_shared new ptr (lk s);
         s \<leftarrow> insert_same_txn_list txnid rb new (s\<lparr>lk := m\<rparr>);
         Some (Got new, s) }
     | Pausing \<Rightarrow> Some (Paused None, s)
     | Aborted \<Rightarrow> Some (Refused, s) }"

text \<open>The request has to wait; \<open>pthread_cond_wait\<close> lets go of \<open>file_mutex\<close>.\<close>

definition start_waiting :: "int \<Rightarrow> int \<Rightarrow> int \<Rightarrow> server \<Rightarrow> server option" where
  "start_waiting f_inode txnid mode s =
     set_txn txnid (\<lambda>t. t\<lparr>tn_cur_state := WAITING, tn_waiting_for_inode := f_inode, tn_wait_mode := mode\<rparr>) s"

definition block_request :: "int \<Rightarrow> int \<Rightarrow> int \<Rightarrow> addr \<Rightarrow> server \<Rightarrow> (lock_out \<times> server) option" where
  "block_request f_inode f_flags txnid new s = do {
     let loc_in_wait = search_wait_list f_inode (head_wait_list s);
     s \<leftarrow> start_waiting f_inode txnid (if f_flags = 0 then 0 else 1) s;
     m \<leftarrow> free_file_node new (lk s);
     let s = s\<lparr>lk := m\<rparr>;
     s \<leftarrow> (case loc_in_wait of
             None \<Rightarrow> insert_wait_list f_inode txnid s
           | Some w \<Rightarrow> update_wait_list (wn_file_inode w) txnid s);
     Some (Asleep, s) }"

text \<open>\<open>while (file_ptr->parent_txn != 0) { file_ptr = file_ptr->next_shared_rec; if (NULL) break; }\<close>\<close>

fun find_backup :: "(addr \<Rightarrow> file_lock option) \<Rightarrow> nat \<Rightarrow> addr option \<Rightarrow> addr option option" where
  "find_backup h 0 p = None"
| "find_backup h (Suc k) p =
     (case p of None \<Rightarrow> Some None
      | Some a \<Rightarrow> do { n \<leftarrow> h a; if fl_parent_txn n = 0 then Some (Some a) else find_backup h k (fl_next_shared_rec n) })"

definition insert_file_list :: "int \<Rightarrow> int \<Rightarrow> int \<Rightarrow> int \<Rightarrow> int \<Rightarrow> addr option \<Rightarrow> server \<Rightarrow> (lock_out \<times> server) option" where
  "insert_file_list f_inode f_flags txnid rb search_ret loc s = do {
     let (new, m) = fl_alloc (get_file_node f_inode 0 f_flags txnid) (lk s);
     let s = s\<lparr>lk := m\<rparr>;
     _ \<leftarrow> find_txn txnid (head_txn_list s);
     if search_ret = 0 then grant_unlocked f_inode txnid rb new loc s
     else do {
       a \<leftarrow> loc;
       n \<leftarrow> fl_heap (lk s) a;
       if fl_parent_txn n = txnid then Some (Got a, s)
       else if fl_file_mode n = 1 then block_request f_inode f_flags txnid new s
       else if search_wait_list f_inode (head_wait_list s) = None then
         if f_flags = 0 then grant_shared txnid rb new a s
         else block_request f_inode f_flags txnid new s
       else do {
         b \<leftarrow> find_backup (fl_heap (lk s)) (Suc (brk (lk s))) (Some a);
         if b \<noteq> None \<and> f_flags = 0 then grant_shared txnid rb new a s
         else block_request f_inode f_flags txnid new s } } }"

definition resume :: "int \<Rightarrow> int \<Rightarrow> int \<Rightarrow> int \<Rightarrow> server \<Rightarrow> (lock_out \<times> server) option" where
  "resume f_inode f_flags txnid rb s = do {
     (search_ret, loc) \<leftarrow> search_file_list f_inode (lk s);
     insert_file_list f_inode f_flags txnid rb search_ret loc s }"

text \<open>A waiter runs again, with \<open>file_mutex\<close>, and looks for a victim.  If it may go on, or has to abort, it lets
  go of the mutex first: what it does then is a step of its own, and others may come between.\<close>

definition woken_lock :: "int \<Rightarrow> int \<Rightarrow> server \<Rightarrow> (lock_out \<times> server) option" where
  "woken_lock f_inode txnid s = do {
     (out, s) \<leftarrow> after_wake f_inode txnid s;
     Some (case out of Resume \<Rightarrow> Woken | Sleep_again \<Rightarrow> Asleep | Abort_now \<Rightarrow> Doomed | Await_wake \<Rightarrow> Awaiting, s) }"

definition stop_waiting :: "int \<Rightarrow> server \<Rightarrow> server option" where
  "stop_waiting txnid s =
     set_txn txnid (\<lambda>t. t\<lparr>tn_cur_state := RUNNING, tn_waiting_for_inode := 0, tn_wait_mode := - 1\<rparr>) s"

definition try_again :: "int \<Rightarrow> int \<Rightarrow> int \<Rightarrow> int \<Rightarrow> server \<Rightarrow> (lock_out \<times> server) option" where
  "try_again f_inode f_flags txnid rb s = do { s \<leftarrow> stop_waiting txnid s; resume f_inode f_flags txnid rb s }"

definition refuse_victim :: "int \<Rightarrow> server \<Rightarrow> (lock_out \<times> server) option" where
  "refuse_victim txnid s = do { (_, s) \<leftarrow> on_txn_abort txnid s; Some (Refused, s) }"

text \<open>The victim that is not the last to wake sleeps on \<open>wake_cond\<close>, unless the others were quicker;
  then it goes on to abort.\<close>

definition victim_lock :: "int \<Rightarrow> int \<Rightarrow> server \<Rightarrow> (lock_out \<times> server) option" where
  "victim_lock f_inode txnid s = do {
     (sleeps, s) \<leftarrow> await_wake f_inode txnid s;
     if sleeps then Some (Awaiting, s)
     else do { s \<leftarrow> abort_after_wake f_inode s; Some (Doomed, s) } }"

definition victim_woken :: "int \<Rightarrow> int \<Rightarrow> server \<Rightarrow> (lock_out \<times> server) option" where
  "victim_woken f_inode txnid s = do {
     s \<leftarrow> leave_wake_cond f_inode txnid s;
     s \<leftarrow> abort_after_wake f_inode s;
     Some (Doomed, s) }"

definition unpaused_lock :: "int \<Rightarrow> int \<Rightarrow> int \<Rightarrow> int \<Rightarrow> addr option \<Rightarrow> server \<Rightarrow> (lock_out \<times> server) option" where
  "unpaused_lock f_inode f_flags txnid rb new s = do {
     s \<leftarrow> after_pause txnid s;
     m \<leftarrow> (case new of None \<Rightarrow> Some (lk s) | Some a \<Rightarrow> free_file_node a (lk s));
     resume f_inode f_flags txnid rb (s\<lparr>lk := m\<rparr>) }"

end
