(* ===== verification/LockGrant.thy ===== *)
theory LockGrant
  imports LockManager
begin

text \<open>
  The invariant of the lock table across requests: whatever a request for a lock does, the lock
  list stays in order, only shared records share an inode, and every record is on the list of
  its transaction.  A granted lock belongs to the transaction that asked.
\<close>

section \<open>The table seen through the fields that matter\<close>

definition fl_tab where
  "fl_tab n = (fl_file_inode n, fl_file_mode n, fl_next_shared_rec n, fl_prev_shared_rec n, fl_next n, fl_prev n)"

lemma fl_tab_field:
  assumes "map_option fl_tab p = map_option fl_tab q"
  shows "map_option fl_file_inode p = map_option fl_file_inode q" "map_option fl_file_mode p = map_option fl_file_mode q"
    "map_option (\<lambda>n. (fl_prev n, fl_next n)) p = map_option (\<lambda>n. (fl_prev n, fl_next n)) q"
    "p = None \<longleftrightarrow> q = None"
  using assms by (cases p; cases q; simp add: fl_tab_def)+

lemma shared_ok_tab:
  assumes "\<And>b. map_option fl_tab (fl_heap m' b) = map_option fl_tab (fl_heap m b)" and "brk m' = brk m" and "shared_ok X m"
  shows "shared_ok X m'"
  unfolding shared_ok_def
proof (intro allI impI)
  fix a n b
  assume n: "fl_heap m' a = Some n" and b: "fl_next_shared_rec n = Some b \<or> fl_prev_shared_rec n = Some b"
  have old: "\<exists>k. fl_heap m x = Some k \<and> fl_tab k = fl_tab y" if "fl_heap m' x = Some y" for x y
    using assms(1) [of x] that by (cases "fl_heap m x") auto
  obtain k where k: "fl_heap m a = Some k" "fl_tab k = fl_tab n" using old [OF n] by blast
  have b': "fl_next_shared_rec k = Some b \<or> fl_prev_shared_rec k = Some b" using b k(2) by (simp add: fl_tab_def)
  have "b \<in> X \<and> fl_file_inode n' = fl_file_inode n" if n': "fl_heap m' b = Some n'" for n'
  proof -
    obtain j where j: "fl_heap m b = Some j" "fl_tab j = fl_tab n'" using old [OF n'] by blast
    show ?thesis using shared_okD(2,3) [OF assms(3) k(1) b' j(1)] j(2) k(2) by (simp add: fl_tab_def)
  qed
  moreover have "b < brk m'" using shared_okD(1) [OF assms(3) k(1) b'] assms(2) by simp
  ultimately show "b < brk m' \<and> (\<forall>n'. fl_heap m' b = Some n' \<longrightarrow> b \<in> X \<and> fl_file_inode n' = fl_file_inode n)" by blast
qed

lemma table_ok_tab:
  assumes "\<And>b. map_option fl_tab (fl_heap m' b) = map_option fl_tab (fl_heap m b)" and "brk m' = brk m"
    and "head_lock_list m' = head_lock_list m" and "wr_heap m' = wr_heap m" and "table_ok m xs"
  shows "table_ok m' xs"
proof -
  note f = fl_tab_field [OF assms(1)]
  have "mem_ok m'"
    using assms(5) f(4) assms(2,4) unfolding table_ok_def lock_list_def mem_ok_def by (metis option.distinct(1) option.exhaust)
  then have "lock_list m' xs"
    using assms(5) dseg_cong [of xs "fl_heap m'" "fl_heap m"] f(3) assms(3) by (simp add: table_ok_def lock_list_def)
  moreover have "ino m' = ino m" "mode_of m' = mode_of m" using f(1,2) by (auto simp: ino_alt mode_of_alt)
  moreover have "shared_ok (set xs) m'" using shared_ok_tab [OF assms(1,2)] assms(5) by (simp add: table_ok_def)
  ultimately show ?thesis using assms(5) by (simp add: table_ok_def inodes_sorted_def compatible_def)
qed

section \<open>Records that are not in the list\<close>

lemma lock_list_other:
  assumes "lock_list m xs" and "a \<notin> set xs" and "mem_ok m'" and "fl_heap m' = (fl_heap m)(a := v)" and "head_lock_list m' = head_lock_list m"
  shows "lock_list m' xs"
  using assms by (simp add: lock_list_def dseg_upd_other)

lemma view_other:
  assumes "fl_heap m' = (fl_heap m)(a := v)" and "b \<noteq> a"
  shows "ino m' b = ino m b" "mode_of m' b = mode_of m b" "parent_of m' b = parent_of m b"
  using assms by (simp_all add: ino_def mode_of_def parent_of_def)

lemma lock_inv_other:
  assumes inv: "lock_inv s xs" and a: "a \<notin> set xs" and h: "fl_heap m' = (fl_heap (lk s))(a := v)"
    and b: "head_lock_list m' = head_lock_list (lk s)" "mem_ok m'" "brk (lk s) \<le> brk m'"
    and v: "\<And>n. v = Some n \<Longrightarrow> fl_next_shared_rec n = None \<and> fl_prev_shared_rec n = None \<and>
      (fl_heap (lk s) a = None \<longrightarrow> a = brk (lk s)) \<and> (\<forall>k. fl_heap (lk s) a = Some k \<longrightarrow> fl_file_inode k = fl_file_inode n)"
  shows "lock_inv (s\<lparr>lk := m'\<rparr>) xs"
proof -
  let ?m = "lk s"
  have tb: "table_ok ?m xs" and ow: "owner_ok ?m (txn_view (head_txn_list s)) xs" using inv by (simp_all add: lock_inv_def)
  have vw: "ino m' x = ino ?m x" "mode_of m' x = mode_of ?m x" "parent_of m' x = parent_of ?m x" if "x \<in> set xs" for x
    using view_other [OF h, of x] that a by auto
  have "lock_list m' xs" using lock_list_other [OF _ a b(2) h b(1)] tb by (simp add: table_ok_def)
  moreover have "inodes_sorted m' xs"
    using tb vw(1) by (simp add: table_ok_def inodes_sorted_def cong: map_cong)
  moreover have "compatible m' xs" using tb vw by (simp add: table_ok_def compatible_def)
  moreover have "shared_ok (set xs) m'"
    unfolding shared_ok_def
  proof (intro allI impI)
    fix c n d
    assume n: "fl_heap m' c = Some n" and d: "fl_next_shared_rec n = Some d \<or> fl_prev_shared_rec n = Some d"
    have c: "c \<noteq> a" using n d v by (auto simp: h)
    then have n0: "fl_heap ?m c = Some n" using n by (simp add: h)
    have sh: "shared_ok (set xs) ?m" using tb by (simp add: table_ok_def)
    have "d \<in> set xs \<and> fl_file_inode n' = fl_file_inode n" if n': "fl_heap m' d = Some n'" for n'
    proof (cases "d = a")
      case False
      then have "fl_heap ?m d = Some n'" using n' by (simp add: h)
      then show ?thesis using shared_okD(2,3) [OF sh n0 d] by blast
    next
      case True
      then have "fl_heap ?m a \<noteq> None" using shared_okD(1) [OF sh n0 d] n' v by (auto simp: h)
      then obtain k where "fl_heap ?m d = Some k" using True by auto
      then show ?thesis using shared_okD(3) [OF sh n0 d] True a by blast
    qed
    moreover have "d < brk m'" using shared_okD(1) [OF sh n0 d] b(3) by simp
    ultimately show "d < brk m' \<and> (\<forall>n'. fl_heap m' d = Some n' \<longrightarrow> d \<in> set xs \<and> fl_file_inode n' = fl_file_inode n)" by blast
  qed
  moreover have "owner_ok m' (txn_view (head_txn_list s)) xs"
  proof -
    have o: "owned m' xs t = owned ?m xs t" for t using vw(3) by (auto simp: owned_def)
    have "\<exists>as. lpath (fl_heap m') fl_next_txn p as None \<and> set as = owned m' xs t"
      if tp: "(t, p) \<in> set (txn_view (head_txn_list s))" for t p
    proof -
      obtain as where as: "lpath (fl_heap ?m) fl_next_txn p as None" "set as = owned ?m xs t" using ow tp by (auto simp: owner_ok_def)
      have "a \<notin> set as" using as(2) a by (auto simp: owned_def)
      then have "lpath (fl_heap m') fl_next_txn p as None" using as(1) by (simp add: h lpath_upd_other)
      then show ?thesis using as(2) o by blast
    qed
    then show ?thesis using ow vw(3) by (auto simp: owner_ok_def)
  qed
  ultimately show ?thesis by (simp add: lock_inv_def table_ok_def)
qed

lemma lock_inv_alloc:
  assumes "lock_inv s xs" and "fl_alloc n (lk s) = (new, m)" and "fl_next_shared_rec n = None" and "fl_prev_shared_rec n = None"
  shows "lock_inv (s\<lparr>lk := m\<rparr>) xs" "new \<notin> set xs" "fl_heap m new = Some n"
proof -
  have ll: "lock_list (lk s) xs" using assms(1) by (simp add: lock_inv_def table_ok_def)
  then have ok: "mem_ok (lk s)" by (simp add: lock_list_def)
  have m: "new = brk (lk s)" "m = (lk s)\<lparr>fl_heap := (fl_heap (lk s))(brk (lk s) \<mapsto> n), brk := Suc (brk (lk s))\<rparr>"
    using assms(2) by (auto simp: fl_alloc_def)
  have fr: "fl_heap (lk s) new = None" using ok m(1) by simp
  then show "new \<notin> set xs" using lock_list_alloc [OF ll] by fastforce
  then show "lock_inv (s\<lparr>lk := m\<rparr>) xs"
    using mem_ok_fl_alloc [OF ok assms(2)] assms(3,4) fr m
    by (intro lock_inv_other [OF assms(1), of new _ "Some n"]) auto
  show "fl_heap m new = Some n" using m by simp
qed

lemma lock_inv_free:
  assumes "lock_inv s xs" and "a \<notin> set xs" and "free_file_node a (lk s) = Some m"
  shows "lock_inv (s\<lparr>lk := m\<rparr>) xs"
proof -
  obtain n where "fl_heap (lk s) a = Some n" using assms(3) by (auto simp: free_file_node_def fl_set_def Option.bind_eq_Some_conv)
  then have m: "m = (lk s)\<lparr>fl_heap := (fl_heap (lk s))(a := None)\<rparr>" using assms(3) free_file_node_eq by simp
  have "mem_ok (lk s)" using assms(1) by (simp add: lock_inv_def table_ok_def lock_list_def)
  then show ?thesis using m mem_ok_upd(2) by (intro lock_inv_other [OF assms(1,2), of _ None]) auto
qed

section \<open>Requests that wait, pause or are refused\<close>

lemma lock_inv_view:
  "lock_inv s xs \<Longrightarrow> lk s' = lk s \<Longrightarrow> txn_view (head_txn_list s') = txn_view (head_txn_list s) \<Longrightarrow> lock_inv s' xs"
  by (simp add: lock_inv_def)

lemma set_txn_inv:
  assumes "lock_inv s xs" and "set_txn t g s = Some s'" and "\<And>n. tn_txn_id (g n) = tn_txn_id n" and "\<And>n. tn_file_rec_no (g n) = tn_file_rec_no n"
  shows "lock_inv s' xs"
  using assms(1) txn_view_set [OF assms(2,3,4)] assms(2)
  by (intro lock_inv_view [OF assms(1)]) (auto simp: set_txn_def Option.bind_eq_Some_conv)

lemma wait_ops_frame:
  "insert_wait_list f t s = Some s' \<Longrightarrow> lk s' = lk s \<and> head_txn_list s' = head_txn_list s"
  "update_wait_list f t s = Some s' \<Longrightarrow> lk s' = lk s \<and> head_txn_list s' = head_txn_list s"
  "update_wait_list_on_wake f s = Some s' \<Longrightarrow> lk s' = lk s \<and> head_txn_list s' = head_txn_list s"
  "set_wait f g s = Some s' \<Longrightarrow> lk s' = lk s \<and> head_txn_list s' = head_txn_list s"
  by (auto simp: insert_wait_list_def update_wait_list_def update_wait_list_on_wake_def set_wait_def count_conflict_def
      Option.bind_eq_Some_conv Let_def split: if_splits)

lemma log_call_only:
  "post (log_txn_abort t s) (\<lambda>(_, s'). log_only s s')" "post (log_txn_commit t s) (\<lambda>(_, s'). log_only s s')"
  "post (log_txn_end t p s) (\<lambda>(_, s'). log_only s s')"
proof -
  have u: "log_only s0 s2" if "update_txn t l s1 = Some s2" "log_only s0 s1" for l s0 s1 s2
    using update_txn_only [OF that(1)] that(2) by (simp add: log_only_def)
  show "post (log_txn_abort t s) (\<lambda>(_, s'). log_only s s')" "post (log_txn_commit t s) (\<lambda>(_, s'). log_only s s')"
    unfolding log_txn_abort_def log_txn_commit_def lock_log_def patch_prev_def
    by (intro post_intros; auto simp: log_only_def unlock_log_def write_record_def flush_log_def emit_def dest!: u [of _ _ _ s] split: if_splits)+
  show "post (log_txn_end t p s) (\<lambda>(_, s'). log_only s s')"
    unfolding log_txn_end_def lock_log_def patch_prev_def
    by (intro post_intros; auto simp: log_only_def unlock_log_def write_record_def flush_log_def emit_def split: if_splits)
qed

text \<open>The table as a set of grants: transaction, inode, mode.\<close>

type_synonym grant = "int \<times> int \<times> int"

definition grant_at :: "lockmem \<Rightarrow> addr \<Rightarrow> grant" where
  "grant_at m a = (parent_of m a, ino m a, mode_of m a)"

definition grants :: "lockmem \<Rightarrow> addr list \<Rightarrow> grant set" where
  "grants m xs = grant_at m ` set xs"

definition without :: "int \<Rightarrow> grant set \<Rightarrow> grant set" where
  "without t G = {g \<in> G. fst g \<noteq> t}"

lemma grants_cong: "(\<And>a. a \<in> set xs \<Longrightarrow> grant_at m' a = grant_at m a) \<Longrightarrow> grants m' xs = grants m xs"
  unfolding grants_def by (rule image_cong) simp_all

lemma grant_at_same_id: "same_id A m m' \<Longrightarrow> a \<notin> A \<Longrightarrow> grant_at m' a = grant_at m a"
  by (simp add: grant_at_def same_id_view)

lemma grants_same_id: "same_id {} m m' \<Longrightarrow> grants m' xs = grants m xs"
  by (rule grants_cong) (simp add: grant_at_same_id)

lemma grants_filter:
  assumes "same_id (owned m xs t) m m'"
  shows "grants m' (filter (\<lambda>a. parent_of m a \<noteq> t) xs) = without t (grants m xs)"
proof -
  have "grant_at m' a = grant_at m a" if "a \<in> set xs" "parent_of m a \<noteq> t" for a
    using that by (intro grant_at_same_id [OF assms]) (simp add: owned_def)
  then have "grants m' (filter (\<lambda>a. parent_of m a \<noteq> t) xs) = grant_at m ` {a \<in> set xs. parent_of m a \<noteq> t}"
    unfolding grants_def by (intro image_cong) auto
  then show ?thesis by (auto simp: grants_def without_def grant_at_def)
qed

text \<open>What a refused request leaves: all locks but those of the transaction, and every other record as
  it was.\<close>

definition shrunk :: "int \<Rightarrow> addr list \<Rightarrow> server \<Rightarrow> server \<Rightarrow> bool" where
  "shrunk t xs s s' \<longleftrightarrow> (\<exists>ys. lock_inv s' ys \<and> set ys \<subseteq> set xs \<and> grants (lk s') ys = without t (grants (lk s) xs)) \<and> same_id (set xs) (lk s) (lk s') \<and> brk (lk s') = brk (lk s)"

lemma end_shrinks:
  assumes inv: "lock_inv s xs" and lg: "post (lg t s) (\<lambda>(_, s1). log_only s s1)"
    and rel: "\<And>s1. lock_inv s1 xs \<Longrightarrow> post (rel t s1) (released_all t xs s1)"
  shows "post (do { (_, s) \<leftarrow> lg t s; s \<leftarrow> rel t s; p \<leftarrow> get_prev_log_LRN t s; s \<leftarrow> txn_delete t s; (_, s) \<leftarrow> log_txn_end t p s; Some (t, s) })
     (\<lambda>(_, s'). shrunk t xs s s')"
proof (rule postI)
  fix r
  assume "do { (_, s) \<leftarrow> lg t s; s \<leftarrow> rel t s; p \<leftarrow> get_prev_log_LRN t s; s \<leftarrow> txn_delete t s; (_, s) \<leftarrow> log_txn_end t p s; Some (t, s) } = Some r"
  then obtain l1 s1 s2 p s3 l2 s' where a: "lg t s = Some (l1, s1)" and b: "rel t s1 = Some s2"
    and d: "txn_delete t s2 = Some s3" and e: "log_txn_end t p s3 = Some (l2, s')" and r: "r = (t, s')"
    by (auto simp: Option.bind_eq_Some_conv)
  have o1: "log_only s s1" using postD [OF lg a] by simp
  then have "lock_inv s1 xs" using inv log_only_lock_inv by blast
  then have ra: "released_all t xs s1 s2" using postD [OF rel b] by simp
  let ?ys = "filter (\<lambda>a. parent_of (lk s1) a \<noteq> t) xs"
  have l2: "lock_inv s2 ?ys" "owned (lk s2) ?ys t = {}" "same_id (owned (lk s1) xs t) (lk s1) (lk s2)" "brk (lk s2) = brk (lk s1)"
    using ra by (simp_all add: released_all_def)
  have l3: "lock_inv s3 ?ys" using lock_inv_delete [OF l2(1,2) d] .
  have o3: "log_only s3 s'" using postD [OF log_call_only(3) e] by simp
  then have "lock_inv s' ?ys" using l3 log_only_lock_inv by blast
  moreover have lk: "lk s3 = lk s2" "lk s' = lk s2" "lk s1 = lk s" using d o1 o3 by (auto simp: txn_delete_def Option.bind_eq_Some_conv log_only_def)
  moreover have "grants (lk s') ?ys = without t (grants (lk s) xs)" using grants_filter [OF l2(3)] lk by simp
  moreover have "same_id (owned (lk s1) xs t) (lk s) (lk s')" "brk (lk s') = brk (lk s)" using l2(3,4) lk by simp_all
  moreover from this(1) have "same_id (set xs) (lk s) (lk s')" by (rule same_id_mono) (auto simp: owned_def)
  moreover have "set ?ys \<subseteq> set xs" by auto
  ultimately have "shrunk t xs s s'" unfolding shrunk_def by blast
  then show "case r of (_, s') \<Rightarrow> shrunk t xs s s'" using r by simp
qed

lemma abort_shrinks:
  assumes inv: "lock_inv s xs"
  shows "post (on_txn_abort t s) (\<lambda>(_, s'). shrunk t xs s s')" "post (on_txn_commit t s) (\<lambda>(_, s'). shrunk t xs s s')"
  unfolding on_txn_abort_def on_txn_commit_def
  by (rule end_shrinks [where lg = log_txn_abort and rel = release_locks_on_abort, OF inv log_call_only(1)], erule release_locks_ok(2))
    (rule end_shrinks [where lg = log_txn_commit and rel = release_locks_on_success, OF inv log_call_only(2)], erule release_locks_ok(1))

lemma shrunk_stats: "shrunk t xs (s\<lparr>st := z\<rparr>) s' = shrunk t xs s s'"
  by (simp add: shrunk_def)

lemma ms_frame:
  assumes "lock_inv s xs"
  shows "post (mutually_serializable t rb s)
     (\<lambda>(r, s'). if r = Aborted then shrunk t xs s s' else lk s' = lk s \<and> head_txn_list s' = head_txn_list s)"
proof -
  have ab: "post (do { (_, s) \<leftarrow> on_txn_abort t (s\<lparr>st := z\<rparr>); Some (Aborted, s) })
     (\<lambda>(r, s'). if r = Aborted then shrunk t xs s s' else lk s' = lk s \<and> head_txn_list s' = head_txn_list s)" for z
  proof (rule post_bind, rule post_prod, rule post_Some)
    fix x a s'
    assume "on_txn_abort t (s\<lparr>st := z\<rparr>) = Some x" "x = (a, s')"
    moreover have "lock_inv (s\<lparr>st := z\<rparr>) xs" using assms by (simp add: lock_inv_def)
    ultimately show "case (Aborted, s') of (r, s') \<Rightarrow> if r = Aborted then shrunk t xs s s' else lk s' = lk s \<and> head_txn_list s' = head_txn_list s"
      using postD [OF abort_shrinks(1)] by (fastforce simp: shrunk_stats)
  qed
  show ?thesis
    unfolding mutually_serializable_def Let_def
    by (rule post_bind, rule post_if, simp add: post_Some, rule post_if)
      ((rule post_bind, simp add: post_Some), rule post_if, rule post_bind, rule post_option, rule ab,
        (simp add: post_Some split: prod.splits), rule ab)
qed

text \<open>The outcome of a request.  A granted lock is in the list, for the file, in the name of the
  transaction; no record outside \<open>X\<close> enters the list, and the allocator is at \<open>k\<close> at least.\<close>

definition free_for :: "int \<Rightarrow> int \<Rightarrow> grant set \<Rightarrow> bool" where
  "free_for f m G \<longleftrightarrow> (\<forall>u n. (u, f, n) \<in> G \<longrightarrow> n = 0 \<and> m = 0)"

definition granted :: "grant set \<Rightarrow> int \<Rightarrow> int \<Rightarrow> int \<Rightarrow> lock_out \<Rightarrow> grant set \<Rightarrow> bool" where
  "granted G f fl t out G' \<longleftrightarrow> (case out of
       Got a \<Rightarrow> (free_for f (if fl = 0 then 0 else 1) G \<and> G' = insert (t, f, if fl = 0 then 0 else 1) G) \<or> (G' = G \<and> (\<exists>m. (t, f, m) \<in> G))
     | Refused \<Rightarrow> G' = without t G
     | _ \<Rightarrow> G' = G)"

definition request_ok :: "grant set \<Rightarrow> int \<Rightarrow> int \<Rightarrow> int \<Rightarrow> addr set \<Rightarrow> nat \<Rightarrow> lock_out \<times> server \<Rightarrow> bool" where
  "request_ok G f fl t X k r \<longleftrightarrow> (case r of (out, s) \<Rightarrow>
     \<exists>xs. lock_inv s xs \<and> set xs \<subseteq> X \<and> k \<le> brk (lk s) \<and> granted G f fl t out (grants (lk s) xs) \<and>
       (case out of Got a \<Rightarrow> a \<in> set xs \<and> ino (lk s) a = f \<and> parent_of (lk s) a = t
        | Paused (Some a) \<Rightarrow> a \<notin> set xs \<and> a < brk (lk s) | _ \<Rightarrow> True))"

lemma free_node_brk: "free_file_node a m = Some m' \<Longrightarrow> brk m' = brk m"
  by (auto simp: free_file_node_def fl_set_def fl_free_def Option.bind_eq_Some_conv)

lemma grants_other:
  assumes "a \<notin> set xs" and "fl_heap m' = (fl_heap m)(a := v)"
  shows "grants m' xs = grants m xs"
proof (rule grants_cong)
  fix b
  assume "b \<in> set xs"
  then have "b \<noteq> a" using assms(1) by blast
  then show "grant_at m' b = grant_at m b" using view_other [OF assms(2)] by (simp add: grant_at_def)
qed

lemma grants_free:
  assumes "a \<notin> set xs" and "free_file_node a m = Some m'"
  shows "grants m' xs = grants m xs"
proof -
  obtain n where "fl_heap m a = Some n" using assms(2) by (auto simp: free_file_node_def fl_set_def Option.bind_eq_Some_conv)
  then have "m' = m\<lparr>fl_heap := (fl_heap m)(a := None)\<rparr>" using assms(2) free_file_node_eq by simp
  then show ?thesis using grants_other [OF assms(1), of m' m None] by simp
qed

lemma block_request_ok:
  assumes inv: "lock_inv s xs" and new: "new \<notin> set xs" and X: "set xs \<subseteq> X" "k \<le> brk (lk s)" "grants (lk s) xs = G"
  shows "post (block_request f fl t new s) (request_ok G g gl u X k)"
  unfolding block_request_def Let_def
proof (intro post_bind post_Some)
  fix s1 m s2
  assume s1: "start_waiting f t (if fl = 0 then 0 else 1) s = Some s1" and m: "free_file_node new (lk s1) = Some m"
    and s2: "(case search_wait_list f (head_wait_list s) of None \<Rightarrow> insert_wait_list f t (s1\<lparr>lk := m\<rparr>)
           | Some w \<Rightarrow> update_wait_list (wn_file_inode w) t (s1\<lparr>lk := m\<rparr>)) = Some s2"
  have "lock_inv s1 xs" using inv s1 unfolding start_waiting_def by (rule set_txn_inv) simp_all
  then have "lock_inv (s1\<lparr>lk := m\<rparr>) xs" using new m by (rule lock_inv_free)
  then have "lock_inv s2 xs" using s2 wait_ops_frame(1,2)
    by (rule_tac lock_inv_view) (fastforce split: option.splits)+
  moreover have "brk (lk s2) = brk (lk s)"
  proof -
    have "lk s2 = m" using s2 wait_ops_frame(1,2) by (fastforce split: option.splits)
    moreover have "lk s1 = lk s" using s1 by (auto simp: start_waiting_def set_txn_def Option.bind_eq_Some_conv)
    ultimately show ?thesis using free_node_brk [OF m] by simp
  qed
  moreover have "grants (lk s2) xs = G"
  proof -
    have "lk s2 = m" "lk s1 = lk s" using s2 s1 wait_ops_frame(1,2)
      by (fastforce simp: start_waiting_def set_txn_def Option.bind_eq_Some_conv split: option.splits)+
    then show ?thesis using grants_free [OF new] m X(3) by simp
  qed
  ultimately show "request_ok G g gl u X k (Asleep, s2)" using X by (auto simp: request_ok_def granted_def)
qed

section \<open>A granted request\<close>

lemma lpath_snoc:
  assumes p: "lpath h fl_next_txn p (bs @ [l]) None" and n: "h l = Some n" and new: "h a = Some k" "fl_next_txn k = None" "a \<notin> set (bs @ [l])"
  shows "lpath (h(l \<mapsto> n\<lparr>fl_next_txn := Some a\<rparr>)) fl_next_txn p (bs @ [l, a]) None"
proof -
  have l: "l \<notin> set bs" using lpath_distinct [OF p] by simp
  have "lpath h fl_next_txn p bs (Some l)" using p by (auto simp: lpath_append)
  then have "lpath (h(l \<mapsto> n\<lparr>fl_next_txn := Some a\<rparr>)) fl_next_txn p bs (Some l)" using l by (simp add: lpath_upd_other)
  moreover have "lpath (h(l \<mapsto> n\<lparr>fl_next_txn := Some a\<rparr>)) fl_next_txn (Some l) [l, a] None"
    using new by auto
  ultimately show ?thesis using lpath_append [of _ _ p bs "[l, a]" None] by blast
qed

text \<open>The lists of the transactions after the record \<open>new\<close> has been put at the end of \<open>t\<close>'s.\<close>

lemma owner_ok_insert:
  assumes ow: "owner_ok m0 tv xs" and xs': "set xs' = insert new (set xs)" and new: "new \<notin> set xs"
    and par: "\<And>b. parent_of m b = parent_of m0 b" and t: "parent_of m0 new = t" "t \<in> fst ` set tv"
    and tv': "map fst tv' = map fst tv" "\<And>u p. (u, p) \<in> set tv' \<Longrightarrow> u \<noteq> t \<Longrightarrow> (u, p) \<in> set tv"
    and mine: "\<And>p. (t, p) \<in> set tv' \<Longrightarrow> \<exists>as. lpath (fl_heap m) fl_next_txn p as None \<and> set as = insert new (owned m0 xs t)"
    and others: "\<And>p as. lpath (fl_heap m0) fl_next_txn p as None \<Longrightarrow> set as \<inter> insert new (owned m0 xs t) = {} \<Longrightarrow>
       lpath (fl_heap m) fl_next_txn p as None"
  shows "owner_ok m tv' xs'"
proof -
  have own: "owned m xs' u = (if u = t then insert new (owned m0 xs t) else owned m0 xs u)" for u
    using par t(1) xs' by (auto simp: owned_def)
  have "\<exists>as. lpath (fl_heap m) fl_next_txn p as None \<and> set as = owned m xs' u" if up: "(u, p) \<in> set tv'" for u p
  proof (cases "u = t")
    case True
    then show ?thesis using mine [of p] up own [of t] by auto
  next
    case False
    then obtain as where as: "lpath (fl_heap m0) fl_next_txn p as None" "set as = owned m0 xs u"
      using ow tv'(2) [OF up False] by (auto simp: owner_ok_def)
    have "set as \<inter> insert new (owned m0 xs t) = {}" using as(2) False new by (auto simp: owned_def)
    then show ?thesis using others [OF as(1)] as(2) own [of u] False by metis
  qed
  moreover have "parent_of m a \<in> fst ` set tv'" if "a \<in> set xs'" for a
  proof -
    have "fst ` set tv' = fst ` set tv" using tv'(1) by (metis list.set_map)
    moreover have "parent_of m0 a \<in> fst ` set tv" using ow that xs' t by (auto simp: owner_ok_def)
    ultimately show ?thesis using par by simp
  qed
  ultimately show ?thesis using ow tv'(1) by (auto simp: owner_ok_def)
qed

lemma insert_same_ok:
  assumes inv: "lock_inv s xs" and sid: "same_id {} (lk s) m" and tb: "table_ok m xs'"
    and xs': "set xs' = insert new (set xs)" and new: "new \<notin> set xs"
    and n: "fl_heap (lk s) new = Some nn" "fl_parent_txn nn = t" "fl_next_txn nn = None"
    and r: "insert_same_txn_list t rb new (s\<lparr>lk := m\<rparr>) = Some s'"
  shows "lock_inv s' xs' \<and> ino (lk s') new = fl_file_inode nn \<and> parent_of (lk s') new = t \<and> mode_of (lk s') new = fl_file_mode nn \<and> brk (lk s') = brk m"
proof -
  have ow: "owner_ok (lk s) (txn_view (head_txn_list s)) xs" using inv by (simp add: lock_inv_def)
  have ok: "txns_ok (head_txn_list s)" using ow txn_view_sorted by (auto simp: owner_ok_def)
  obtain tn where tn: "find_txn t (head_txn_list s) = Some tn" using r by (auto simp: insert_same_txn_list_def Option.bind_eq_Some_conv)
  have tin: "t \<in> fst ` set (txn_view (head_txn_list s))" using txn_view_find [OF tn] by force
  obtain as where as: "lpath (fl_heap (lk s)) fl_next_txn (tn_file_rec_no tn) as None" "set as = owned (lk s) xs t"
    using ow txn_view_find [OF tn] by (auto simp: owner_ok_def)
  have asm: "lpath (fl_heap m) fl_next_txn (tn_file_rec_no tn) as None" using same_id_path [OF sid] as(1) by simp
  have pn: "parent_of (lk s) new = t" using n by (simp add: parent_of_def)
  have vw: "parent_of m b = parent_of (lk s) b" "ino m b = ino (lk s) b" "mode_of m b = mode_of (lk s) b" for b
    using same_id_view [OF sid] by simp_all
  have path: "lpath (fl_heap m) fl_next_txn p bs None" if "lpath (fl_heap (lk s)) fl_next_txn p bs None" for p bs
    using same_id_path [OF sid] that by simp
  obtain k where k: "fl_heap m new = Some k" "fl_next_txn k = None" using same_id_field(4) [OF sid, of new] n by (cases "fl_heap m new") auto
  have newv: "ino m new = fl_file_inode nn" "mode_of m new = fl_file_mode nn" using n(1) vw by (simp_all add: ino_def mode_of_def)
  show ?thesis
  proof (cases "tn_file_rec_no tn")
    case None
    let ?g = "\<lambda>t. t\<lparr>tn_file_rec_no := Some new, tn_before_after := rb\<rparr>"
    have "set_txn t ?g (s\<lparr>lk := m\<rparr>) = Some s'" using r tn None by (simp add: insert_same_txn_list_def)
    then obtain ts where ts: "upd_txn t ?g (head_txn_list s) = Some ts" "s' = s\<lparr>lk := m, head_txn_list := ts\<rparr>"
      by (auto simp: set_txn_def Option.bind_eq_Some_conv)
    note v = txn_view_upd [OF ok ts(1)]
    have em: "owned (lk s) xs t = {}" using as None by simp
    have "owner_ok m (txn_view ts) xs'"
    proof (rule owner_ok_insert [OF ow xs' new vw(1) pn tin])
      show "map fst (txn_view ts) = map fst (txn_view (head_txn_list s))" using v(1) by simp
      show "(u, p) \<in> set (txn_view (head_txn_list s))" if "(u, p) \<in> set (txn_view ts)" "u \<noteq> t" for u p using v(2) that by simp
      show "\<exists>as. lpath (fl_heap m) fl_next_txn p as None \<and> set as = insert new (owned (lk s) xs t)" if "(t, p) \<in> set (txn_view ts)" for p
      proof -
        have "p = Some new" using v(3) [of p] that by auto
        then show ?thesis using k em by (intro exI [of _ "[new]"]) auto
      qed
    qed (use path in blast)
    then show ?thesis using tb ts(2) vw(1) pn newv by (simp add: lock_inv_def)
  next
    case (Some a)
    have mok: "mem_ok m" using tb by (simp add: table_ok_def lock_list_def)
    have ne: "as \<noteq> []" using asm Some by auto
    have last: "fl_last fl_next_txn m a = Some (last as)" using fl_last_path [OF mok] asm Some by simp
    obtain n1 where n1: "fl_heap m (last as) = Some n1" using lpath_alloc [OF asm] ne last_in_set by blast
    let ?h = "(fl_heap m)(last as \<mapsto> n1\<lparr>fl_next_txn := Some new\<rparr>)" and ?m = "m\<lparr>fl_heap := (fl_heap m)(last as \<mapsto> n1\<lparr>fl_next_txn := Some new\<rparr>)\<rparr>"
    have s': "s' = s\<lparr>lk := ?m\<rparr>" using r tn Some last n1 by (simp add: insert_same_txn_list_def fl_set_def)
    have tab: "map_option fl_tab (fl_heap ?m b) = map_option fl_tab (fl_heap m b)" for b using n1 by (simp add: fl_tab_def)
    have tb': "table_ok ?m xs'" by (rule table_ok_tab [OF tab _ _ _ tb]) simp_all
    have vw': "parent_of ?m b = parent_of m b" "ino ?m b = ino m b" "mode_of ?m b = mode_of m b" for b
      using n1 by (simp_all add: parent_of_def ino_def mode_of_def)
    have nas: "new \<notin> set as" using as(2) new by (auto simp: owned_def)
    have mine: "lpath ?h fl_next_txn (Some a) (butlast as @ [last as, new]) None"
      using asm Some ne by (intro lpath_snoc [OF _ n1 k]) (use nas in auto)
    have las: "last as \<in> owned (lk s) xs t" using last_in_set [OF ne] as(2) by simp
    have "owner_ok ?m (txn_view (head_txn_list s)) xs'"
    proof (rule owner_ok_insert [OF ow xs' new _ pn tin])
      show "parent_of ?m b = parent_of (lk s) b" for b using vw(1) vw'(1) by simp
      show "\<exists>as. lpath (fl_heap ?m) fl_next_txn p as None \<and> set as = insert new (owned (lk s) xs t)"
        if tp: "(t, p) \<in> set (txn_view (head_txn_list s))" for p
      proof -
        have "find_txn t (head_txn_list s) = Some tn" by (rule tn)
        then have "p = Some a" using tp Some ok by (auto simp: txn_view_def dest: txns_ok_find)
        moreover have "set (butlast as @ [last as, new]) = insert new (owned (lk s) xs t)"
          using append_butlast_last_id [OF ne] as(2) by (metis append.assoc append_Cons append_Nil list.set(2) set_append Un_insert_right sup_bot.right_neutral list.set(1))
        ultimately show ?thesis using mine by auto
      qed
      show "lpath (fl_heap ?m) fl_next_txn p bs None"
        if "lpath (fl_heap (lk s)) fl_next_txn p bs None" "set bs \<inter> insert new (owned (lk s) xs t) = {}" for p bs
      proof -
        have "last as \<notin> set bs" using that(2) las by blast
        then show ?thesis using path [OF that(1)] by (simp add: lpath_upd_other)
      qed
    qed simp_all
    then show ?thesis using tb' s' vw(1) vw' pn newv by (simp add: lock_inv_def)
  qed
qed

lemma search_same:
  assumes "lock_list m xs" and "lock_list m' xs" and "\<And>a. a \<in> set xs \<Longrightarrow> ino m' a = ino m a"
  shows "search_file_list f m' = search_file_list f m"
proof (cases xs)
  case Nil
  then show ?thesis using assms(1,2) search_Nil by simp
next
  case (Cons x as)
  have i: "ino m' a = ino m a" if "a \<in> set (x # as)" for a using assms(3) that Cons by simp
  have b: "below m' f as = below m f as" "above m' f as = above m f as"
    unfolding below_def above_def using i by (auto intro: takeWhile_cong dropWhile_cong)
  have "set (x # below m f as) \<subseteq> set (x # as)" by (auto simp: below_def dest: set_takeWhileD)
  then have l: "ino m' (last (x # below m f as)) = ino m (last (x # below m f as))"
    using last_in_set [of "x # below m f as"] i by (metis list.distinct(1) subsetD)
  have h: "ino m' c = ino m c" if "above m f as = c # cs" for c cs
    using i [of c] that set_dropWhileD [of c "\<lambda>a. ino m a < f" as] by (simp add: above_def)
  show ?thesis
    unfolding search_Cons [OF assms(1) [unfolded Cons]] search_Cons [OF assms(2) [unfolded Cons]] b Let_def
    using l h by (simp split: list.split)
qed

lemma search_cases:
  assumes "lock_list m xs" and "inodes_sorted m xs" and "search_file_list f m = Some (r, loc)"
  shows "r = 0 \<Longrightarrow> y \<in> set xs \<Longrightarrow> ino m y \<noteq> f"
    "r \<noteq> 0 \<Longrightarrow> \<exists>a. loc = Some a \<and> a \<in> set xs \<and> ino m a = f"
proof -
  show "ino m y \<noteq> f" if "r = 0" "y \<in> set xs"
    using search_found [OF assms(1,2) that(2), of f] assms(3) that(1) by auto
  show "\<exists>a. loc = Some a \<and> a \<in> set xs \<and> ino m a = f" if r: "r \<noteq> 0"
  proof (cases "\<exists>y \<in> set xs. ino m y = f")
    case True
    then show ?thesis using search_found [OF assms(1,2)] assms(3) by fastforce
  next
    case False
    then show ?thesis using search_not_found [of m _ _ f] search_Nil [of m f] assms(1,3) r by (cases xs) auto
  qed
qed

lemma walk_last_inv:
  "walk_last h sel k a = Some l \<Longrightarrow> P a \<Longrightarrow>
   (\<And>a n b k. P a \<Longrightarrow> h a = Some n \<Longrightarrow> sel n = Some b \<Longrightarrow> h b = Some k \<Longrightarrow> P b) \<Longrightarrow> P l \<and> (\<exists>n. h l = Some n \<and> sel n = None)"
proof (induction k arbitrary: a)
  case 0
  then show ?case by simp
next
  case (Suc k)
  obtain n where n: "h a = Some n" using Suc.prems(1) by (cases "h a") auto
  show ?case
  proof (cases "sel n")
    case None
    then show ?thesis using Suc.prems n by simp
  next
    case (Some b)
    then have w: "walk_last h sel k b = Some l" using Suc.prems(1) n by simp
    then obtain k' where "h b = Some k'" by (cases k; cases "h b") auto
    then show ?thesis using Suc.IH [OF w] Suc.prems(2,3) n Some by blast
  qed
qed

text \<open>The last holder of a shared lock, found along the pointers between them.\<close>

lemma last_holder:
  assumes tb: "table_ok m xs" and a: "a \<in> set xs" and l: "fl_last fl_next_shared_rec m a = Some l"
  shows "l \<in> set xs \<and> ino m l = ino m a"
proof -
  have sh: "shared_ok (set xs) m" using tb by (simp add: table_ok_def)
  have "(l \<in> set xs \<and> ino m l = ino m a) \<and> (\<exists>n. fl_heap m l = Some n \<and> fl_next_shared_rec n = None)"
    using l unfolding fl_last_def
  proof (rule walk_last_inv)
    fix c n b k
    assume c: "c \<in> set xs \<and> ino m c = ino m a" "fl_heap m c = Some n" "fl_next_shared_rec n = Some b" "fl_heap m b = Some k"
    then show "b \<in> set xs \<and> ino m b = ino m a"
      using shared_okD(2,3) [OF sh c(2) _ c(4)] by (auto simp: ino_def)
  qed (use a in simp)
  then show ?thesis by blast
qed

lemma compatible_insert:
  assumes c: "compatible m xs" and xs': "set xs' = insert new (set xs)"
    and v: "\<And>b. b \<in> set xs \<Longrightarrow> ino m' b = ino m b \<and> mode_of m' b = mode_of m b"
    and n: "mode_of m' new = 0 \<or> mode_of m' new = 1"
    and s: "\<And>b. b \<in> set xs \<Longrightarrow> ino m b = ino m' new \<Longrightarrow> mode_of m b = 0 \<and> mode_of m' new = 0"
  shows "compatible m' xs'"
proof -
  have "mode_of m' a = 0 \<or> mode_of m' a = 1" if "a \<in> set xs'" for a
    using that c v n xs' by (cases "a = new") (auto simp: compatible_def)
  moreover have "mode_of m' a = 0 \<and> mode_of m' b = 0"
    if ab: "a \<in> set xs'" "b \<in> set xs'" "a \<noteq> b" "ino m' a = ino m' b" for a b
  proof -
    consider "a = new" "b \<in> set xs" | "b = new" "a \<in> set xs" | "a \<in> set xs" "b \<in> set xs" using ab xs' by auto
    then show ?thesis
    proof cases
      case 1
      then show ?thesis using s [of b] v [of b] ab(4) by simp
    next
      case 2
      then show ?thesis using s [of a] v [of a] ab(4) by simp
    next
      case 3
      then show ?thesis using c v [of a] v [of b] ab(3,4) unfolding compatible_def by (metis (no_types))
    qed
  qed
  ultimately show ?thesis unfolding compatible_def by blast
qed

text \<open>Inserting a record between the others keeps the pointers of the shared records legal, also
  where the record is hung behind the last holder.\<close>

lemma shared_ok_insert:
  assumes sh: "shared_ok X m" and br: "brk m' = brk m" and X: "X' = insert new X" and i: "\<And>b. ino m' b = ino m b"
    and al: "\<And>b. fl_heap m' b = None \<longleftrightarrow> fl_heap m b = None"
    and ptrs: "\<And>a n b. fl_heap m' a = Some n \<Longrightarrow> fl_next_shared_rec n = Some b \<or> fl_prev_shared_rec n = Some b \<Longrightarrow>
      (\<exists>k. fl_heap m a = Some k \<and> (fl_next_shared_rec k = Some b \<or> fl_prev_shared_rec k = Some b)) \<or>
      (b < brk m \<and> b \<in> X' \<and> ino m b = ino m a)"
  shows "shared_ok X' m'"
  unfolding shared_ok_def
proof (intro allI impI)
  fix a n b
  assume n: "fl_heap m' a = Some n" and b: "fl_next_shared_rec n = Some b \<or> fl_prev_shared_rec n = Some b"
  have in': "fl_file_inode k = ino m x" if "fl_heap m' x = Some k" for x k using i [of x] that by (simp add: ino_def)
  have in0: "ino m x = fl_file_inode k" if "fl_heap m x = Some k" for x k using that by (simp add: ino_def)
  have "b < brk m \<and> (\<forall>n'. fl_heap m' b = Some n' \<longrightarrow> b \<in> X' \<and> ino m b = ino m a)"
    using ptrs [OF n b]
  proof
    assume "\<exists>k. fl_heap m a = Some k \<and> (fl_next_shared_rec k = Some b \<or> fl_prev_shared_rec k = Some b)"
    then obtain k where k: "fl_heap m a = Some k" "fl_next_shared_rec k = Some b \<or> fl_prev_shared_rec k = Some b" by blast
    have "b \<in> X' \<and> ino m b = ino m a" if n': "fl_heap m' b = Some n'" for n'
    proof -
      have "fl_heap m b \<noteq> None" using al [of b] n' by simp
      then obtain j where j: "fl_heap m b = Some j" by blast
      show ?thesis using shared_okD(2,3) [OF sh k j] in0 [OF j] in0 [OF k(1)] X by simp
    qed
    then show ?thesis using shared_okD(1) [OF sh k] by blast
  qed blast
  then show "b < brk m' \<and> (\<forall>n'. fl_heap m' b = Some n' \<longrightarrow> b \<in> X' \<and> fl_file_inode n' = fl_file_inode n)"
    using in' [OF n] in' br by metis
qed

lemma link_unlocked_ok:
  assumes tb: "table_ok m xs" and new: "fl_heap m new = Some nn" "new \<notin> set xs" and nn: "fl_file_inode nn = f" "fl_next nn = None"
    and free: "\<And>y. y \<in> set xs \<Longrightarrow> ino m y \<noteq> f" and mode: "fl_file_mode nn = 0 \<or> fl_file_mode nn = 1"
    and search: "search_file_list f m = Some (0, loc)" and link: "link_unlocked new f loc m = Some m'"
  shows "\<exists>xs'. table_ok m' xs' \<and> set xs' = insert new (set xs) \<and> same_id {} m m' \<and> brk m' = brk m"
proof -
  have ll: "lock_list m xs" "inodes_sorted m xs" using tb by (simp_all add: table_ok_def)
  obtain us vs where xs: "xs = us @ vs" and ins: "inserted new (us @ new # vs) m m'" and srt: "inodes_sorted m' (us @ new # vs)"
    and sn: "same_nodes {} m m'"
    using search_link_unlocked [OF ll new nn free] search link by auto
  have sid: "same_id {} m m'" using sn by (rule same_id_nodes)
  have vw: "ino m' b = ino m b" "mode_of m' b = mode_of m b" for b using same_id_view [OF sid] by simp_all
  have nv: "ino m' new = f" "mode_of m' new = fl_file_mode nn" using vw new(1) nn by (simp_all add: ino_def mode_of_def)
  have set: "set (us @ new # vs) = insert new (set xs)" using xs by auto
  have "compatible m' (us @ new # vs)"
    using tb by (intro compatible_insert [OF _ set]) (use vw nv mode free in \<open>auto simp: table_ok_def\<close>)
  moreover have "shared_ok (set (us @ new # vs)) m'"
  proof (rule shared_ok_insert [OF _ _ set vw(1)])
    show "shared_ok (set xs) m" using tb by (simp add: table_ok_def)
    show "brk m' = brk m" using ins by (simp add: inserted_def)
    show "fl_heap m' b = None \<longleftrightarrow> fl_heap m b = None" for b using same_id_field(5) [OF sid, of b] by simp
    fix a n b
    assume n: "fl_heap m' a = Some n" and b: "fl_next_shared_rec n = Some b \<or> fl_prev_shared_rec n = Some b"
    have "map_option fl_core (fl_heap m' a) = map_option fl_core (fl_heap m a)" using sn unfolding same_nodes_def by blast
    then have "map_option fl_core (fl_heap m a) = Some (fl_core n)" using n by simp
    then obtain k where k: "fl_heap m a = Some k" "fl_core k = fl_core n" by auto
    have "fl_next_shared_rec k = fl_next_shared_rec n" "fl_prev_shared_rec k = fl_prev_shared_rec n"
      using arg_cong [OF k(2), of fl_next_shared_rec] arg_cong [OF k(2), of fl_prev_shared_rec] by simp_all
    then show "(\<exists>k. fl_heap m a = Some k \<and> (fl_next_shared_rec k = Some b \<or> fl_prev_shared_rec k = Some b)) \<or>
      (b < brk m \<and> b \<in> set (us @ new # vs) \<and> ino m b = ino m a)" using k(1) b by auto
  qed
  ultimately show ?thesis using ins srt set sid by (auto simp: table_ok_def inserted_def)
qed

lemma link_shared_ok:
  assumes tb: "table_ok m xs" and new: "fl_heap m new = Some nn" "new \<notin> set xs"
    and nn: "fl_file_inode nn = f" "fl_next_shared_rec nn = None" "fl_file_mode nn = 0"
    and a: "a \<in> set xs" "ino m a = f" "mode_of m a = 0"
    and l: "fl_last fl_next_shared_rec m a = Some l" and link: "link_shared new l m = Some m'"
  shows "\<exists>xs'. table_ok m' xs' \<and> set xs' = insert new (set xs) \<and> same_id {} m m' \<and> brk m' = brk m"
proof -
  have ll: "lock_list m xs" "inodes_sorted m xs" and c: "compatible m xs" using tb by (simp_all add: table_ok_def)
  have lh: "l \<in> set xs" "ino m l = f" using last_holder [OF tb a(1) l] a(2) by simp_all
  obtain us vs where xs: "xs = us @ l # vs" using split_list [OF lh(1)] by blast
  obtain nl where nl: "fl_heap m l = Some nl" using lock_list_alloc [OF ll(1) lh(1)] by blast
  have ins: "inserted new (us @ l # new # vs) m m'" and sn: "same_nodes {l, new} m m'"
    and cn: "map_option fl_core (fl_heap m' new) = Some (fl_core (nn\<lparr>fl_prev_shared_rec := Some l\<rparr>))"
    and cl: "map_option fl_core (fl_heap m' l) = Some (fl_core (nl\<lparr>fl_next_shared_rec := Some new\<rparr>))"
    using link_shared_spec [of m us l vs new nn] ll(1) new link nl by (auto simp: xs)
  obtain kn where kn: "fl_heap m' new = Some kn" "fl_core kn = fl_core (nn\<lparr>fl_prev_shared_rec := Some l\<rparr>)" using cn by auto
  obtain kl where kl: "fl_heap m' l = Some kl" "fl_core kl = fl_core (nl\<lparr>fl_next_shared_rec := Some new\<rparr>)" using cl by auto
  have fi: "fl_id n = fl_id (fl_core n)" for n by (simp add: fl_id_def)
  have "fl_id kn = fl_id nn" using fi [of kn] fi [of nn] kn(2) by (simp add: fl_id_def)
  moreover have "fl_id kl = fl_id nl" using fi [of kl] fi [of nl] kl(2) by (simp add: fl_id_def)
  ultimately have sid: "same_id {} m m'"
    using same_id_nodes [OF sn] kn(1) kl(1) new(1) nl unfolding same_id_def by (metis empty_iff insert_iff option.simps(9))
  have vw: "ino m' b = ino m b" "mode_of m' b = mode_of m b" for b using same_id_view [OF sid] by simp_all
  have nv: "ino m' new = f" "mode_of m' new = 0" using vw new(1) nn by (simp_all add: ino_def mode_of_def)
  have set: "set (us @ l # new # vs) = insert new (set xs)" using xs by auto
  have "compatible m' (us @ l # new # vs)"
  proof (rule compatible_insert [OF c set])
    show "mode_of m b = 0 \<and> mode_of m' new = 0" if "b \<in> set xs" "ino m b = ino m' new" for b
      using that c a nv unfolding compatible_def by (metis (no_types))
  qed (use vw nv in auto)
  moreover have "shared_ok (set (us @ l # new # vs)) m'"
  proof (rule shared_ok_insert [OF _ _ set vw(1)])
    show "shared_ok (set xs) m" using tb by (simp add: table_ok_def)
    show br: "brk m' = brk m" using ins by (simp add: inserted_def)
    show "fl_heap m' b = None \<longleftrightarrow> fl_heap m b = None" for b using same_id_field(5) [OF sid, of b] by simp
    fix d n b
    assume n: "fl_heap m' d = Some n" and b: "fl_next_shared_rec n = Some b \<or> fl_prev_shared_rec n = Some b"
    have mok: "mem_ok m" using ll(1) by (simp add: lock_list_def)
    have new': "new < brk m \<and> new \<in> set (us @ l # new # vs) \<and> ino m new = ino m l"
      using mem_okD(1) [OF mok new(1)] vw(1) nv(1) lh(2) by simp
    have l': "l < brk m \<and> l \<in> set (us @ l # new # vs) \<and> ino m l = ino m new"
      using mem_okD(1) [OF mok nl] vw(1) nv(1) lh(2) by simp
    have core: "fl_next_shared_rec k = fl_next_shared_rec k' \<and> fl_prev_shared_rec k = fl_prev_shared_rec k'" if "fl_core k = fl_core k'" for k k'
      using arg_cong [OF that, of fl_next_shared_rec] arg_cong [OF that, of fl_prev_shared_rec] by simp
    consider "d = new" | "d = l" "d \<noteq> new" | "d \<noteq> l" "d \<noteq> new" by blast
    then show "(\<exists>k. fl_heap m d = Some k \<and> (fl_next_shared_rec k = Some b \<or> fl_prev_shared_rec k = Some b)) \<or>
      (b < brk m \<and> b \<in> set (us @ l # new # vs) \<and> ino m b = ino m d)"
    proof cases
      case 1
      then have "fl_next_shared_rec n = None \<and> fl_prev_shared_rec n = Some l" using n kn(1) core [OF kn(2)] nn(2) by simp
      then have "b = l" using b by simp
      then show ?thesis using l' 1 by blast
    next
      case 2
      then have e: "fl_next_shared_rec n = Some new \<and> fl_prev_shared_rec n = fl_prev_shared_rec nl" using n kl(1) core [OF kl(2)] by simp
      then have "b = new \<or> fl_prev_shared_rec nl = Some b" using b by auto
      then show ?thesis using new' nl 2 by blast
    next
      case 3
      then have "map_option fl_core (fl_heap m' d) = map_option fl_core (fl_heap m d)" using sn unfolding same_nodes_def by blast
      then obtain k where k: "fl_heap m d = Some k" "fl_core k = fl_core n" using n by (cases "fl_heap m d") auto
      then show ?thesis using core [OF k(2)] b by auto
    qed
  qed
  moreover have "inodes_sorted m' (us @ l # new # vs)"
  proof -
    have "ino m' = ino m" by (rule ext) (rule vw(1))
    then show ?thesis using ll(2) nv(1) lh(2) unfolding xs inodes_sorted_def by (auto simp: sorted_append)
  qed
  ultimately show ?thesis using ins set sid by (auto simp: table_ok_def inserted_def)
qed

lemma get_file_node_sel [simp]:
  "fl_file_inode (get_file_node f l fl t) = f" "fl_file_mode (get_file_node f l fl t) = (if fl = 0 then 0 else 1)"
  "fl_parent_txn (get_file_node f l fl t) = t" "fl_next (get_file_node f l fl t) = None" "fl_next_txn (get_file_node f l fl t) = None"
  "fl_next_shared_rec (get_file_node f l fl t) = None" "fl_prev_shared_rec (get_file_node f l fl t) = None"
  "fl_writes_at (get_file_node f l fl t) = None" "fl_flags (get_file_node f l fl t) = fl"
  by (simp_all add: get_file_node_def)

text \<open>A request whose fresh record \<open>new\<close> is allocated and not yet linked.\<close>

definition requesting :: "int \<Rightarrow> int \<Rightarrow> int \<Rightarrow> addr \<Rightarrow> server \<Rightarrow> addr list \<Rightarrow> bool" where
  "requesting f fl t new s xs \<longleftrightarrow> lock_inv s xs \<and> new \<notin> set xs \<and> fl_heap (lk s) new = Some (get_file_node f 0 fl t)"

lemma requesting_cong: "requesting f fl t new s xs \<Longrightarrow> lk s' = lk s \<Longrightarrow> head_txn_list s' = head_txn_list s \<Longrightarrow> requesting f fl t new s' xs"
  by (simp add: requesting_def lock_inv_def)

lemma requesting_less: "requesting f fl t new s xs \<Longrightarrow> new < brk (lk s)"
  by (auto simp: requesting_def lock_inv_def table_ok_def lock_list_def dest: mem_okD(1))

lemma shrunk_free:
  assumes "shrunk u xs s s'" and "requesting f fl t new s xs"
    and X: "set xs \<subseteq> X" "k \<le> brk (lk s)" "grants (lk s) xs = G"
  shows "request_ok G g gl u X k (Refused, s')" "post (free_file_node new (lk s')) (\<lambda>m. request_ok G g gl u X k (Refused, s'\<lparr>lk := m\<rparr>))"
proof -
  obtain ys where ys: "lock_inv s' ys" "set ys \<subseteq> set xs" "brk (lk s') = brk (lk s)" "grants (lk s') ys = without u G"
    using assms(1) X(3) by (auto simp: shrunk_def)
  then show "request_ok G g gl u X k (Refused, s')" using X by (auto simp: request_ok_def granted_def)
  have "new \<notin> set ys" using ys(2) assms(2) by (auto simp: requesting_def)
  then show "post (free_file_node new (lk s')) (\<lambda>m. request_ok G g gl u X k (Refused, s'\<lparr>lk := m\<rparr>))"
    using lock_inv_free [OF ys(1)] X ys(2,3,4) free_node_brk grants_free by (fastforce simp: post_def request_ok_def granted_def)
qed

lemma insert_same_grant_at:
  assumes "insert_same_txn_list t rb new s = Some s'"
  shows "grant_at (lk s') b = grant_at (lk s) b"
proof (cases "lk s' = lk s")
  case False
  then obtain l where "fl_set (Some l) (\<lambda>n. n\<lparr>fl_next_txn := Some new\<rparr>) (lk s) = Some (lk s')"
    using assms by (auto simp: insert_same_txn_list_def set_txn_def Option.bind_eq_Some_conv split: option.splits)
  then obtain y where "fl_heap (lk s) l = Some y" "lk s' = (lk s)\<lparr>fl_heap := (fl_heap (lk s))(l \<mapsto> y\<lparr>fl_next_txn := Some new\<rparr>)\<rparr>"
    by (auto simp: fl_set_def Option.bind_eq_Some_conv)
  then show ?thesis by (simp add: grant_at_def parent_of_def ino_def mode_of_def)
qed simp

text \<open>The check against the backup, where it is made, and then one of the two ways to link.\<close>

lemma grant_ok:
  assumes rq: "requesting f fl t new s xs"
    and link: "\<And>m. L (lk s) = Some m \<Longrightarrow> \<exists>xs'. table_ok m xs' \<and> set xs' = insert new (set xs) \<and> same_id {} (lk s) m \<and> brk m = brk (lk s)"
    and r: "(if c then mutually_serializable t rb s else Some (Serializable, s)) = Some (ret, s1)"
    and X: "insert new (set xs) \<subseteq> X" "k \<le> brk (lk s)" "grants (lk s) xs = G"
  shows "ret = Serializable \<Longrightarrow> post (do { m \<leftarrow> L (lk s1); s \<leftarrow> insert_same_txn_list t rb new (s1\<lparr>lk := m\<rparr>); Some (Got new, s) }) (request_ok G f fl t X k)"
    "ret = Pausing \<Longrightarrow> requesting f fl t new s1 xs \<and> lk s1 = lk s" "ret = Aborted \<Longrightarrow> shrunk t xs s s1"
proof -
  have inv: "lock_inv s xs" and new: "new \<notin> set xs" "fl_heap (lk s) new = Some (get_file_node f 0 fl t)"
    using rq by (simp_all add: requesting_def)
  have fr: "if ret = Aborted then shrunk t xs s s1 else lk s1 = lk s \<and> head_txn_list s1 = head_txn_list s"
  proof (cases c)
    case True
    then show ?thesis using postD [OF ms_frame [OF inv, of t rb]] r by fastforce
  next
    case False
    then show ?thesis using r by auto
  qed
  then show "ret = Aborted \<Longrightarrow> shrunk t xs s s1" by simp
  show "ret = Pausing \<Longrightarrow> requesting f fl t new s1 xs \<and> lk s1 = lk s" using fr requesting_cong [OF rq] by simp
  assume "ret = Serializable"
  then have e: "lk s1 = lk s" "head_txn_list s1 = head_txn_list s" using fr by auto
  show "post (do { m \<leftarrow> L (lk s1); s \<leftarrow> insert_same_txn_list t rb new (s1\<lparr>lk := m\<rparr>); Some (Got new, s) }) (request_ok G f fl t X k)"
  proof (intro post_bind post_Some)
    fix m s2
    assume m: "L (lk s1) = Some m" and s2: "insert_same_txn_list t rb new (s1\<lparr>lk := m\<rparr>) = Some s2"
    obtain xs' where xs': "table_ok m xs'" "set xs' = insert new (set xs)" "same_id {} (lk s1) m" "brk m = brk (lk s)" using link m e by auto
    have "lock_inv s1 xs" using inv e by (simp add: lock_inv_def)
    then have "lock_inv s2 xs' \<and> ino (lk s2) new = f \<and> parent_of (lk s2) new = t \<and> brk (lk s2) = brk m"
      using insert_same_ok [OF _ xs'(3,1,2) new(1) _ _ _ s2, of "get_file_node f 0 fl t"] new(2) e by simp
    moreover have "grants (lk s2) xs' = insert (t, f, if fl = 0 then 0 else 1) G"
    proof -
      have "grant_at (lk s2) b = grant_at (lk s) b" for b
        using insert_same_grant_at [OF s2] grant_at_same_id [OF xs'(3)] e(1) by simp
      moreover have "grant_at (lk s) new = (t, f, if fl = 0 then 0 else 1)"
        using new(2) by (simp add: grant_at_def parent_of_def ino_def mode_of_def)
      ultimately show ?thesis using X(3) xs'(2) by (simp add: grants_def)
    qed
    moreover have "free_for f (if fl = 0 then 0 else 1) G"
    proof -
      have "compatible m xs'" using xs'(1) by (simp add: table_ok_def)
      then have c: "mode_of m b = 0 \<and> mode_of m new = 0" if "b \<in> set xs" "ino m b = ino m new" for b
        using that xs'(2) new(1) unfolding compatible_def by (metis insertCI)
      have "mode_of (lk s) b = 0 \<and> fl = 0" if "b \<in> set xs" "ino (lk s) b = f" for b
      proof -
        have "ino m b = ino (lk s) b" "mode_of m b = mode_of (lk s) b" for b using same_id_view [OF xs'(3)] e(1) by simp_all
        moreover have "ino (lk s) new = f" "mode_of (lk s) new = (if fl = 0 then 0 else 1)"
          using new(2) by (simp_all add: ino_def mode_of_def)
        ultimately show ?thesis using c [OF that(1)] that(2) by (cases "fl = 0") auto
      qed
      then show ?thesis using X(3) by (auto simp: free_for_def grants_def grant_at_def)
    qed
    ultimately show "request_ok G f fl t X k (Got new, s2)" using xs'(2,4) X unfolding request_ok_def granted_def by (auto intro!: exI [of _ xs'])
  qed
qed

lemma grant_unlocked_ok:
  assumes rq: "requesting f fl t new s xs" and search: "search_file_list f (lk s) = Some (0, loc)"
    and X: "insert new (set xs) \<subseteq> X" "k \<le> brk (lk s)" "grants (lk s) xs = G"
  shows "post (grant_unlocked f t rb new loc s) (request_ok G f fl t X k)"
proof -
  have tb: "table_ok (lk s) xs" using rq by (simp add: requesting_def lock_inv_def)
  then have free: "\<And>y. y \<in> set xs \<Longrightarrow> ino (lk s) y \<noteq> f" using search_cases(1) [OF _ _ search] by (auto simp: table_ok_def)
  have link: "\<exists>xs'. table_ok m xs' \<and> set xs' = insert new (set xs) \<and> same_id {} (lk s) m \<and> brk m = brk (lk s)" if "link_unlocked new f loc (lk s) = Some m" for m
    using rq by (intro link_unlocked_ok [OF tb _ _ _ _ free _ search that]) (auto simp: requesting_def split: if_splits)
  note g = grant_ok [where L = "link_unlocked new f loc", OF rq _ _ X]
  have e: "(if t \<noteq> 0 then if BACKUP s = INACTIVE then Some (Serializable, s) else mutually_serializable t rb s else Some (Serializable, s))
    = (if t \<noteq> 0 \<and> BACKUP s \<noteq> INACTIVE then mutually_serializable t rb s else Some (Serializable, s))" by simp
  show ?thesis unfolding grant_unlocked_def e
  proof (rule post_bind, rule post_prod)
    fix x ret s1
    assume "(if t \<noteq> 0 \<and> BACKUP s \<noteq> INACTIVE then mutually_serializable t rb s else Some (Serializable, s)) = Some x" "x = (ret, s1)"
    then have r: "(if t \<noteq> 0 \<and> BACKUP s \<noteq> INACTIVE then mutually_serializable t rb s else Some (Serializable, s)) = Some (ret, s1)" by simp
    show "post (case ret of Serializable \<Rightarrow> do { m \<leftarrow> link_unlocked new f loc (lk s1); s \<leftarrow> insert_same_txn_list t rb new (s1\<lparr>lk := m\<rparr>); Some (Got new, s) }
       | Pausing \<Rightarrow> Some (Paused (Some new), s1)
       | Aborted \<Rightarrow> do { m \<leftarrow> free_file_node new (lk s1); Some (Refused, s1\<lparr>lk := m\<rparr>) }) (request_ok G f fl t X k)"
    proof (cases ret)
      case Serializable
      then show ?thesis using g(1) [OF link r] by simp
    next
      case Pausing
      then have p: "requesting f fl t new s1 xs" "lk s1 = lk s" using g(2) [OF link r] by simp_all
      have "request_ok G f fl t X k (Paused (Some new), s1)"
        using p(1) X requesting_less [OF p(1)] unfolding request_ok_def by (auto simp: p(2) granted_def requesting_def)
      then show ?thesis using Pausing by (simp add: post_Some)
    next
      case Aborted
      then have "shrunk t xs s s1" using g(3) [OF link r] by simp
      then show ?thesis using Aborted shrunk_free(2) [OF _ rq _ X(2,3)] X(1) by (auto simp: post_def Option.bind_eq_Some_conv)
    qed
  qed
qed

lemma grant_shared_ok:
  assumes rq: "requesting f 0 t new s xs" and a: "a \<in> set xs" "ino (lk s) a = f" "mode_of (lk s) a = 0"
    and X: "insert new (set xs) \<subseteq> X" "k \<le> brk (lk s)" "grants (lk s) xs = G"
  shows "post (grant_shared t rb new a s) (request_ok G f 0 t X k)"
proof -
  have tb: "table_ok (lk s) xs" using rq by (simp add: requesting_def lock_inv_def)
  have link: "\<exists>xs'. table_ok m xs' \<and> set xs' = insert new (set xs) \<and> same_id {} (lk s) m \<and> brk m = brk (lk s)"
    if "do { l \<leftarrow> fl_last fl_next_shared_rec (lk s) a; link_shared new l (lk s) } = Some m" for m
    using that rq by (auto simp: Option.bind_eq_Some_conv requesting_def intro!: link_shared_ok [OF tb _ _ _ _ _ a])
  note g = grant_ok [where L = "\<lambda>m. do { l \<leftarrow> fl_last fl_next_shared_rec m a; link_shared new l m }", OF rq _ _ X]
  show ?thesis unfolding grant_shared_def
  proof (rule post_bind, rule post_prod)
    fix x ret s1
    assume "(if t \<noteq> 0 then mutually_serializable t rb s else Some (Serializable, s)) = Some x" "x = (ret, s1)"
    then have r: "(if t \<noteq> 0 then mutually_serializable t rb s else Some (Serializable, s)) = Some (ret, s1)" by simp
    show "post (case ret of Serializable \<Rightarrow> do { ptr \<leftarrow> fl_last fl_next_shared_rec (lk s1) a; m \<leftarrow> link_shared new ptr (lk s1);
         s \<leftarrow> insert_same_txn_list t rb new (s1\<lparr>lk := m\<rparr>); Some (Got new, s) }
       | Pausing \<Rightarrow> Some (Paused None, s1) | Aborted \<Rightarrow> Some (Refused, s1)) (request_ok G f 0 t X k)"
    proof (cases ret)
      case Serializable
      then show ?thesis using g(1) [OF link r] by (simp add: Option.bind_assoc)
    next
      case Pausing
      then have p: "requesting f 0 t new s1 xs" "lk s1 = lk s" using g(2) [OF link r] by simp_all
      have "request_ok G f 0 t X k (Paused None, s1)"
        using p(1) X unfolding request_ok_def by (auto simp: p(2) granted_def requesting_def)
      then show ?thesis using Pausing by (simp add: post_Some)
    next
      case Aborted
      then have "shrunk t xs s s1" using g(3) [OF link r] by simp
      then show ?thesis using Aborted shrunk_free(1) [OF _ rq _ X(2,3)] X(1) by (auto simp: post_def)
    qed
  qed
qed

text \<open>The specification of the lock table: a transaction acquires a lock nobody else's excludes, or
  gives up all of its own at once; only the backup, transaction 0, can give up some of them.\<close>

inductive lock_step :: "int \<Rightarrow> grant set \<Rightarrow> grant set \<Rightarrow> bool" for t :: int where
  acquire: "free_for f m G \<Longrightarrow> lock_step t G (insert (t, f, m) G)"
| finish: "lock_step t G (without t G)"
| drop_some: "t = 0 \<Longrightarrow> without 0 G \<subseteq> G' \<Longrightarrow> G' \<subseteq> G \<Longrightarrow> lock_step t G G'"

inductive_cases lock_stepE: "lock_step t G G'"

lemma granted_step: "granted G f fl t out G' \<Longrightarrow> (lock_step t)\<^sup>*\<^sup>* G G'"
  by (auto simp: granted_def split: lock_out.splits intro: lock_step.intros)

section \<open>Every step of a request keeps the invariant\<close>

lemma resume_ok:
  assumes inv: "lock_inv s xs"
  shows "post (resume f fl t rb s) (request_ok (grants (lk s) xs) f fl t (insert (brk (lk s)) (set xs)) (brk (lk s)))"
  unfolding resume_def insert_file_list_def
proof (rule post_bind, rule post_prod, rule post_let, rule post_prod, rule post_let, rule post_bind)
  fix x r loc new m tn
  let ?s = "s\<lparr>lk := m\<rparr>" and ?X = "insert (brk (lk s)) (set xs)" and ?k = "brk (lk s)"
  assume x: "search_file_list f (lk s) = Some x" "x = (r, loc)" and al: "fl_alloc (get_file_node f 0 fl t) (lk s) = (new, m)"
  then have search: "search_file_list f (lk s) = Some (r, loc)" by simp
  note a = lock_inv_alloc [OF inv al get_file_node_sel(6,7)]
  have rq: "requesting f fl t new ?s xs" using a by (simp add: requesting_def)
  have ll: "lock_list (lk s) xs" "inodes_sorted (lk s) xs" using inv by (simp_all add: lock_inv_def table_ok_def)
  have m: "new = brk (lk s)" "m = (lk s)\<lparr>fl_heap := (fl_heap (lk s))(brk (lk s) \<mapsto> get_file_node f 0 fl t), brk := Suc (brk (lk s))\<rparr>"
    using al by (auto simp: fl_alloc_def)
  have old: "fl_heap m b = fl_heap (lk s) b" if "b \<in> set xs" for b using that a(2) m by auto
  have llm: "lock_list m xs" and cm: "compatible m xs" using a(1) by (simp_all add: lock_inv_def table_ok_def)
  have search': "search_file_list f m = Some (r, loc)"
    using search_same [OF ll(1) llm] old search by (simp add: ino_def)
  have X: "insert new (set xs) \<subseteq> ?X" "?k \<le> brk (lk ?s)" "grants (lk ?s) xs = grants (lk s) xs"
    using m grants_other [of "brk (lk s)" xs m "lk s"] a(2) by auto
  have blk: "post (block_request f fl t new ?s) (request_ok (grants (lk s) xs) f fl t ?X ?k)" using X by (intro block_request_ok [OF a(1,2)]) auto
  show "post (if r = 0 then grant_unlocked f t rb new loc ?s
     else do {
       a \<leftarrow> loc;
       n \<leftarrow> fl_heap (lk ?s) a;
       if fl_parent_txn n = t then Some (Got a, ?s)
       else if fl_file_mode n = 1 then block_request f fl t new ?s
       else if search_wait_list f (head_wait_list ?s) = None then
         if fl = 0 then grant_shared t rb new a ?s
         else block_request f fl t new ?s
       else do {
         b \<leftarrow> find_backup (fl_heap (lk ?s)) (Suc (brk (lk ?s))) (Some a);
         if b \<noteq> None \<and> fl = 0 then grant_shared t rb new a ?s
         else block_request f fl t new ?s } }) (request_ok (grants (lk s) xs) f fl t ?X ?k)"
  proof (rule post_if)
    assume "r = 0"
    then show "post (grant_unlocked f t rb new loc ?s) (request_ok (grants (lk s) xs) f fl t ?X ?k)"
      using search' by (intro grant_unlocked_ok [OF rq _ X]) simp
  next
    assume "r \<noteq> 0"
    then obtain b where b: "loc = Some b" "b \<in> set xs" "ino (lk s) b = f" using search_cases(2) [OF ll search] by blast
    obtain n where n: "fl_heap m b = Some n" using lock_list_alloc [OF llm b(2)] by blast
    have ib: "ino m b = f" using old [OF b(2)] b(3) by (simp add: ino_def)
    have mb: "mode_of m b = fl_file_mode n" "parent_of m b = fl_parent_txn n" using n by (simp_all add: mode_of_def parent_of_def)
    have sh: "post (grant_shared t rb new b ?s) (request_ok (grants (lk s) xs) f fl t ?X ?k)" if "fl = 0" "fl_file_mode n \<noteq> 1"
    proof -
      have "mode_of m b = 0" using cm b(2) that(2) mb(1) by (auto simp: compatible_def)
      then show ?thesis using rq b(2) ib X unfolding that(1) by (intro grant_shared_ok) auto
    qed
    have own: "request_ok (grants (lk s) xs) f fl t ?X ?k (Got b, ?s)" if "fl_parent_txn n = t"
    proof -
      have "(t, f, mode_of m b) \<in> grants m xs" using b(2) ib mb(2) that by (force simp: grants_def grant_at_def)
      then have "granted (grants (lk s) xs) f fl t (Got b) (grants (lk ?s) xs)" using X(3) by (auto simp: granted_def)
      then show ?thesis using a(1) b(2) ib mb(2) that X by (auto simp: request_ok_def)
    qed
    show "post (do {
       a \<leftarrow> loc;
       n \<leftarrow> fl_heap (lk ?s) a;
       if fl_parent_txn n = t then Some (Got a, ?s)
       else if fl_file_mode n = 1 then block_request f fl t new ?s
       else if search_wait_list f (head_wait_list ?s) = None then
         if fl = 0 then grant_shared t rb new a ?s
         else block_request f fl t new ?s
       else do {
         b \<leftarrow> find_backup (fl_heap (lk ?s)) (Suc (brk (lk ?s))) (Some a);
         if b \<noteq> None \<and> fl = 0 then grant_shared t rb new a ?s
         else block_request f fl t new ?s } }) (request_ok (grants (lk s) xs) f fl t ?X ?k)"
      using own sh blk b(1) n by (auto intro!: post_if post_bind post_Some)
  qed
qed

lemma resume_ok':
  assumes "lock_inv s1 xs" and "brk (lk s1) = brk (lk s)" and "grants (lk s1) xs = grants (lk s) xs"
  shows "post (resume f fl t rb s1) (request_ok (grants (lk s) xs) f fl t (insert (brk (lk s)) (set xs)) (brk (lk s)))"
  using resume_ok [OF assms(1), of f fl t rb] unfolding assms(2,3) .

text \<open>The later parts of a request.\<close>

lemma woken_lock_ok:
  assumes "lock_inv s xs"
  shows "post (woken_lock f t s) (request_ok (grants (lk s) xs) f fl t (insert (brk (lk s)) (set xs)) (brk (lk s)))"
    "post (victim_lock f t s) (request_ok (grants (lk s) xs) f fl t (insert (brk (lk s)) (set xs)) (brk (lk s)))"
    "post (victim_woken f t s) (request_ok (grants (lk s) xs) f fl t (insert (brk (lk s)) (set xs)) (brk (lk s)))"
proof -
  have inv': "lock_inv s' xs" if "lk s' = lk s" "head_txn_list s' = head_txn_list s" for s'
    using assms that by (simp add: lock_inv_def)
  have any: "request_ok (grants (lk s) xs) f fl t (insert (brk (lk s)) (set xs)) (brk (lk s)) (out, s')"
    if "lk s' = lk s" "head_txn_list s' = head_txn_list s" "out \<in> {Asleep, Awaiting, Woken, Doomed}" for out s'
  proof -
    have "lock_inv s' xs" using inv' that by blast
    then show ?thesis unfolding request_ok_def using that by (auto simp: granted_def intro!: exI [of _ xs])
  qed
  have av: "lk s' = lk s0 \<and> head_txn_list s' = head_txn_list s0" if "abort_after_wake f s0 = Some s'" for s0 s'
    using that unfolding abort_after_wake_def by (auto simp: Option.bind_eq_Some_conv dest!: wait_ops_frame(3,4))
  have aw: "lk s' = lk s \<and> head_txn_list s' = head_txn_list s" if "after_wake f t s = Some (out, s')" for out s'
    using that unfolding after_wake_def
    by (auto simp: Option.bind_eq_Some_conv dest!: wait_ops_frame(3,4) split: if_splits)
  show "post (woken_lock f t s) (request_ok (grants (lk s) xs) f fl t (insert (brk (lk s)) (set xs)) (brk (lk s)))"
    unfolding woken_lock_def
  proof (rule post_bind, rule post_prod, rule post_Some)
    fix x out s1
    assume "after_wake f t s = Some x" "x = (out, s1)"
    then show "request_ok (grants (lk s) xs) f fl t (insert (brk (lk s)) (set xs)) (brk (lk s))
       (case out of Resume \<Rightarrow> Woken | Sleep_again \<Rightarrow> Asleep | Abort_now \<Rightarrow> Doomed | Await_wake \<Rightarrow> Awaiting, s1)"
      using aw [of out s1] any [of s1] by (cases out) simp_all
  qed
  have ad: "lk s' = lk s \<and> head_txn_list s' = head_txn_list s" if "await_wake f t s = Some (b, s')" for b s'
    using that unfolding await_wake_def by (auto simp: Option.bind_eq_Some_conv dest!: wait_ops_frame(4) split: if_splits)
  show "post (victim_lock f t s) (request_ok (grants (lk s) xs) f fl t (insert (brk (lk s)) (set xs)) (brk (lk s)))"
    unfolding victim_lock_def
    by (intro post_intros) (use ad any av in fastforce)+
  show "post (victim_woken f t s) (request_ok (grants (lk s) xs) f fl t (insert (brk (lk s)) (set xs)) (brk (lk s)))"
    unfolding victim_woken_def leave_wake_cond_def
    by (intro post_bind post_Some) (use wait_ops_frame(4) any av in fastforce)
qed

lemma try_again_ok:
  assumes "lock_inv s xs"
  shows "post (try_again f fl t rb s) (request_ok (grants (lk s) xs) f fl t (insert (brk (lk s)) (set xs)) (brk (lk s)))"
  unfolding try_again_def
proof (rule post_bind)
  fix s2
  assume st: "stop_waiting t s = Some s2"
  have "lock_inv s2 xs" using assms st unfolding stop_waiting_def by (rule set_txn_inv) simp_all
  moreover have "lk s2 = lk s" using st by (auto simp: stop_waiting_def set_txn_def Option.bind_eq_Some_conv)
  ultimately show "post (resume f fl t rb s2) (request_ok (grants (lk s) xs) f fl t (insert (brk (lk s)) (set xs)) (brk (lk s)))"
    by (intro resume_ok') simp_all
qed

lemma refuse_victim_ok:
  assumes "lock_inv s xs"
  shows "post (refuse_victim t s) (request_ok (grants (lk s) xs) f fl t (insert (brk (lk s)) (set xs)) (brk (lk s)))"
  unfolding refuse_victim_def
proof (rule post_bind, rule post_prod, rule post_Some)
  fix x u s1
  assume "on_txn_abort t s = Some x" "x = (u, s1)"
  then have "shrunk t xs s s1" using postD [OF abort_shrinks(1) [OF assms]] by fastforce
  then show "request_ok (grants (lk s) xs) f fl t (insert (brk (lk s)) (set xs)) (brk (lk s)) (Refused, s1)"
    unfolding shrunk_def request_ok_def by (auto simp: granted_def)
qed

lemma unpaused_lock_ok:
  assumes "lock_inv s xs" and "\<And>a. p = Some a \<Longrightarrow> a \<notin> set xs"
  shows "post (unpaused_lock f fl t rb p s) (request_ok (grants (lk s) xs) f fl t (insert (brk (lk s)) (set xs)) (brk (lk s)))"
  unfolding unpaused_lock_def
proof (intro post_bind)
  fix s1 m
  assume s1: "after_pause t s = Some s1" and m: "(case p of None \<Rightarrow> Some (lk s1) | Some a \<Rightarrow> free_file_node a (lk s1)) = Some m"
  have i1: "lock_inv s1 xs"
  proof -
    obtain s0 where s0: "set_txn t (\<lambda>n. n\<lparr>tn_cur_state := RUNNING\<rparr>) s = Some s0" "lk s1 = lk s0" "head_txn_list s1 = head_txn_list s0"
      using s1 by (auto simp: after_pause_def Option.bind_eq_Some_conv)
    have "lock_inv s0 xs" using assms(1) s0(1) by (rule set_txn_inv) simp_all
    then show ?thesis using s0(2,3) by (simp add: lock_inv_def)
  qed
  have "brk m = brk (lk s1)" using m free_node_brk by (auto split: option.splits)
  moreover have "lk s1 = lk s" using s1 by (auto simp: after_pause_def set_txn_def Option.bind_eq_Some_conv)
  moreover have "lock_inv (s1\<lparr>lk := m\<rparr>) xs"
  proof (cases p)
    case None
    then show ?thesis using i1 m by (auto simp: lock_inv_def)
  next
    case (Some a)
    then show ?thesis using lock_inv_free [OF i1 assms(2)] m by simp
  qed
  moreover have "grants m xs = grants (lk s1) xs"
    using m assms(2) grants_free [of _ xs "lk s1" m] by (cases p) auto
  ultimately show "post (resume f fl t rb (s1\<lparr>lk := m\<rparr>)) (request_ok (grants (lk s) xs) f fl t (insert (brk (lk s)) (set xs)) (brk (lk s)))"
    by (intro resume_ok') simp_all
qed

end
