(* ===== verification/CLib.thy ===== *)
theory CLib
  imports ServerState
begin

text \<open>
  What the handlers use of the C library and of the file system.  \<open>atoi\<close> and \<open>dirname\<close> are the
  library's functions; \<open>dirname\<close> may cut its argument short in place, so it returns the buffer
  too.  The answers of the file system during one stretch of a handler are a record of
  functions, an argument of the handlers.
\<close>

section \<open>Strings\<close>

definition is_space :: "char \<Rightarrow> bool" where
  "is_space c \<longleftrightarrow> c = CHR 0x20 \<or> (9 \<le> (of_char c :: nat) \<and> (of_char c :: nat) \<le> 13)"

definition is_digit :: "char \<Rightarrow> bool" where
  "is_digit c \<longleftrightarrow> 48 \<le> (of_char c :: nat) \<and> (of_char c :: nat) \<le> 57"

fun digits_value :: "int \<Rightarrow> cstring \<Rightarrow> int" where
  "digits_value acc [] = acc"
| "digits_value acc (c # cs) = (if is_digit c then digits_value (10 * acc + (of_char c - 48)) cs else acc)"

text \<open>\<open>(int) strtol(s, NULL, 10)\<close>; \<open>strtol\<close> saturates.\<close>

definition strtol :: "cstring \<Rightarrow> int" where
  "strtol s =
     (let t = dropWhile is_space s;
          v = (case t of [] \<Rightarrow> 0
               | c # cs \<Rightarrow> if c = CHR ''-'' then - digits_value 0 cs
                           else if c = CHR ''+'' then digits_value 0 cs else digits_value 0 t)
      in max (- 9223372036854775808) (min 9223372036854775807 v))"

definition atoi :: "cstring \<Rightarrow> int" where
  "atoi s = s32 (strtol s)"

lemma atoi_range [simp]: "in_s32 (atoi s)"
  by (simp add: atoi_def)

definition strip_slashes :: "cstring \<Rightarrow> cstring" where
  "strip_slashes p = rev (dropWhile (\<lambda>c. c = CHR ''/'') (rev p))"

text \<open>The directory and the buffer afterwards.  Slashes at the end do not count; the root is
  \<open>/\<close>, or \<open>//\<close> where the last slash is the second character.\<close>

definition root_dir :: "nat \<Rightarrow> cstring" where
  "root_dir k = (if k = 1 then ''//'' else ''/'')"

definition dirname :: "cstring \<Rightarrow> cstring \<times> cstring" where
  "dirname p =
     (let body = strip_slashes p; upto = rev (dropWhile (\<lambda>c. c \<noteq> CHR ''/'') (rev body)) in
      if CHR ''/'' \<notin> set p then (''.'', p)
      else if body = [] then (let d = root_dir (length p - 1) in (d, d))
      else if upto = [] then (''.'', p)
      else let d = strip_slashes upto; d' = (if d = [] then root_dir (length upto - 1) else d) in (d', d'))"

text \<open>A string in decimal, as \<open>snprintf("%ld")\<close> prints it.\<close>

function dec_digits :: "nat \<Rightarrow> cstring" where
  "dec_digits n = (if n < 10 then [char_of (48 + n)] else dec_digits (n div 10) @ [char_of (48 + n mod 10)])"
  by pat_completeness auto
termination
  by (relation "measure id") auto

declare dec_digits.simps [simp del]

definition show_int :: "int \<Rightarrow> cstring" where
  "show_int i = (if i < 0 then CHR ''-'' # dec_digits (nat (- i)) else dec_digits (nat i))"

lemma of_char_digit: "n < 10 \<Longrightarrow> (of_char (char_of (48 + n :: nat) :: char) :: nat) = 48 + n"
  by (simp add: of_char_of)

lemma digit_is_digit [simp]: "n < 10 \<Longrightarrow> is_digit (char_of (48 + n :: nat))"
  unfolding is_digit_def by (simp only: of_char_digit) simp

lemma int_of_digit [simp]: "n < 10 \<Longrightarrow> (of_char (char_of (48 + n :: nat) :: char) :: int) = 48 + int n"
proof -
  assume "n < 10"
  have "(of_char (char_of (48 + n :: nat) :: char) :: int) = int (of_char (char_of (48 + n :: nat) :: char))"
    by (simp only: of_nat_of_char)
  then show ?thesis using of_char_digit [OF \<open>n < 10\<close>] by simp
qed

lemma digits_value_append:
  "(\<And>c. c \<in> set ds \<Longrightarrow> is_digit c) \<Longrightarrow> digits_value acc (ds @ cs) = digits_value (digits_value acc ds) cs"
  by (induction ds arbitrary: acc) auto

lemma dec_digits_ok: "(\<forall>c \<in> set (dec_digits n). is_digit c) \<and> digits_value 0 (dec_digits n) = int n \<and> dec_digits n \<noteq> []"
proof (induction n rule: dec_digits.induct)
  case (1 n)
  show ?case
  proof (cases "n < 10")
    case True
    then show ?thesis by (simp add: dec_digits.simps [of n])
  next
    case False
    have m: "n mod 10 < 10" by simp
    have "10 * (n div 10) + n mod 10 = n" by simp
    then have d: "10 * int (n div 10) + int (n mod 10) = int n" by presburger
    show ?thesis using 1 [OF False] False digit_is_digit [OF m] int_of_digit [OF m] d
      by (simp add: dec_digits.simps [of n] digits_value_append del: of_char_of)
  qed
qed

lemma digit_not_special: "is_digit c \<Longrightarrow> \<not> is_space c \<and> c \<noteq> CHR ''-'' \<and> c \<noteq> CHR ''+''"
  by (auto simp: is_digit_def is_space_def)

text \<open>What the server prints the client reads back.\<close>

lemma strtol_show_int:
  assumes "in_s64 i"
  shows "strtol (show_int i) = i"
proof -
  obtain c cs where d: "dec_digits (nat \<bar>i\<bar>) = c # cs" using dec_digits_ok [of "nat \<bar>i\<bar>"] by (cases "dec_digits (nat \<bar>i\<bar>)") auto
  have v: "digits_value 0 (c # cs) = \<bar>i\<bar>" "is_digit c" using dec_digits_ok [of "nat \<bar>i\<bar>"] unfolding d by auto
  have c: "\<not> is_space c" "c \<noteq> CHR ''-''" "c \<noteq> CHR ''+''" using digit_not_special [OF v(2)] by auto
  have m: "\<not> is_space (CHR ''-'')" by (simp add: is_space_def)
  show ?thesis
  proof (cases "i < 0")
    case True
    then have "show_int i = CHR ''-'' # c # cs" using d by (simp add: show_int_def)
    then show ?thesis using v(1) m True assms by (simp add: strtol_def in_s64_def)
  next
    case False
    then have "show_int i = c # cs" using d by (simp add: show_int_def)
    then show ?thesis using v(1) c False assms by (simp add: strtol_def in_s64_def)
  qed
qed

lemma atoi_show_int: "in_s32 i \<Longrightarrow> atoi (show_int i) = i"
  using strtol_show_int [OF in_s64_if_s32] by (simp add: atoi_def)

section \<open>What the file system answers\<close>

text \<open>A tree of files as \<open>fts\<close> walks it: directories are met before and after their entries,
  files once.  The server skips the entries of hidden directories (\<open>FTS_SKIP\<close>).\<close>

datatype fts_entry = Fts_file cstring | Fts_dir cstring "fts_entry list"

definition hidden :: "cstring \<Rightarrow> bool" where
  "hidden name \<longleftrightarrow> name \<noteq> [] \<and> hd name = CHR ''.''"

fun fts_visits :: "nat \<Rightarrow> fts_entry \<Rightarrow> (nat \<times> cstring) list" where
  "fts_visits l (Fts_file n) = [(l, n)]"
| "fts_visits l (Fts_dir n es) =
     (l, n) # (if 0 < l \<and> hidden n then [] else concat (map (fts_visits (Suc l)) es)) @ [(l, n)]"

record fs_env =
  env_read_bit :: int      \<comment> \<open>found in the variable \<open>read_bit\<close>, which nothing assigns\<close>
  env_object_id :: "cstring \<Rightarrow> int"
  env_parent_id :: "cstring \<Rightarrow> int"
  env_access :: "cstring \<Rightarrow> bool"
  env_stat :: "cstring \<Rightarrow> (int \<times> bool) option"    \<comment> \<open>inode and whether a directory\<close>
  env_yaffs_stat :: "cstring \<Rightarrow> int option"
  env_open :: "cstring \<Rightarrow> int \<Rightarrow> int"
  env_creat :: "cstring \<Rightarrow> int \<Rightarrow> int"
  env_write :: "int \<Rightarrow> cstring \<Rightarrow> int \<Rightarrow> int"
  env_read :: "int \<Rightarrow> int \<Rightarrow> int \<times> char list"
  env_lseek :: "int \<Rightarrow> int \<Rightarrow> int \<Rightarrow> int"
  env_fts :: "cstring \<Rightarrow> fts_entry option"
  env_fts_close :: bool     \<comment> \<open>succeeds\<close>

end
