(* ===== verification/UpdateManager.thy ===== *)
theory UpdateManager
  imports LockGrant CLib
begin

text \<open>
  Changes a transaction makes before it commits (Update_manager.c).  A rename, creation or removal is put
  in the log, and a write record that names the log record goes at the end of the list of the locked file,
  from where commit performs it (DelayedOps).  \<open>write_log\<close> does the same with a write, and \<open>do_read_old\<close> puts
  a read together from the logged writes and the file; the handlers of the server no longer call these two,
  \<open>on_write\<close> and \<open>on_read\<close> go to YAFFS at once.
\<close>

section \<open>Operations\<close>

text \<open>\<open>while (ptr->fd != fd) ptr = ptr->next\<close>, without and with a test for the end of the list.\<close>

definition find_fd :: "int \<Rightarrow> lockmem \<Rightarrow> addr option" where
  "find_fd fd m = fl_find (\<lambda>n. fl_fd n = fd) m"

fun search_fd :: "(addr \<Rightarrow> file_lock option) \<Rightarrow> int \<Rightarrow> nat \<Rightarrow> addr option \<Rightarrow> addr option option" where
  "search_fd h fd 0 p = None"
| "search_fd h fd (Suc k) p =
     (case p of None \<Rightarrow> Some None
      | Some a \<Rightarrow> do { n \<leftarrow> h a; if fl_fd n = fd then Some (Some a) else search_fd h fd k (fl_next n) })"

definition write_possible :: "int \<Rightarrow> server \<Rightarrow> int option" where
  "write_possible fd s = do {
     p \<leftarrow> search_fd (fl_heap (lk s)) fd (Suc (brk (lk s))) (head_lock_list (lk s));
     case p of
       None \<Rightarrow> Some (- 1)
     | Some a \<Rightarrow> do { n \<leftarrow> fl_heap (lk s) a; Some (if fl_flags n = 0 then - 1 else 1) } }"

definition read_possible :: "int \<Rightarrow> server \<Rightarrow> int option" where
  "read_possible fd s = do {
     a \<leftarrow> find_fd fd (lk s);
     n \<leftarrow> fl_heap (lk s) a;
     Some (if fl_flags n = 1 \<or> fl_flags n = 3 then - 1 else 1) }"

text \<open>A new write record at the end of the list of the lock \<open>a\<close>.\<close>

definition link_write :: "addr \<Rightarrow> addr \<Rightarrow> lockmem \<Rightarrow> lockmem option" where
  "link_write a new m = do {
     n \<leftarrow> fl_heap m a;
     case fl_writes_at n of
       None \<Rightarrow> fl_set (Some a) (\<lambda>n. n\<lparr>fl_writes_at := Some new\<rparr>) m
     | Some w \<Rightarrow> do {
         l \<leftarrow> wr_last m w;
         m \<leftarrow> wr_set (Some l) (\<lambda>x. x\<lparr>wr_next := Some new\<rparr>) m;
         wr_set (Some new) (\<lambda>x. x\<lparr>wr_prev := Some l\<rparr>) m } }"

definition new_write :: "int \<Rightarrow> int \<Rightarrow> int \<Rightarrow> write_records" where
  "new_write off len LRN = \<lparr>wr_initial_off = off, wr_write_length = len, wr_LRN = LRN, wr_next = None, wr_prev = None\<rparr>"

definition add_write :: "addr \<Rightarrow> write_records \<Rightarrow> lockmem \<Rightarrow> (addr \<times> lockmem) option" where
  "add_write a w m = do {
     let (new, m) = wr_alloc w m;
     m \<leftarrow> link_write a new m;
     Some (new, m) }"

text \<open>Where a write goes: a file opened for appending is written after its last logged write, or at
  its end, which \<open>lseek\<close> returns.\<close>

definition write_offset :: "file_lock \<Rightarrow> int \<Rightarrow> lockmem \<Rightarrow> int option" where
  "write_offset n eof m =
     (if fl_flags n = 3 \<or> fl_flags n = 4 then
        case fl_writes_at n of
          None \<Rightarrow> Some eof
        | Some w \<Rightarrow> do {
            l \<leftarrow> wr_last m w;
            r \<leftarrow> wr_heap m l;
            Some (s64 (wr_initial_off r + wr_write_length r)) }
      else Some (fl_file_offset n))"

definition move_offset :: "int \<Rightarrow> file_lock \<Rightarrow> file_lock" where
  "move_offset off n = n\<lparr>fl_file_offset := off, fl_file_size := (if off > fl_file_size n then off else fl_file_size n)\<rparr>"

definition write_log :: "cstring \<Rightarrow> cstring \<Rightarrow> cstring \<Rightarrow> int \<Rightarrow> int \<Rightarrow> server \<Rightarrow> (int \<times> server) option" where
  "write_log arg1 arg2 arg3 txnid eof s = do {
     let len = atoi arg3;
     let fd = atoi arg1;
     a \<leftarrow> find_fd fd (lk s);
     n \<leftarrow> fl_heap (lk s) a;
     offset \<leftarrow> write_offset n eof (lk s);
     m \<leftarrow> fl_set (Some a) (move_offset (s64 (offset + len))) (lk s);
     (new, m) \<leftarrow> add_write a (new_write offset len 0) m;
     (LRN, s) \<leftarrow> log_write txnid fd offset (nat (len mod 18446744073709551616)) arg2 (s\<lparr>lk := m\<rparr>);
     m \<leftarrow> wr_set (Some new) (\<lambda>x. x\<lparr>wr_LRN := LRN\<rparr>) (lk s);
     Some (len, s\<lparr>lk := m\<rparr>) }"

definition update_on_lseek :: "int \<Rightarrow> int \<Rightarrow> int \<Rightarrow> server \<Rightarrow> (int \<times> server) option" where
  "update_on_lseek fd offset whence s = do {
     a \<leftarrow> find_fd fd (lk s);
     m \<leftarrow> (if whence = 0 then fl_set (Some a) (\<lambda>n. n\<lparr>fl_file_offset := offset\<rparr>) (lk s)
          else if whence = 1 then fl_set (Some a) (\<lambda>n. n\<lparr>fl_file_offset := s64 (fl_file_offset n + offset)\<rparr>) (lk s)
          else if whence = 2 then fl_set (Some a) (\<lambda>n. n\<lparr>fl_file_offset := s64 (offset + fl_file_size n)\<rparr>) (lk s)
          else Some (lk s));
     n \<leftarrow> fl_heap m a;
     Some (fl_file_offset n, s\<lparr>lk := m\<rparr>) }"

definition do_read :: "fs_env \<Rightarrow> int \<Rightarrow> int \<Rightarrow> server \<Rightarrow> (int \<times> char list) \<times> server" where
  "do_read env fd nbytes s = (env_read env fd nbytes, emit (Tr_read fd nbytes) s)"

text \<open>Renames, creations and removals: the kind is in \<open>write_length\<close>.\<close>

definition rename_log :: "cstring \<Rightarrow> cstring \<Rightarrow> addr \<Rightarrow> addr option \<Rightarrow> int \<Rightarrow> server \<Rightarrow> server option" where
  "rename_log arg1 arg2 pos_old pos_new txnid s = do {
     (LRN, s) \<leftarrow> log_rename txnid arg1 arg2 s;
     (_, m) \<leftarrow> add_write pos_old (new_write 0 (if pos_new = None then - 3 else - 1) LRN) (lk s);
     case pos_new of
       None \<Rightarrow> Some (s\<lparr>lk := m\<rparr>)
     | Some b \<Rightarrow> do {
         (_, m) \<leftarrow> add_write b (new_write 0 (- 2) LRN) m;
         Some (s\<lparr>lk := m\<rparr>) } }"

definition creat_log :: "cstring \<Rightarrow> cstring \<Rightarrow> addr \<Rightarrow> int \<Rightarrow> server \<Rightarrow> server option" where
  "creat_log arg1 arg2 pos txnid s = do {
     (LRN, s) \<leftarrow> log_creat txnid arg1 arg2 s;
     (_, m) \<leftarrow> add_write pos (new_write 0 (- 4) LRN) (lk s);
     Some (s\<lparr>lk := m\<rparr>) }"

definition unlink_log :: "cstring \<Rightarrow> addr \<Rightarrow> addr \<Rightarrow> int \<Rightarrow> server \<Rightarrow> server option" where
  "unlink_log arg1 pos_child pos_parent txnid s = do {
     (LRN, s) \<leftarrow> log_unlink txnid arg1 s;
     (_, m) \<leftarrow> add_write pos_parent (new_write 0 (- 5) LRN) (lk s);
     Some (s\<lparr>lk := m\<rparr>) }"

section \<open>Reading one's own writes\<close>

record data_read =
  dr_beg :: int
  dr_end :: int
  dr_data :: cstring

text \<open>\<open>strncpy\<close> copies up to a NUL; running off the end of the source is a fault.  So is a
  negative count, which the call takes for a huge one.\<close>

definition strncpy :: "int \<Rightarrow> int \<Rightarrow> char list \<Rightarrow> cstring option" where
  "strncpy index n src =
     (if n < 0 \<or> index < 0 \<or> int (length src) < index then None
      else let avail = drop (nat index) src; cs = takeWhile (\<lambda>c. c \<noteq> CHR 0x00) (take (nat n) avail) in
        if length cs = nat n \<or> length cs < length avail then Some cs else None)"

definition get_new_node :: "int \<Rightarrow> int \<Rightarrow> int \<Rightarrow> char list \<Rightarrow> int \<Rightarrow> data_read option" where
  "get_new_node read_from read_to index rec_data bytes_read = do {
     cs \<leftarrow> strncpy index bytes_read rec_data;
     Some \<lparr>dr_beg = read_from, dr_end = read_to, dr_data = cs\<rparr> }"

fun insert_read_list :: "data_read \<Rightarrow> data_read list \<Rightarrow> data_read list" where
  "insert_read_list new [] = [new]"
| "insert_read_list new (d # ds) = (if dr_beg d > dr_beg new then new # d # ds else d # insert_read_list new ds)"

text \<open>The record number is passed as an \<open>int\<close>; the data goes into a buffer of \<open>len\<close> bytes.\<close>

definition extract_data_log :: "int \<Rightarrow> int \<Rightarrow> cfile \<Rightarrow> (char list \<times> cfile) option" where
  "extract_data_log LRN_write len f = do {
     (bs, f) \<leftarrow> fread_block (fseek_set (s32 LRN_write + (8 + 4 + 8 + 8 + 4 + 4 + 8)) f);
     if int (length bs) \<le> len then Some (bs, f) else None }"

text \<open>The loop over the write records, from the last one back.  Where no case applies nothing
  changes, and the loop never ends.\<close>

fun read_writes :: "(addr \<Rightarrow> write_records option) \<Rightarrow> nat \<Rightarrow> int \<Rightarrow> int \<Rightarrow> int \<Rightarrow> int \<Rightarrow> addr option \<Rightarrow> data_read list \<Rightarrow> cfile \<Rightarrow>
    (int \<times> int \<times> int \<times> data_read list \<times> cfile) option" where
  "read_writes h 0 read_from read_to todo got p head f = None"
| "read_writes h (Suc k) read_from read_to todo got p head f =
     (if todo = 0 then Some (read_from, todo, got, head, f)
      else case p of
        None \<Rightarrow> Some (read_from, todo, got, head, f)
      | Some a \<Rightarrow> do {
          w \<leftarrow> h a;
          let x = wr_initial_off w;
          let y = x + wr_write_length w;
          if read_from \<ge> x \<and> read_to \<le> y then do {
            let n = read_to - read_from;
            (rec_data, f) \<leftarrow> extract_data_log (wr_LRN w) (wr_write_length w) f;
            d \<leftarrow> get_new_node read_from read_to (read_from - x) rec_data n;
            read_writes h k read_from read_to (todo - n) (got + n) (wr_prev w) (insert_read_list d head) f }
          else if read_from < x \<and> read_to < y then do {
            let n = read_to - x;
            (rec_data, f) \<leftarrow> extract_data_log (wr_LRN w) (wr_write_length w) f;
            d \<leftarrow> get_new_node x read_to 0 rec_data n;
            read_writes h k read_from x (todo - n) (got + n) (wr_prev w) (insert_read_list d head) f }
          else if read_from > x \<and> read_to > y then do {
            let n = y - read_from;
            (rec_data, f) \<leftarrow> extract_data_log (wr_LRN w) (wr_write_length w) f;
            d \<leftarrow> get_new_node x read_to (read_from - x) (rec_data @ replicate (nat (wr_write_length w + 1) - length rec_data) (CHR 0x00)) n;
            read_writes h k y read_to (todo - n) (got + n) (wr_prev w) (insert_read_list d head) f }
          else read_writes h k read_from read_to todo got p head f })"

text \<open>\<open>direct\<close> is what \<open>read(fd, ...)\<close> delivers from the file, \<open>rest\<close> the bytes at the place where the
  logged writes end.  The result is the number of bytes and the string in the caller's buffer.\<close>

definition read_merged :: "int \<Rightarrow> char list \<Rightarrow> addr \<Rightarrow> addr \<Rightarrow> server \<Rightarrow> (int \<times> cstring \<times> server) option" where
  "read_merged nbytes rest a w0 s = do {
     n \<leftarrow> fl_heap (lk s) a;
     lw \<leftarrow> wr_last (lk s) w0;
     let off = fl_file_offset n;
     (read_from, todo, got, ds, f) \<leftarrow>
       read_writes (wr_heap (lk s)) (Suc (Suc (brk (lk s)))) off (off + nbytes) nbytes 0 (Some lw) [] (event_log s);
     (got, ds) \<leftarrow>
       (if todo \<noteq> 0 then do {
          d \<leftarrow> get_new_node read_from (read_from + todo) 0 (rest @ replicate (nat todo - length rest) (CHR 0x00)) todo;
          Some (got + todo, insert_read_list d ds) }
        else Some (got, ds));
     m \<leftarrow> fl_set (Some a) (\<lambda>n. n\<lparr>fl_file_offset :=
            (if off + got > fl_file_size n then fl_file_size n else off + got)\<rparr>) (lk s);
     Some (got, concat (map dr_data ds), s\<lparr>lk := m, event_log := f\<rparr>) }"

definition do_read_old :: "int \<Rightarrow> int \<Rightarrow> int \<times> char list \<Rightarrow> char list \<Rightarrow> server \<Rightarrow> (int \<times> cstring \<times> server) option" where
  "do_read_old fd nbytes direct rest s = do {
     a \<leftarrow> find_fd fd (lk s);
     n \<leftarrow> fl_heap (lk s) a;
     case (if fl_flags n = 0 then None else fl_writes_at n) of
       None \<Rightarrow> do {
         m \<leftarrow> fl_set (Some a) (\<lambda>n. n\<lparr>fl_file_offset := fl_file_offset n + fst direct\<rparr>) (lk s);
         Some (fst direct, snd direct, s\<lparr>lk := m\<rparr>) }
     | Some w0 \<Rightarrow> read_merged nbytes rest a w0 s }"

section \<open>The locks are left alone\<close>

text \<open>Only the fields for input and output and the write records change; the allocator may move on.\<close>

definition no_io :: "file_lock \<Rightarrow> file_lock" where
  "no_io n = n\<lparr>fl_writes_at := None, fl_fd := 0, fl_file_offset := 0, fl_file_size := 0\<rparr>"

definition io_only :: "lockmem \<Rightarrow> lockmem \<Rightarrow> bool" where
  "io_only m m' \<longleftrightarrow> (\<forall>b. map_option no_io (fl_heap m' b) = map_option no_io (fl_heap m b)) \<and> brk m \<le> brk m' \<and>
     head_lock_list m' = head_lock_list m \<and> (mem_ok m \<longrightarrow> mem_ok m')"

lemma io_only_refl [simp]: "io_only m m"
  by (simp add: io_only_def)

lemma io_only_trans: "io_only m1 m2 \<Longrightarrow> io_only m2 m3 \<Longrightarrow> io_only m1 m3"
  by (auto simp: io_only_def)

lemma no_io_sel [simp]: "fl_id (no_io n) = fl_id n" "fl_tab (no_io n) = fl_tab n"
  by (simp_all add: no_io_def fl_id_def fl_tab_def)

lemma io_only_field:
  assumes "io_only m m'" and "\<And>n. F (no_io n) = F n"
  shows "map_option F (fl_heap m' b) = map_option F (fl_heap m b)"
proof -
  have F: "map_option F p = map_option F (map_option no_io p)" for p
    by (cases p) (simp_all add: assms(2))
  show ?thesis using assms(1) unfolding F [of "fl_heap m b"] F [of "fl_heap m' b"] io_only_def by simp
qed

lemma io_only_view:
  assumes "io_only m m'"
  shows "ino m' a = ino m a" "mode_of m' a = mode_of m a" "parent_of m' a = parent_of m a"
  using io_only_field [OF assms, of fl_file_inode] io_only_field [OF assms, of fl_file_mode] io_only_field [OF assms, of fl_parent_txn]
  by (simp_all add: ino_alt mode_of_alt parent_of_alt no_io_def)

lemma lock_list_brk: "lock_list m xs \<Longrightarrow> fl_heap m' = fl_heap m \<Longrightarrow> head_lock_list m' = head_lock_list m \<Longrightarrow> mem_ok m' \<Longrightarrow> lock_list m' xs"
  by (simp add: lock_list_def)

lemma shared_ok_brk: "shared_ok X m \<Longrightarrow> fl_heap m' = fl_heap m \<Longrightarrow> brk m \<le> brk m' \<Longrightarrow> shared_ok X m'"
  unfolding shared_ok_def by (metis order_less_le_trans)

lemma io_only_table:
  assumes io: "io_only m m'" and tb: "table_ok m xs"
  shows "table_ok m' xs"
proof -
  let ?m = "m'\<lparr>wr_heap := wr_heap m, brk := brk m\<rparr>"
  have "table_ok ?m xs"
    using tb by (rule table_ok_tab [rotated -1]) (use io io_only_field [OF io, of fl_tab] in \<open>simp_all add: io_only_def\<close>)
  moreover have "mem_ok m'" using io tb by (simp add: io_only_def table_ok_def lock_list_def)
  moreover have "inodes_sorted m' xs = inodes_sorted ?m xs" "compatible m' xs = compatible ?m xs"
    by (simp_all add: inodes_sorted_def compatible_def ino_def mode_of_def cong: map_cong)
  ultimately show ?thesis
    using io lock_list_brk [of ?m xs m'] shared_ok_brk [of "set xs" ?m m'] by (simp add: table_ok_def io_only_def)
qed

lemma owner_ok_same:
  assumes "same_id {} m m'"
  shows "owner_ok m' tv xs = owner_ok m tv xs"
proof -
  have "parent_of m' a = parent_of m a" for a using same_id_view(3) [OF assms] by simp
  moreover have "lpath (fl_heap m') fl_next_txn p as None = lpath (fl_heap m) fl_next_txn p as None" for p as
    using same_id_path [OF assms] by simp
  ultimately show ?thesis by (simp add: owner_ok_def owned_def)
qed

lemma io_only_lock_inv:
  assumes "io_only (lk s) (lk s')" and "txn_view (head_txn_list s') = txn_view (head_txn_list s)" and "lock_inv s xs"
  shows "lock_inv s' xs"
proof -
  have "same_id {} (lk s) (lk s')" using io_only_field [OF assms(1), of fl_id] by (simp add: same_id_def)
  then show ?thesis using assms io_only_table owner_ok_same by (simp add: lock_inv_def)
qed

lemma io_only_fl_set:
  assumes "fl_set p g m = Some m'" and "\<And>n. no_io (g n) = no_io n"
  shows "io_only m m'"
  using assms(1) mem_ok_fl_set [OF _ assms(1)] by (auto simp: io_only_def fl_set_def Option.bind_eq_Some_conv assms(2) split: if_splits)

lemma io_only_wr_set: "wr_set p g m = Some m' \<Longrightarrow> io_only m m'"
  using mem_ok_wr_set [of m p g m'] by (auto simp: io_only_def wr_set_def Option.bind_eq_Some_conv)

lemma io_only_wr_alloc: "wr_alloc w m = (new, m') \<Longrightarrow> io_only m m'"
  using mem_ok_wr_alloc [of m w new m'] by (auto simp: io_only_def wr_alloc_def)

lemma link_write_io: "link_write a new m = Some m' \<Longrightarrow> io_only m m'"
  unfolding link_write_def
  by (auto simp: Option.bind_eq_Some_conv no_io_def split: option.splits
      dest!: io_only_wr_set elim: io_only_trans io_only_fl_set)

lemma add_write_io: "add_write a w m = Some (new, m') \<Longrightarrow> io_only m m'"
  unfolding add_write_def
  by (auto simp: Option.bind_eq_Some_conv Let_def split: prod.splits intro: io_only_trans link_write_io io_only_wr_alloc)

text \<open>The operations of this theory and the log's leave the lock table as it is.\<close>

definition io_step :: "server \<Rightarrow> server \<Rightarrow> bool" where
  "io_step s s' \<longleftrightarrow> io_only (lk s) (lk s') \<and> txn_view (head_txn_list s') = txn_view (head_txn_list s) \<and>
     head_wait_list s' = head_wait_list s"

lemma io_step_refl [simp]: "io_step s s"
  by (simp add: io_step_def)

lemma io_step_trans: "io_step s1 s2 \<Longrightarrow> io_step s2 s3 \<Longrightarrow> io_step s1 s3"
  by (auto simp: io_step_def intro: io_only_trans)

lemma io_step_lock_inv: "io_step s s' \<Longrightarrow> lock_inv s xs \<Longrightarrow> lock_inv s' xs"
  by (auto simp: io_step_def intro: io_only_lock_inv)

lemma io_step_mem [simp]: "io_step s (s'\<lparr>lk := m\<rparr>) = (io_only (lk s) m \<and> txn_view (head_txn_list s') = txn_view (head_txn_list s) \<and>
     head_wait_list s' = head_wait_list s)"
  "io_step s (emit c s') = io_step s s'"
  by (simp_all add: io_step_def emit_def)

lemma log_write_only:
  "post (log_write t fd off k d s) (\<lambda>(_, s'). log_only s s')" "post (log_rename t p q s) (\<lambda>(_, s'). log_only s s')"
  "post (log_creat t p q s) (\<lambda>(_, s'). log_only s s')" "post (log_unlink t p s) (\<lambda>(_, s'). log_only s s')"
proof -
  have u: "log_only s0 s2" if "update_txn t l s1 = Some s2" "log_only s0 s1" for l s0 s1 s2
    using update_txn_only [OF that(1)] that(2) by (simp add: log_only_def)
  show "post (log_write t fd off k d s) (\<lambda>(_, s'). log_only s s')" "post (log_rename t p q s) (\<lambda>(_, s'). log_only s s')"
    "post (log_creat t p q s) (\<lambda>(_, s'). log_only s s')" "post (log_unlink t p s) (\<lambda>(_, s'). log_only s s')"
    unfolding log_write_def log_rename_def log_creat_def log_unlink_def lock_log_def patch_prev_def
    by (intro post_intros; auto simp: log_only_def unlock_log_def write_record_def flush_log_def emit_def dest!: u [of _ _ _ s] split: if_splits)+
qed

lemma log_only_io: "log_only s s' \<Longrightarrow> io_step s s'"
  by (simp add: log_only_def io_step_def)

lemma update_ops_io:
  "post (write_log a1 a2 a3 t eof s) (\<lambda>(_, s'). io_step s s')" "post (update_on_lseek fd off wh s) (\<lambda>(_, s'). io_step s s')"
  "post (rename_log a1 a2 p q t s) (io_step s)" "post (creat_log a1 a2 p t s) (io_step s)" "post (unlink_log a1 c p t s) (io_step s)"
proof -
  have lw: "io_step s0 s'" if "log_write t fd off k d s0 = Some (l, s') \<or> log_rename t a1 a2 s0 = Some (l, s') \<or>
      log_creat t a1 a2 s0 = Some (l, s') \<or> log_unlink t a1 s0 = Some (l, s')" for fd off k d s0 s' l
    using that postD [OF log_write_only(1)] postD [OF log_write_only(2)] postD [OF log_write_only(3)] postD [OF log_write_only(4)]
    by (auto intro!: log_only_io)
  show "post (write_log a1 a2 a3 t eof s) (\<lambda>(_, s'). io_step s s')"
    unfolding write_log_def
  proof (rule post_let, rule post_let, rule post_bind, rule post_bind, rule post_bind, rule post_bind, rule post_bind, rule post_prod,
      rule post_bind, rule post_prod, rule post_bind, rule post_Some, rule case_prodI)
    fix a off m1 x new m2 y LRN s1 m3 n
    assume a: "fl_set (Some a) (move_offset (s64 (off + atoi a3))) (lk s) = Some m1"
      "add_write a (new_write off (atoi a3) 0) m1 = Some x" "x = (new, m2)"
      "log_write t (atoi a1) off (nat (atoi a3 mod 18446744073709551616)) a2 (s\<lparr>lk := m2\<rparr>) = Some y" "y = (LRN, s1)"
      "wr_set (Some new) (\<lambda>x. x\<lparr>wr_LRN := LRN\<rparr>) (lk s1) = Some m3"
    have "io_only (lk s) m1" using a(1) by (rule io_only_fl_set) (simp add: move_offset_def no_io_def)
    moreover have "io_only m1 m2" using a(2,3) add_write_io by simp
    moreover have "io_step (s\<lparr>lk := m2\<rparr>) s1" using lw a(4,5) by blast
    moreover have "io_only (lk s1) m3" using a(6) by (rule io_only_wr_set)
    ultimately show "io_step s (s1\<lparr>lk := m3\<rparr>)" by (auto simp: io_step_def intro: io_only_trans)
  qed
  show "post (update_on_lseek fd off wh s) (\<lambda>(_, s'). io_step s s')"
    unfolding update_on_lseek_def
    by (intro post_intros) (auto simp: no_io_def split: if_splits elim!: io_only_fl_set)
  show "post (rename_log a1 a2 p q t s) (io_step s)" "post (creat_log a1 a2 p t s) (io_step s)" "post (unlink_log a1 c p t s) (io_step s)"
    unfolding rename_log_def creat_log_def unlink_log_def
    by (intro post_intros;
      fastforce simp: io_step_def dest!: add_write_io lw [OF disjI2 [OF disjI1]] lw [OF disjI2 [OF disjI2 [OF disjI1]]]
        lw [OF disjI2 [OF disjI2 [OF disjI2]]] intro: io_only_trans)+
qed

section \<open>A logged write\<close>

definition wr_core :: "write_records \<Rightarrow> int \<times> int \<times> int" where
  "wr_core w = (wr_initial_off w, wr_write_length w, wr_LRN w)"

lemma wr_core_LRN: "map_option wr_core p = map_option wr_core q \<Longrightarrow> map_option wr_LRN p = map_option wr_LRN q"
  by (cases p; cases q) (auto simp: wr_core_def)

lemma lpath_snoc_write:
  assumes "lpath h wr_next p (us @ [l]) None" and "new \<notin> set (us @ [l])" and "h l = Some w" and "h' l = Some (w\<lparr>wr_next := Some new\<rparr>)"
    and "\<And>b. b \<in> set us \<Longrightarrow> map_option wr_next (h' b) = map_option wr_next (h b)" and "map_option wr_next (h' new) = Some None"
  shows "lpath h' wr_next p (us @ [l, new]) None"
proof -
  have "lpath h wr_next p us (Some l)" using assms(1) by (simp add: lpath_append)
  then have "lpath h' wr_next p us (Some l)" using lpath_cong [of us wr_next h' h p "Some l"] assms(5) by simp
  then show ?thesis using assms(4,6) by (auto simp: lpath_append)
qed

lemma add_write_spec:
  assumes ok: "mem_ok m" and n: "fl_heap m a = Some n" and p: "lpath (wr_heap m) wr_next (fl_writes_at n) ws None" and w: "wr_next w = None"
  shows "\<exists>m' q. add_write a w m = Some (brk m, m') \<and> fl_heap m' = (fl_heap m)(a \<mapsto> n\<lparr>fl_writes_at := q\<rparr>) \<and>
     lpath (wr_heap m') wr_next q (ws @ [brk m]) None \<and>
     map_option wr_core (wr_heap m' (brk m)) = Some (wr_core w) \<and>
     (\<forall>b. b \<noteq> brk m \<longrightarrow> map_option wr_core (wr_heap m' b) = map_option wr_core (wr_heap m b)) \<and>
     brk m' = Suc (brk m) \<and> head_lock_list m' = head_lock_list m \<and> mem_ok m'"
proof -
  let ?m = "m\<lparr>wr_heap := (wr_heap m)(brk m \<mapsto> w), brk := Suc (brk m)\<rparr>"
  have al: "wr_alloc w m = (brk m, ?m)" by (simp add: wr_alloc_def)
  have okm: "mem_ok ?m" using ok al by (rule mem_ok_wr_alloc)
  have fr: "wr_heap m (brk m) = None" using ok by simp
  have new: "brk m \<notin> set ws" using lpath_alloc [OF p] fr by fastforce
  show ?thesis
  proof (cases ws rule: rev_cases)
    case Nil
    then have "fl_writes_at n = None" using p by simp
    then show ?thesis using n w okm Nil mem_ok_fl_set [OF okm, of "Some a" "\<lambda>n. n\<lparr>fl_writes_at := Some (brk m)\<rparr>"]
      by (auto simp: add_write_def al link_write_def fl_set_def intro!: exI [of _ "Some (brk m)"])
  next
    case (snoc us l)
    have p': "lpath (wr_heap ?m) wr_next (fl_writes_at n) ws None" using p new by (simp add: lpath_upd_other)
    obtain q where q: "fl_writes_at n = Some q" using p snoc by (cases "fl_writes_at n") auto
    have l: "wr_last ?m q = Some l" using wr_last_path [OF okm, of q ws] p' q snoc by simp
    obtain wl where wl: "wr_heap m l = Some wl" using lpath_alloc [OF p, of l] snoc by auto
    have ln: "l \<noteq> brk m" using new snoc by auto
    let ?h = "(wr_heap m)(brk m \<mapsto> w, l \<mapsto> wl\<lparr>wr_next := Some (brk m)\<rparr>, brk m \<mapsto> w\<lparr>wr_prev := Some l\<rparr>)"
    let ?m' = "?m\<lparr>wr_heap := ?h\<rparr>"
    have s1: "wr_set (Some l) (\<lambda>x. x\<lparr>wr_next := Some (brk m)\<rparr>) ?m = Some (?m\<lparr>wr_heap := (wr_heap m)(brk m \<mapsto> w, l \<mapsto> wl\<lparr>wr_next := Some (brk m)\<rparr>)\<rparr>)"
      using wl ln by (simp add: wr_set_def)
    have s2: "wr_set (Some (brk m)) (\<lambda>x. x\<lparr>wr_prev := Some l\<rparr>) (?m\<lparr>wr_heap := (wr_heap m)(brk m \<mapsto> w, l \<mapsto> wl\<lparr>wr_next := Some (brk m)\<rparr>)\<rparr>) = Some ?m'"
      using ln by (simp add: wr_set_def)
    have "add_write a w m = Some (brk m, ?m')"
      unfolding add_write_def al Let_def prod.case link_write_def using n q l s1 s2 by simp
    moreover have "mem_ok ?m'" using mem_ok_wr_set [OF mem_ok_wr_set [OF okm s1] s2] .
    moreover have "lpath ?h wr_next (fl_writes_at n) (us @ [l, brk m]) None"
    proof (rule lpath_snoc_write [of "wr_heap m" _ _ _ _ wl])
      have "distinct ws" using p by (rule lpath_distinct)
      then show "map_option wr_next (?h b) = map_option wr_next (wr_heap m b)" if "b \<in> set us" for b
        using that snoc new by auto
    qed (use p snoc new wl ln w in auto)
    moreover have "fl_heap m = (fl_heap m)(a \<mapsto> n\<lparr>fl_writes_at := fl_writes_at n\<rparr>)" using n by (simp add: fun_upd_idem)
    ultimately show ?thesis using snoc wl ln
      by (intro exI [of _ ?m'] exI [of _ "fl_writes_at n"]) (auto simp: wr_core_def)
  qed
qed

lemma walk_find_more:
  assumes "\<And>b. map_option (\<lambda>n. (P n, sel n)) (h' b) = map_option (\<lambda>n. (P n, sel n)) (h b)"
  shows "walk_find h sel P k p = Some a \<Longrightarrow> k \<le> k' \<Longrightarrow> walk_find h' sel P k' p = Some a"
proof (induction k arbitrary: p k')
  case 0
  then show ?case by simp
next
  case (Suc k)
  obtain j where j: "k' = Suc j" "k \<le> j" using Suc.prems(2) by (cases k') auto
  obtain b n where b: "p = Some b" "h b = Some n" "(if P n then Some b else walk_find h sel P k (sel n)) = Some a"
    using Suc.prems(1) by (auto simp: Option.bind_eq_Some_conv)
  obtain n' where n': "h' b = Some n'" "P n' = P n" "sel n' = sel n" using assms [of b] b(2) by auto
  show ?case using b n' j Suc.IH [of "sel n" j] by (simp split: if_splits)
qed

lemma find_fd_io:
  assumes "find_fd fd m = Some a" and "io_only m m'" and "\<And>b. map_option fl_fd (fl_heap m' b) = map_option fl_fd (fl_heap m b)"
  shows "find_fd fd m' = Some a"
proof -
  have "map_option (\<lambda>n. (fl_fd n = fd, fl_next n)) (fl_heap m' b) = map_option (\<lambda>n. (fl_fd n = fd, fl_next n)) (fl_heap m b)" for b
    using assms(3) [of b] io_only_field [OF assms(2), of fl_next b]
    by (cases "fl_heap m b"; cases "fl_heap m' b") (auto simp: no_io_def)
  then show ?thesis using walk_find_more [of "\<lambda>n. fl_fd n = fd" fl_next "fl_heap m'" "fl_heap m"] assms(1,2)
    by (simp add: find_fd_def fl_find_def io_only_def del: walk_find.simps)
qed

text \<open>A transaction with an open file: \<open>qs\<close> are the log records of the writes made so far, the
  next one goes to \<open>off\<close>.\<close>

definition writing :: "server \<Rightarrow> log_record list \<Rightarrow> int \<Rightarrow> int \<Rightarrow> int \<Rightarrow> addr \<Rightarrow> int \<Rightarrow> log_record list \<Rightarrow> bool" where
  "writing s rs t fd eof a off qs \<longleftrightarrow> log_inv s rs \<and> \<not> log_mutex s \<and> log_dev_ok s \<and> mem_ok (lk s) \<and>
     find_txn t (head_txn_list s) \<noteq> None \<and> find_fd fd (lk s) = Some a \<and>
     (\<exists>n ws. fl_heap (lk s) a = Some n \<and> lpath (wr_heap (lk s)) wr_next (fl_writes_at n) ws None \<and>
        list_all2 (names_record s rs) ws qs \<and> write_offset n eof (lk s) = Some off \<and> fl_flags n \<noteq> 0 \<and>
        (\<forall>b \<in> set ws. \<exists>w. wr_heap (lk s) b = Some w \<and> 0 \<le> wr_write_length w))"

lemma writingI:
  assumes "log_inv s rs" and "\<not> log_mutex s" and "log_dev_ok s" and "mem_ok (lk s)"
    and "find_txn t (head_txn_list s) \<noteq> None" and "find_fd fd (lk s) = Some a"
    and "fl_heap (lk s) a = Some n" and "lpath (wr_heap (lk s)) wr_next (fl_writes_at n) ws None"
    and "list_all2 (names_record s rs) ws qs" and "write_offset n eof (lk s) = Some off" and "fl_flags n \<noteq> 0"
    and "\<forall>b \<in> set ws. \<exists>w. wr_heap (lk s) b = Some w \<and> 0 \<le> wr_write_length w"
  shows "writing s rs t fd eof a off qs"
  using assms unfolding writing_def by blast

definition wr_args :: "log_record \<Rightarrow> int \<times> int \<times> char list" where
  "wr_args r = (lr_fd r, lr_offset r, lr_data r)"

lemma wr_args_set_next [simp]: "map wr_args (set_next p l qs) = map wr_args qs"
  by (simp add: set_next_def wr_args_def)

lemma move_add_write:
  assumes ok: "mem_ok m" and n: "fl_heap m a = Some n" and p: "lpath (wr_heap m) wr_next (fl_writes_at n) ws None"
    and fd: "find_fd fd m = Some a"
  shows "\<exists>m1 m2 n2. fl_set (Some a) (move_offset (s64 (off + len))) m = Some m1 \<and> add_write a (new_write off len 0) m1 = Some (brk m, m2) \<and>
     fl_heap m2 a = Some n2 \<and> lpath (wr_heap m2) wr_next (fl_writes_at n2) (ws @ [brk m]) None \<and> fl_flags n2 = fl_flags n \<and>
     fl_file_offset n2 = s64 (off + len) \<and> map_option wr_core (wr_heap m2 (brk m)) = Some (off, len, 0) \<and>
     (\<forall>b. b \<noteq> brk m \<longrightarrow> map_option wr_core (wr_heap m2 b) = map_option wr_core (wr_heap m b)) \<and> mem_ok m2 \<and> find_fd fd m2 = Some a"
proof -
  let ?n = "move_offset (s64 (off + len)) n" and ?w = "new_write off len 0"
  let ?m1 = "m\<lparr>fl_heap := (fl_heap m)(a \<mapsto> ?n)\<rparr>"
  have s1: "fl_set (Some a) (move_offset (s64 (off + len))) m = Some ?m1" using n by (simp add: fl_set_def)
  have io1: "io_only m ?m1" using s1 by (rule io_only_fl_set) (simp add: no_io_def move_offset_def)
  have p1: "lpath (wr_heap ?m1) wr_next (fl_writes_at ?n) ws None" using p by (simp add: move_offset_def)
  have ok1: "mem_ok ?m1" using mem_ok_fl_set [OF ok s1] .
  obtain m2 q where m2: "add_write a ?w ?m1 = Some (brk m, m2)" "fl_heap m2 = (fl_heap ?m1)(a \<mapsto> ?n\<lparr>fl_writes_at := q\<rparr>)"
      "lpath (wr_heap m2) wr_next q (ws @ [brk m]) None" "map_option wr_core (wr_heap m2 (brk m)) = Some (wr_core ?w)"
      "\<forall>b. b \<noteq> brk m \<longrightarrow> map_option wr_core (wr_heap m2 b) = map_option wr_core (wr_heap m b)" "mem_ok m2"
    using add_write_spec [OF ok1 _ p1, of a ?w] by (auto simp: new_write_def)
  have "find_fd fd m2 = Some a"
    using fd by (rule find_fd_io [OF _ io_only_trans [OF io1 add_write_io [OF m2(1)]]]) (simp add: m2(2) n move_offset_def)
  then show ?thesis using s1 m2 by (intro exI [of _ ?m1] exI [of _ m2] exI [of _ "?n\<lparr>fl_writes_at := q\<rparr>"])
    (simp add: move_offset_def new_write_def wr_core_def)
qed

lemma names_set_next:
  assumes "list_all2 (names_record s rs) ws qs" and "\<And>b. b \<in> set ws \<Longrightarrow> map_option wr_LRN (wr_heap (lk s') b) = map_option wr_LRN (wr_heap (lk s) b)"
  shows "list_all2 (names_record s' (set_next p l rs @ [r])) ws (set_next p l qs)"
  using assms
  by (induction rule: list_all2_induct) (auto simp: names_record_def set_next_def)

lemma write_log_step:
  assumes w: "writing s rs t fd eof a off qs" and t: "in_s32 t" and fd: "atoi a1 = fd"
    and len: "0 \<le> atoi a3" "atoi a3 \<le> int (length d) + 1" and off: "in_s64 off" and sz: "log_size s < 9223372036854775808"
  shows "\<exists>s' rs' qs'. write_log a1 d a3 t eof s = Some (atoi a3, s') \<and> writing s' rs' t fd eof a (s64 (off + atoi a3)) qs' \<and>
     map wr_args qs' = map wr_args qs @ [(fd, off, take (nat (atoi a3)) (d @ [CHR 0x00]))] \<and>
     log_size s' = log_size s + 63 + atoi a3 \<and> fs_calls s' = fs_calls s @ [Flush_log]"
proof -
  let ?len = "atoi a3" and ?d = "take (nat (atoi a3)) (nul_terminated d)"
  obtain tn n ws where inv: "log_inv s rs" and mt: "\<not> log_mutex s" and dev: "log_dev_ok s" and ok: "mem_ok (lk s)"
    and tn: "find_txn t (head_txn_list s) = Some tn" and ff: "find_fd fd (lk s) = Some a" and n: "fl_heap (lk s) a = Some n"
    and p: "lpath (wr_heap (lk s)) wr_next (fl_writes_at n) ws None" and ws: "list_all2 (names_record s rs) ws qs"
    and wo: "write_offset n eof (lk s) = Some off" and fg: "fl_flags n \<noteq> 0"
    and wl: "\<forall>b \<in> set ws. \<exists>w. wr_heap (lk s) b = Some w \<and> 0 \<le> wr_write_length w"
    using w by (auto simp: writing_def)
  let ?new = "brk (lk s)"
  obtain m1 m2 n2 where m1: "fl_set (Some a) (move_offset (s64 (off + ?len))) (lk s) = Some m1"
    and m2: "add_write a (new_write off ?len 0) m1 = Some (?new, m2)"
    and n2: "fl_heap m2 a = Some n2" "lpath (wr_heap m2) wr_next (fl_writes_at n2) (ws @ [?new]) None" "fl_flags n2 = fl_flags n"
      "fl_file_offset n2 = s64 (off + ?len)"
    and c2: "map_option wr_core (wr_heap m2 ?new) = Some (off, ?len, 0)"
      "\<forall>b. b \<noteq> ?new \<longrightarrow> map_option wr_core (wr_heap m2 b) = map_option wr_core (wr_heap (lk s) b)"
    and ok2: "mem_ok m2" and ff2: "find_fd fd m2 = Some a"
    using move_add_write [OF ok n p ff, of off ?len] by blast
  let ?s = "s\<lparr>lk := m2\<rparr>"
  let ?r = "mk_record ?s tn UPDATE fd off ?d NA"
  have ls: "log_size ?s = log_size s" by (simp add: log_size_def)
  have inv2: "log_inv ?s rs" using inv by (simp add: log_inv_def)
  have fds: "in_s32 fd" using fd by auto
  have s32: "in_s32 ?len" by simp
  have dl: "int (length ?d) < 9223372036854775808"
  proof -
    have "length ?d \<le> nat ?len" by simp
    then show ?thesis using s32 len(1) by (simp add: in_s32_def del: length_take)
  qed
  obtain s1 where s1: "log_linked t ?r ?s = Some s1" "log_inv s1 (set_next (tn_last_LRN tn) (log_size s) rs @ [?r])"
    using log_op_chained [OF inv2 _ t fds off _ dl, of tn NA UPDATE] tn sz ls by auto
  have lw: "log_write t fd off (nat (?len mod 18446744073709551616)) d ?s = Some (log_size s, s1)"
  proof -
    have "?len mod 18446744073709551616 = ?len" using len s32 by (simp add: in_s32_def)
    moreover have "nat ?len \<le> length d + 1" using len by simp
    ultimately show ?thesis using log_op_shapes(3) [of ?s t tn "nat ?len" d fd off] mt dev tn s1(1) ls by simp
  qed
  have o1: "log_only ?s s1" using postD [OF log_write_only(1) lw] by simp
  then have lk1: "lk s1 = m2" by (simp add: log_only_def)
  obtain wn where wn: "wr_heap m2 ?new = Some wn" "wr_core wn = (off, ?len, 0)" using c2(1) by auto
  let ?m3 = "m2\<lparr>wr_heap := (wr_heap m2)(?new \<mapsto> wn\<lparr>wr_LRN := log_size s\<rparr>)\<rparr>"
  have m3: "wr_set (Some ?new) (\<lambda>x. x\<lparr>wr_LRN := log_size s\<rparr>) (lk s1) = Some ?m3" using wn(1) lk1 by (simp add: wr_set_def)
  let ?s' = "s1\<lparr>lk := ?m3\<rparr>" and ?rs = "set_next (tn_last_LRN tn) (log_size s) rs @ [?r]" and ?qs = "set_next (tn_last_LRN tn) (log_size s) qs @ [?r]"
  have "write_log a1 d a3 t eof s = Some (?len, ?s')"
    unfolding write_log_def Let_def using fd ff n wo m1 m2 lw m3 by simp
  moreover have "writing ?s' ?rs t fd eof a (s64 (off + ?len)) ?qs"
  proof -
    have "log_inv ?s' ?rs" using s1(2) by (simp add: log_inv_def)
    moreover have "\<not> log_mutex ?s'" "log_dev_ok ?s'" using log_linked_free [OF s1(1)] mt dev by simp_all
    moreover have "mem_ok ?m3" using mem_ok_wr_set [OF ok2] m3 lk1 by simp
    moreover have "find_txn t (head_txn_list ?s') \<noteq> None"
    proof -
      obtain ts where ts: "upd_txn t (\<lambda>n. n\<lparr>tn_last_LRN := lr_LRN ?r\<rparr>) (head_txn_list s) = Some ts" "head_txn_list s1 = ts"
        using s1(1) by (auto simp: log_linked_def Option.bind_eq_Some_conv)
      have "find_txn t ts = Some (tn\<lparr>tn_last_LRN := lr_LRN ?r\<rparr>)" using find_upd_txn [OF _ ts(1), of t] tn by simp
      then show ?thesis using ts(2) by simp
    qed
    moreover have "find_fd fd ?m3 = Some a"
      using ff2 by (rule find_fd_io) (use m3 lk1 io_only_wr_set in auto)
    moreover have P: "lpath (wr_heap ?m3) wr_next (fl_writes_at n2) (ws @ [?new]) None"
      using n2(2) lpath_upd_same_link [of "wr_heap m2" ?new wn wr_next "wn\<lparr>wr_LRN := log_size s\<rparr>"] wn(1) by simp
    moreover have "list_all2 (names_record ?s' ?rs) (ws @ [?new]) ?qs"
    proof (rule list_all2_appendI)
      have "b \<noteq> ?new" if "b \<in> set ws" for b using lpath_alloc [OF p that] ok by (auto dest: mem_okD)
      then have "map_option wr_LRN (wr_heap ?m3 b) = map_option wr_LRN (wr_heap (lk s) b)" if "b \<in> set ws" for b
        using wr_core_LRN [of "wr_heap m2 b" "wr_heap (lk s) b"] c2(2) that by simp
      then show "list_all2 (names_record ?s' ?rs) ws (set_next (tn_last_LRN tn) (log_size s) qs)"
        by (intro names_set_next [OF ws]) simp
      show "list_all2 (names_record ?s' ?rs) [?new] [?r]" by (simp add: names_record_def mk_record_def ls)
    qed
    moreover have "write_offset n2 eof ?m3 = Some (s64 (off + ?len))"
    proof (cases "fl_flags n = 3 \<or> fl_flags n = 4")
      case True
      obtain w0 where w0: "fl_writes_at n2 = Some w0" using P by (cases "fl_writes_at n2") auto
      have "mem_ok ?m3" using mem_ok_wr_set [OF ok2] m3 lk1 by simp
      then have "wr_last ?m3 w0 = Some ?new" using wr_last_path [of ?m3 w0] P w0 by simp
      then show ?thesis using True n2(3) w0 wn(2) by (simp add: write_offset_def wr_core_def)
    next
      case False
      then show ?thesis using n2(3,4) by (simp add: write_offset_def)
    qed
    moreover have "\<forall>b \<in> set (ws @ [?new]). \<exists>w. wr_heap ?m3 b = Some w \<and> 0 \<le> wr_write_length w"
    proof
      fix b
      assume b: "b \<in> set (ws @ [?new])"
      show "\<exists>w. wr_heap ?m3 b = Some w \<and> 0 \<le> wr_write_length w"
      proof (cases "b = ?new")
        case True
        then show ?thesis using wn(2) len(1) by (simp add: wr_core_def)
      next
        case False
        then obtain w where w: "wr_heap (lk s) b = Some w" "0 \<le> wr_write_length w" using b wl by auto
        have "map_option wr_core (wr_heap m2 b) = Some (wr_core w)" using False c2(2) w(1) by simp
        then show ?thesis using False w(2) by (auto simp: wr_core_def)
      qed
    qed
    moreover have "fl_flags n2 \<noteq> 0" using n2(3) fg by simp
    ultimately show ?thesis using n2(1) by (intro writingI [where n = n2 and ws = "ws @ [?new]"]) simp_all
  qed
  moreover have "log_size ?s' = log_size s + 63 + ?len"
  proof -
    have l0: "int (length (encode_log rs)) = log_size s" using log_size_eq [OF inv] by simp
    have l1: "log_size s1 = int (length (encode_log ?rs))" by (rule log_size_eq [OF s1(2)])
    have l2: "length (lr_data ?r) = nat ?len" "length (lr_data1 ?r) = 3"
      using len(2) by (simp_all add: mk_record_def nul_terminated_def)
    have "log_size ?s' = log_size s1" by (simp add: log_size_def)
    then show ?thesis using l0 l1 l2 len(1) length_encode_record [of ?r] by simp
  qed
  moreover have "fs_calls ?s' = fs_calls s @ [Flush_log]" using s1(1) by (auto simp: log_linked_def Option.bind_eq_Some_conv)
  ultimately show ?thesis
    by (intro exI [of _ ?s'] exI [of _ ?rs] exI [of _ ?qs]) (simp add: wr_args_def mk_record_def nul_terminated_def)
qed

section \<open>Writing, then committing\<close>

text \<open>The arguments of a sequence of \<open>write\<close> calls on one descriptor, as (data, length) pairs.\<close>

definition write_all :: "cstring \<Rightarrow> int \<Rightarrow> int \<Rightarrow> (cstring \<times> cstring) list \<Rightarrow> server \<Rightarrow> server option" where
  "write_all a1 t eof = fold_opt (\<lambda>(d, a3) s. map_option snd (write_log a1 d a3 t eof s))"

definition payload :: "cstring \<times> cstring \<Rightarrow> char list" where
  "payload x = take (nat (atoi (snd x))) (fst x @ [CHR 0x00])"

definition fits :: "cstring \<times> cstring \<Rightarrow> bool" where
  "fits x \<longleftrightarrow> 0 \<le> atoi (snd x) \<and> atoi (snd x) \<le> int (length (fst x)) + 1"

lemma length_payload: "fits x \<Longrightarrow> int (length (payload x)) = atoi (snd x)"
proof -
  assume "fits x"
  then have "nat (atoi (snd x)) \<le> Suc (length (fst x))" "0 \<le> atoi (snd x)" by (auto simp: fits_def)
  then show ?thesis by (auto simp: payload_def min_def)
qed

lemma write_all_steps:
  assumes "in_s32 t" and "atoi a1 = fd"
  shows "writing s rs t fd eof a off qs \<Longrightarrow> (\<And>x. x \<in> set xs \<Longrightarrow> fits x) \<Longrightarrow> 0 \<le> off \<Longrightarrow>
     off + int (length (concat (map payload xs))) < 9223372036854775808 \<Longrightarrow>
     log_size s + int (length (concat (map payload xs))) + 63 * int (length xs) < 9223372036854775808 \<Longrightarrow>
   \<exists>s' rs' qs' off'. write_all a1 t eof xs s = Some s' \<and> writing s' rs' t fd eof a off' qs' \<and>
     fs_calls s' = fs_calls s @ replicate (length xs) Flush_log \<and> map (\<lambda>r. lr_fd r) qs' = map (\<lambda>r. lr_fd r) qs @ replicate (length xs) fd \<and>
     map lr_data qs' = map lr_data qs @ map payload xs \<and>
     map lr_offset qs' = map lr_offset qs @ map (\<lambda>k. off + int (length (concat (map payload (take k xs))))) [0..<length xs]"
proof (induction xs arbitrary: s rs off qs)
  case Nil
  then show ?case by (auto simp: write_all_def)
next
  case (Cons x xs)
  obtain d a3 where x: "x = (d, a3)" by (cases x)
  have f: "fits x" using Cons.prems(2) by simp
  then have len: "0 \<le> atoi a3" "atoi a3 \<le> int (length d) + 1" by (simp_all add: x fits_def)
  have lp: "int (length (payload x)) = atoi a3" using length_payload [OF f] x by simp
  have b: "in_s64 off" "log_size s < 9223372036854775808" using Cons.prems(3,4,5) by (simp_all add: in_s64_def)
  obtain s1 rs1 qs1 where s1: "write_log a1 d a3 t eof s = Some (atoi a3, s1)" "writing s1 rs1 t fd eof a (s64 (off + atoi a3)) qs1"
      "map wr_args qs1 = map wr_args qs @ [(fd, off, payload x)]" "log_size s1 = log_size s + 63 + atoi a3"
      "fs_calls s1 = fs_calls s @ [Flush_log]"
    using write_log_step [OF Cons.prems(1) assms len b] by (auto simp: x payload_def)
  have o: "s64 (off + atoi a3) = off + atoi a3" using Cons.prems(3,4) len(1) lp by (intro s64_id) (simp add: in_s64_def)
  have parts: "map lr_fd qs1 = map lr_fd qs @ [fd]" "map lr_offset qs1 = map lr_offset qs @ [off]" "map lr_data qs1 = map lr_data qs @ [payload x]"
    using arg_cong [OF s1(3), of "map fst"] arg_cong [OF s1(3), of "map (\<lambda>x. fst (snd x))"] arg_cong [OF s1(3), of "map (\<lambda>x. snd (snd x))"]
    by (simp_all add: wr_args_def o_def)
  obtain s' rs' qs' off' where s': "write_all a1 t eof xs s1 = Some s'" "writing s' rs' t fd eof a off' qs'"
      "fs_calls s' = fs_calls s1 @ replicate (length xs) Flush_log" "map (\<lambda>r. lr_fd r) qs' = map (\<lambda>r. lr_fd r) qs1 @ replicate (length xs) fd"
      "map lr_data qs' = map lr_data qs1 @ map payload xs"
      "map lr_offset qs' = map lr_offset qs1 @ map (\<lambda>k. off + atoi a3 + int (length (concat (map payload (take k xs))))) [0..<length xs]"
    using Cons.IH [OF s1(2) [unfolded o]] Cons.prems lp s1(4) len(1) by auto
  have "map (\<lambda>k. off + int (length (concat (map payload (take k (x # xs)))))) [0..<length (x # xs)] =
      off # map (\<lambda>k. off + atoi a3 + int (length (concat (map payload (take k xs))))) [0..<length xs]"
    using lp by (simp add: upt_rec [of 0] map_Suc_upt [symmetric] del: upt_Suc)
  moreover have "write_all a1 t eof (x # xs) s = Some s'" using s1(1) s'(1) by (simp add: write_all_def x)
  ultimately show ?case using s' parts s1(5)
    by (intro exI [of _ s'] exI [of _ rs'] exI [of _ qs'] exI [of _ off']) (simp del: upt_Suc)
qed

text \<open>What a list of calls does to the position and the bytes behind a descriptor, on a file system that
  does each \<open>lseek\<close> and each \<open>write\<close> in full.\<close>

fun run_writes :: "int \<Rightarrow> fs_call list \<Rightarrow> nat \<times> char list \<Rightarrow> nat \<times> char list" where
  "run_writes fd [] pc = pc"
| "run_writes fd (x # xs) (pos, c) = run_writes fd xs (case x of
      Fs_lseek f off \<Rightarrow> if f = fd then (nat off, c) else (pos, c)
    | Fs_write f bs \<Rightarrow> if f = fd then (pos + length bs, pwrite_bytes pos bs c) else (pos, c)
    | _ \<Rightarrow> (pos, c))"

lemma run_writes_at:
  "snd (run_writes fd (concat (map2 (\<lambda>off bs. [Fs_lseek fd (int off), Fs_write fd bs]) (map (\<lambda>k. o0 + length (concat (take k bss))) [0..<length bss]) bss)) (p, c)) =
   pwrite_bytes o0 (concat bss) c"
proof (induction bss arbitrary: o0 p c)
  case Nil
  then show ?case by (simp add: pwrite_bytes_def)
next
  case (Cons b bss)
  have "map (\<lambda>k. o0 + length (concat (take k (b # bss)))) [0..<length (b # bss)] =
      o0 # map (\<lambda>k. (o0 + length b) + length (concat (take k bss))) [0..<length bss]"
    by (simp add: upt_rec [of 0] map_Suc_upt [symmetric] add.assoc del: upt_Suc)
  then show ?case using Cons.IH [of "o0 + length b" _ "pwrite_bytes o0 b c"] by (simp add: pwrite_twice del: upt_Suc)
qed

lemma map_write_calls:
  assumes "map lr_fd qs = replicate (length bss) fd" and "map lr_offset qs = map int offs" and "map lr_data qs = bss" and "length offs = length bss"
  shows "map write_calls qs = map2 (\<lambda>off bs. [Fs_lseek fd (int off), Fs_write fd bs]) offs bss"
  using assms
proof (induction qs arbitrary: offs bss)
  case Nil
  then show ?case by simp
next
  case (Cons q qs)
  then show ?case by (cases bss; cases offs) (auto simp: write_calls_def)
qed

text \<open>The commit takes the records of a file for writes, whatever their number.\<close>

lemma writing_delayed: "writing s rs t fd eof a off qs \<Longrightarrow> \<exists>s'. perform_delayed a s = Some s' \<and> fs_calls s' = fs_calls s @ concat (map write_calls qs)"
proof -
  assume "writing s rs t fd eof a off qs"
  then obtain n ws where n: "fl_heap (lk s) a = Some n" "lpath (wr_heap (lk s)) wr_next (fl_writes_at n) ws None"
      "list_all2 (names_record s rs) ws qs" "fl_flags n \<noteq> 0" "\<forall>b \<in> set ws. \<exists>w. wr_heap (lk s) b = Some w \<and> 0 \<le> wr_write_length w"
    and ok: "mem_ok (lk s)" and wf: "wf_log 0 rs" "content (event_log s) = encode_log rs"
    by (auto simp: writing_def log_inv_def)
  show ?thesis
  proof (cases ws)
    case Nil
    then show ?thesis using n by (simp add: perform_delayed_def)
  next
    case (Cons b bs)
    then obtain w where w: "fl_writes_at n = Some b" "wr_heap (lk s) b = Some w" "0 \<le> wr_write_length w" using n(2,5) by auto
    have "length ws < Suc (brk (lk s))" using mem_ok_wr_path_length [OF ok n(2)] by simp
    then obtain s' where "delayed_write_loop (Suc (brk (lk s))) (fl_writes_at n) s = Some s'"
        "fs_calls s' = fs_calls s @ concat (map write_calls qs)"
      using delayed_write_loop_spec [OF wf(1) n(2) lpath_distinct [OF n(2)] _ wf(2) n(3)] by blast
    then show ?thesis using n(1,4) w by (simp add: perform_delayed_def delayed_write_def del: delayed_write_loop.simps)
  qed
qed

text \<open>C20: Logging writes and performing them later is writing at once.  This is about the pair of
  operations \<open>write_log\<close> (Update_manager.c), which logs a write, and what commit does for each locked file,
  \<open>perform_delayed\<close>.  (At this commit of the code the handler of \<open>write\<close> does not use them: \<open>on_write\<close> calls
  \<open>tr_file_write\<close> and writes in place.)  Whatever sequence of writes is logged for a file that is open for
  writing and has none yet, each is accepted, and the \<open>lseek\<close> and \<open>write\<close> calls of the commit, on a file
  system that does them in full, have on the contents of the file the effect of one write of all the
  data, in the order of the calls, at the offset the file had at the start.\<close>

theorem writes_take_effect:
  assumes "writing s rs t (atoi a1) eof a (int off) []" and "in_s32 t" and "\<forall>x \<in> set xs. fits x"
    and "int off + int (length (concat (map payload xs))) < 9223372036854775808"
    and "log_size s + int (length (concat (map payload xs))) + 63 * int (length xs) < 9223372036854775808"
  shows "\<exists>s1 s2 calls. write_all a1 t eof xs s = Some s1 \<and> perform_delayed a s1 = Some s2 \<and>
     fs_calls s2 = fs_calls s @ replicate (length xs) Flush_log @ calls \<and>
     (\<forall>p c. snd (run_writes (atoi a1) calls (p, c)) = pwrite_bytes off (concat (map payload xs)) c)"
proof -
  let ?bss = "map payload xs" and ?offs = "map (\<lambda>k. off + length (concat (take k (map payload xs)))) [0..<length xs]"
  obtain s1 rs1 qs off' where s1: "write_all a1 t eof xs s = Some s1" "writing s1 rs1 t (atoi a1) eof a off' qs"
      "fs_calls s1 = fs_calls s @ replicate (length xs) Flush_log" "map (\<lambda>r. lr_fd r) qs = replicate (length xs) (atoi a1)"
      "map lr_data qs = ?bss" "map lr_offset qs = map (\<lambda>k. int off + int (length (concat (map payload (take k xs))))) [0..<length xs]"
    using write_all_steps [OF assms(2) refl assms(1) _ _ assms(4,5)] assms(3) by auto
  obtain s2 where "perform_delayed a s1 = Some s2" "fs_calls s2 = fs_calls s1 @ concat (map write_calls qs)"
    using writing_delayed [OF s1(2)] by blast
  moreover have "map write_calls qs = map2 (\<lambda>off bs. [Fs_lseek (atoi a1) (int off), Fs_write (atoi a1) bs]) ?offs ?bss"
    by (rule map_write_calls) (use s1(4,5,6) in \<open>simp_all add: take_map\<close>)
  ultimately show ?thesis using s1(1,3) run_writes_at [of "atoi a1" off ?bss] by auto
qed

text \<open>Transaction 1 has file 7 open under descriptor 5.\<close>

definition open_server :: server where
  "open_server = held_server\<lparr>lk := one_lock\<lparr>fl_heap := [0 \<mapsto> (get_file_node 7 0 2 1)\<lparr>fl_prev := Some 0, fl_fd := 5, fl_file_offset := 0\<rparr>]\<rparr>\<rparr>"

lemma open_writing: "writing open_server [beg_record (global_init []) 1] 1 5 0 0 0 []"
proof -
  have "log_inv open_server [beg_record (global_init []) 1]" using held_ready by (simp add: ready_def log_inv_def open_server_def)
  moreover have "\<not> log_mutex open_server" "log_dev_ok open_server" using held_ready by (simp_all add: ready_def open_server_def)
  ultimately show ?thesis
    by (simp add: writing_def open_server_def held_server_def one_lock_def mem_ok_def get_txn_node_def get_file_node_def find_fd_def fl_find_def write_offset_def)
qed

theorem writes_take_effect_witness:
  "\<exists>s1 s2 calls. write_all ''5'' 1 0 [(''ab'', ''2''), (''c'', ''1'')] open_server = Some s1 \<and> perform_delayed 0 s1 = Some s2 \<and>
     fs_calls s2 = fs_calls open_server @ replicate (length [(''ab'', ''2''), (''c'', ''1'')]) Flush_log @ calls \<and>
     (\<forall>p c. snd (run_writes (atoi ''5'') calls (p, c)) = pwrite_bytes 0 (concat (map payload [(''ab'', ''2''), (''c'', ''1'')])) c)"
proof -
  have a: "atoi ''5'' = 5" "atoi ''2'' = 2" "atoi ''1'' = 1" by code_simp+
  have "log_size open_server = 66" using begun_inv(5) by (simp add: log_size_def open_server_def held_server_def)
  then show ?thesis
    using open_writing
    by (intro writes_take_effect [where rs = "[beg_record (global_init []) 1]"]) (simp_all add: a payload_def fits_def in_s32_def)
qed

text \<open>The first data field of a log record, into a buffer.\<close>

lemma extract_record:
  assumes "content f = encode_log rs" and "wf_log 0 rs" and "r \<in> set rs" and "in_s32 (lr_LRN r)" and "int (length (lr_data r)) \<le> len"
  shows "\<exists>f'. extract_data_log (lr_LRN r) len f = Some (lr_data r, f') \<and> content f' = content f"
proof -
  have "0 \<le> lr_LRN r" using wf_log_LRN_bounds [OF assms(2,3)] by simp
  then have "fseek_set (lr_LRN r + 44) f = fseek_cur 44 (fseek_set (lr_LRN r) f)"
    by (simp add: fseek_set_def fseek_cur_def nat_add_distrib)
  then show ?thesis using read_path_record [OF assms(1,2,3)] assms(4,5) by (auto simp: extract_data_log_def read_path_def)
qed

lemma strncpy_inside:
  assumes "CHR 0x00 \<notin> set bs" and "i + n \<le> length bs"
  shows "strncpy (int i) (int n) bs = Some (take n (drop i bs))"
proof -
  have tw: "takeWhile (\<lambda>c. c \<noteq> CHR 0x00) (take n (drop i bs)) = take n (drop i bs)"
    using assms(1) by (auto simp: takeWhile_eq_all_conv dest!: in_set_takeD in_set_dropD)
  show ?thesis using assms(2) by (simp add: strncpy_def Let_def tw)
qed

text \<open>C21: A transaction reads its own last write.  (\<open>do_read_old\<close> is the reader that merges logged writes;
  at this commit of the code \<open>on_read\<close> no longer calls it.)  Where the last of the logged writes of an open
  file covers the part that is asked for, and its data has no NUL byte, \<open>do_read_old\<close> delivers exactly the
  logged bytes, without a look at the file or at the writes before, and moves the offset behind them,
  or back to the recorded end of the file.\<close>

theorem own_write_read:
  assumes "find_fd fd (lk s) = Some a" and "fl_heap (lk s) a = Some n" and "fl_flags n \<noteq> 0"
    and "lpath (wr_heap (lk s)) wr_next (fl_writes_at n) (ws @ [b]) None" and "wr_heap (lk s) b = Some w" and "mem_ok (lk s)"
    and "content (event_log s) = encode_log rs" and "wf_log 0 rs" and "r \<in> set rs" and "in_s32 (lr_LRN r)"
    and "wr_LRN w = lr_LRN r" and "wr_write_length w = int (length (lr_data r))" and "CHR 0x00 \<notin> set (lr_data r)"
    and "fl_file_offset n = wr_initial_off w + int i" and "0 < k" and "i + k \<le> length (lr_data r)"
  shows "\<exists>s'. do_read_old fd (int k) direct rest s = Some (int k, take k (drop i (lr_data r)), s') \<and>
     fl_heap (lk s') = (fl_heap (lk s))(a \<mapsto> n\<lparr>fl_file_offset := min (fl_file_offset n + int k) (fl_file_size n)\<rparr>) \<and>
     content (event_log s') = content (event_log s)"
proof -
  obtain b0 where b0: "fl_writes_at n = Some b0" using assms(4) by (cases "fl_writes_at n") (auto simp: lpath_append)
  have l: "wr_last (lk s) b0 = Some b" using wr_last_path [of "lk s" b0 "ws @ [b]"] assms(4,6) b0 by simp
  obtain f' where f': "extract_data_log (lr_LRN r) (int (length (lr_data r))) (event_log s) = Some (lr_data r, f')" "content f' = content (event_log s)"
    using extract_record [OF assms(7-10), of "int (length (lr_data r))"] by auto
  let ?d = "\<lparr>dr_beg = fl_file_offset n, dr_end = fl_file_offset n + int k, dr_data = take k (drop i (lr_data r))\<rparr>"
  have d: "get_new_node (fl_file_offset n) (fl_file_offset n + int k) (int i) (lr_data r) (int k) = Some ?d"
    using strncpy_inside [OF assms(13,16)] by (simp add: get_new_node_def)
  have "read_writes (wr_heap (lk s)) (Suc (Suc (brk (lk s)))) (fl_file_offset n) (fl_file_offset n + int k) (int k) 0 (Some b) [] (event_log s) =
      Some (fl_file_offset n, 0, int k, [?d], f')"
    using assms(5,11,12,14,15,16) f'(1) d by (simp add: Let_def)
  then have "read_merged (int k) rest a b0 s = Some (int k, take k (drop i (lr_data r)), s\<lparr>lk := (lk s)\<lparr>fl_heap :=
      (fl_heap (lk s))(a \<mapsto> n\<lparr>fl_file_offset := min (fl_file_offset n + int k) (fl_file_size n)\<rparr>)\<rparr>, event_log := f'\<rparr>)"
    using assms(2) l by (simp add: read_merged_def fl_set_def min_def del: read_writes.simps)
  then show ?thesis using assms(1-3) b0 f'(2) by (simp add: do_read_old_def)
qed

text \<open>Bytes 100 to 103 of the file have been written, and the next read is at 101.\<close>

definition read_server :: server where
  "read_server = (logged_server (logged UPDATE ''abcd'' NA) 4)\<lparr>lk := (lk (logged_server (logged UPDATE ''abcd'' NA) 4))
     \<lparr>fl_heap := [0 \<mapsto> logged_node\<lparr>fl_file_offset := 101, fl_file_size := 104\<rparr>]\<rparr>\<rparr>"

theorem own_write_read_witness:
  "\<exists>s'. do_read_old 5 (int 2) (0, []) [] read_server = Some (int 2, take 2 (drop 1 (lr_data (logged UPDATE ''abcd'' NA))), s') \<and>
     fl_heap (lk s') = (fl_heap (lk read_server))(0 \<mapsto> (logged_node\<lparr>fl_file_offset := 101, fl_file_size := 104\<rparr>)\<lparr>fl_file_offset :=
        min (fl_file_offset (logged_node\<lparr>fl_file_offset := 101, fl_file_size := 104\<rparr>) + int 2)
          (fl_file_size (logged_node\<lparr>fl_file_offset := 101, fl_file_size := 104\<rparr>))\<rparr>) \<and>
     content (event_log s') = content (event_log read_server)"
  by (rule own_write_read [where rs = "[logged UPDATE ''abcd'' NA]" and b = 1 and ws = "[]" and
        w = "\<lparr>wr_initial_off = 100, wr_write_length = 4, wr_LRN = 0, wr_next = None, wr_prev = None\<rparr>"])
    (simp_all add: read_server_def logged_server_def global_init_def logged_node_def logged_def find_fd_def fl_find_def
      mem_ok_def rec_ok_def in_s32_def in_s64_def numeral_3_eq_3)

text \<open>C22: A read that covers a logged write and is not the same range never returns, in the loop of
  \<open>do_read_old\<close>: whether it starts before the write or with it, ends behind it or with it, as long as one
  of the two is strict, no case of the loop applies, and the loop goes round without a change.\<close>

theorem old_read_hangs:
  assumes "h a = Some w" and "read_from \<le> wr_initial_off w" and "wr_initial_off w + wr_write_length w \<le> read_to"
    and "(read_from, read_to) \<noteq> (wr_initial_off w, wr_initial_off w + wr_write_length w)" and "todo \<noteq> 0"
  shows "read_writes h k read_from read_to todo got (Some a) ds f = None"
  using assms by (induction k) (auto simp: Let_def)

theorem old_read_hangs_witness:
  "read_writes [0 \<mapsto> new_write 10 4 0] 100 8 14 6 0 (Some 0) [] \<lparr>content = [], fpos = 0\<rparr> = None"
  by (rule old_read_hangs [where w = "new_write 10 4 0"]) (simp_all add: new_write_def)

end
