(* ===== verification/TxFSManager.thy ===== *)
theory TxFSManager
  imports UpdateManager
begin

text \<open>
  The handlers of the calls of a client (TxFS_manager.c; commit and abort are in TxnEnd).  A handler
  that needs a lock may have to stop in the middle: its outcome is then \<open>Wait\<close> with the request it
  waits for, how it waits, and the stage it has reached, and \<open>continue\<close> is the rest of the handler
  once the lock is granted.  The part of a handler after \<open>file_mutex\<close> is let go belongs to the step
  that granted the last lock.  A handler whose request is refused returns -1.

  Each stretch is given the file system's answers (\<open>fs_env\<close>) for its duration.  Where \<open>stat\<close> fails
  the code goes on with an uninitialised inode, and a path longer than the local buffer overruns it:
  \<open>None\<close>.
\<close>

section \<open>Outcomes\<close>

record rename_call =
  rc_old :: cstring        \<comment> \<open>\<open>incall[1]\<close>\<close>
  rc_new :: cstring        \<comment> \<open>\<open>incall[2]\<close>\<close>
  rc_buf :: cstring        \<comment> \<open>the buffer \<open>oldpath\<close>, which \<open>dirname\<close> has cut short\<close>
  rc_old_parent :: cstring
  rc_new_parent :: cstring

datatype stage =
  At_open cstring cstring
| At_stat cstring
| At_creat cstring cstring
| At_unlink_parent cstring int
| At_unlink_child cstring addr
| At_rename_old rename_call "addr option"
| At_rename_new rename_call addr "addr option"
| At_rename_mov rename_call addr "addr option" bool
| At_subtree rename_call addr "addr option" "(nat \<times> cstring) list"

datatype outcome = Done int | Wait int int lock_out stage

definition request :: "fs_env \<Rightarrow> int \<Rightarrow> int \<Rightarrow> int \<Rightarrow> server \<Rightarrow> (addr option \<times> lock_out \<times> server) option" where
  "request env f_inode f_flags txnid s = do {
     (search_ret, loc) \<leftarrow> search_file_list f_inode (lk s);
     (out, s) \<leftarrow> insert_file_list f_inode f_flags txnid (env_read_bit env) search_ret loc s;
     Some (loc, out, s) }"

definition deliver :: "int \<Rightarrow> int \<Rightarrow> stage \<Rightarrow> (addr \<Rightarrow> server \<Rightarrow> (outcome \<times> server) option) \<Rightarrow> lock_out \<times> server \<Rightarrow> (outcome \<times> server) option" where
  "deliver f_inode f_flags stg k r =
     (case r of (out, s) \<Rightarrow> (case out of
        Got a \<Rightarrow> k a s
      | Refused \<Rightarrow> Some (Done (- 1), s)
      | _ \<Rightarrow> Some (Wait f_inode f_flags out stg, s)))"

definition set_file :: "addr \<Rightarrow> int \<Rightarrow> server \<Rightarrow> server option" where
  "set_file a fd s = do {
     m \<leftarrow> fl_set (Some a) (\<lambda>n. n\<lparr>fl_fd := fd, fl_file_offset := 0\<rparr>) (lk s);
     Some (s\<lparr>lk := m\<rparr>) }"

definition aborting :: "int \<Rightarrow> server \<Rightarrow> (outcome \<times> server) option" where
  "aborting txnid s = do { (_, s) \<leftarrow> on_txn_abort txnid s; Some (Done (- 1), s) }"

definition str_buffer :: "nat \<Rightarrow> cstring \<Rightarrow> cstring option" where
  "str_buffer cap s = (if length s < cap then Some s else None)"

section \<open>Handlers without locks\<close>

definition on_txn_beg :: "int \<Rightarrow> server \<Rightarrow> (int \<times> server) option" where
  "on_txn_beg txnid s = do {
     (LRN, s) \<leftarrow> log_txn_beg txnid s;
     Some (txnid, new_txn_insert txnid LRN s) }"

text \<open>Returns before it locks; the rest of the function is never reached.\<close>

definition on_inode_stat :: "fs_env \<Rightarrow> cstring \<Rightarrow> int option" where
  "on_inode_stat env arg1 = do {
     path \<leftarrow> str_buffer 100 arg1;
     Some (case env_yaffs_stat env path of None \<Rightarrow> - 1 | Some i \<Rightarrow> s32 i) }"

definition on_write :: "fs_env \<Rightarrow> cstring \<Rightarrow> cstring \<Rightarrow> cstring \<Rightarrow> int \<Rightarrow> server \<Rightarrow> (int \<times> server) option" where
  "on_write env arg1 arg2 arg3 txnid s = do {
     let fd = atoi arg1;
     let nbyte = atoi arg3;
     p \<leftarrow> write_possible fd s;
     if p = - 1 then Some (- 1, s)
     else Some (env_write env fd arg2 nbyte, emit (Tr_write fd arg2 nbyte txnid) s) }"

definition on_lseek :: "fs_env \<Rightarrow> cstring \<Rightarrow> cstring \<Rightarrow> cstring \<Rightarrow> server \<Rightarrow> int \<times> server" where
  "on_lseek env arg1 arg2 arg3 s =
     (env_lseek env (atoi arg1) (atoi arg2) (atoi arg3), emit (Tr_lseek (atoi arg1) (atoi arg2) (atoi arg3)) s)"

text \<open>The caller's buffer has \<open>nbytes + 1\<close> bytes; where nothing is read, \<open>"Zero\n"\<close> is copied
  into it, whatever its size.\<close>

definition zero_text :: cstring where
  "zero_text = ''Zero'' @ [CHR 0x0A]"

definition on_read :: "fs_env \<Rightarrow> int \<Rightarrow> int \<Rightarrow> server \<Rightarrow> ((int \<times> char list) \<times> server) option" where
  "on_read env fd nbytes s = do {
     let (r, s) = do_read env fd nbytes s;
     if fst r = 0 then
       if nbytes + 1 < int (length zero_text) + 1 then None else Some ((int (length zero_text), zero_text), s)
     else Some (r, s) }"

section \<open>Open and stat\<close>

text \<open>\<open>O_WRONLY|O_APPEND\<close> is 1025.\<close>

definition open_mode :: "cstring \<Rightarrow> int option" where
  "open_mode a =
     (if a = ''0'' then Some 0 else if a = ''1'' then Some 1 else if a = ''2'' then Some 2
      else if a = ''1025'' \<or> a = ''1026'' then Some 1025 else None)"

definition after_open :: "fs_env \<Rightarrow> cstring \<Rightarrow> cstring \<Rightarrow> int \<Rightarrow> addr \<Rightarrow> server \<Rightarrow> (outcome \<times> server) option" where
  "after_open env arg1 arg2 txnid a s = do {
     mode \<leftarrow> open_mode arg2;
     let fd = env_open env arg1 mode;
     let s = emit (Tr_open arg1 mode) s;
     if fd = - 1 then aborting txnid s
     else do { s \<leftarrow> set_file a fd s; Some (Done fd, s) } }"

definition on_open :: "fs_env \<Rightarrow> cstring \<Rightarrow> cstring \<Rightarrow> int \<Rightarrow> server \<Rightarrow> (outcome \<times> server) option" where
  "on_open env arg1 arg2 txnid s = do {
     path \<leftarrow> str_buffer 255 arg1;
     let f_inode = env_object_id env path;
     f_flags \<leftarrow> file_open_flags arg2;
     (_, r) \<leftarrow> request env f_inode f_flags txnid s;
     deliver f_inode f_flags (At_open arg1 arg2) (after_open env arg1 arg2 txnid) r }"

definition after_stat :: "fs_env \<Rightarrow> cstring \<Rightarrow> addr \<Rightarrow> server \<Rightarrow> (outcome \<times> server) option" where
  "after_stat env arg1 a s =
     (if env_stat env arg1 = None then Some (Done 1, s)
      else do { s \<leftarrow> set_file a 0 s; Some (Done 0, s) })"

definition on_stat :: "fs_env \<Rightarrow> cstring \<Rightarrow> int \<Rightarrow> server \<Rightarrow> (outcome \<times> server) option" where
  "on_stat env arg1 txnid s =
     (if \<not> env_access env arg1 then aborting txnid s
      else do {
        (f_inode, _) \<leftarrow> env_stat env arg1;
        (_, r) \<leftarrow> request env f_inode 0 txnid s;
        deliver f_inode 0 (At_stat arg1) (after_stat env arg1) r })"

section \<open>Creation and removal\<close>

text \<open>The parent is looked up by \<open>newpath\<close>, which \<open>dirname\<close> has already cut short.\<close>

definition after_creat :: "fs_env \<Rightarrow> cstring \<Rightarrow> cstring \<Rightarrow> int \<Rightarrow> addr \<Rightarrow> server \<Rightarrow> (outcome \<times> server) option" where
  "after_creat env arg1 arg2 txnid a s = do {
     s \<leftarrow> set_file a 0 s;
     s \<leftarrow> creat_log arg1 arg2 a txnid s;
     let mode = atoi arg2;
     Some (Done (env_creat env arg1 mode), emit (Tr_creat arg1 mode) s) }"

definition on_creat :: "fs_env \<Rightarrow> cstring \<Rightarrow> cstring \<Rightarrow> int \<Rightarrow> server \<Rightarrow> (outcome \<times> server) option" where
  "on_creat env arg1 arg2 txnid s = do {
     newpath \<leftarrow> str_buffer 256 arg1;
     let (parent, newpath) = dirname newpath;
     let inode_parent = env_parent_id env newpath;
     (_, r) \<leftarrow> request env inode_parent 2 txnid s;
     deliver inode_parent 2 (At_creat arg1 arg2) (after_creat env arg1 arg2 txnid) r }"

definition after_unlink_child :: "cstring \<Rightarrow> addr \<Rightarrow> int \<Rightarrow> addr \<Rightarrow> server \<Rightarrow> (outcome \<times> server) option" where
  "after_unlink_child arg1 pos_parent txnid a s = do {
     s \<leftarrow> set_file a 0 s;
     s \<leftarrow> unlink_log arg1 a pos_parent txnid s;
     Some (Done 1, s) }"

definition after_unlink_parent :: "fs_env \<Rightarrow> cstring \<Rightarrow> int \<Rightarrow> int \<Rightarrow> addr \<Rightarrow> server \<Rightarrow> (outcome \<times> server) option" where
  "after_unlink_parent env arg1 inode_child txnid a s = do {
     s \<leftarrow> set_file a 0 s;
     (_, r) \<leftarrow> request env inode_child 2 txnid s;
     deliver inode_child 2 (At_unlink_child arg1 a) (after_unlink_child arg1 a txnid) r }"

definition on_unlink :: "fs_env \<Rightarrow> cstring \<Rightarrow> int \<Rightarrow> server \<Rightarrow> (outcome \<times> server) option" where
  "on_unlink env arg1 txnid s = do {
     newpath \<leftarrow> str_buffer 256 arg1;
     let (parent, newpath) = dirname newpath;
     (inode_parent, _) \<leftarrow> env_stat env parent;
     (inode_child, _) \<leftarrow> env_stat env arg1;
     (_, r) \<leftarrow> request env inode_parent 2 txnid s;
     deliver inode_parent 2 (At_unlink_parent arg1 inode_child) (after_unlink_parent env arg1 inode_child txnid) r }"

section \<open>Rename\<close>

definition finish_rename :: "rename_call \<Rightarrow> addr \<Rightarrow> addr option \<Rightarrow> int \<Rightarrow> server \<Rightarrow> (outcome \<times> server) option" where
  "finish_rename rc pos_old pos_new txnid s = do {
     s \<leftarrow> rename_log (rc_old rc) (rc_new rc) pos_old pos_new txnid s;
     Some (Done 1, s) }"

text \<open>\<open>lock_subtree\<close>: one request for each entry of the tree that is neither the root nor hidden.
  The inode is that of \<open>path\<close> each time, not that of the entry.  What \<open>fts_close\<close> returns makes
  no difference to the caller, which tests for -1 only.\<close>

fun lock_subtree_loop :: "fs_env \<Rightarrow> rename_call \<Rightarrow> addr \<Rightarrow> addr option \<Rightarrow> int \<Rightarrow> (nat \<times> cstring) list \<Rightarrow> server \<Rightarrow> (outcome \<times> server) option" where
  "lock_subtree_loop env rc pos_old pos_new txnid [] s = finish_rename rc pos_old pos_new txnid s"
| "lock_subtree_loop env rc pos_old pos_new txnid ((l, name) # es) s =
     (if l = 0 \<or> hidden name then lock_subtree_loop env rc pos_old pos_new txnid es s
      else do {
        (inode_subtree, _) \<leftarrow> env_stat env (rc_buf rc);
        (_, r) \<leftarrow> request env inode_subtree 0 txnid s;
        deliver inode_subtree 0 (At_subtree rc pos_old pos_new es)
          (\<lambda>a s. do { s \<leftarrow> set_file a 0 s; lock_subtree_loop env rc pos_old pos_new txnid es s }) r })"

definition lock_subtree :: "fs_env \<Rightarrow> rename_call \<Rightarrow> addr \<Rightarrow> addr option \<Rightarrow> int \<Rightarrow> server \<Rightarrow> (outcome \<times> server) option" where
  "lock_subtree env rc pos_old pos_new txnid s =
     lock_subtree_loop env rc pos_old pos_new txnid
       (case env_fts env (rc_buf rc) of None \<Rightarrow> [] | Some t \<Rightarrow> fts_visits 0 t) s"

definition after_subtree :: "fs_env \<Rightarrow> rename_call \<Rightarrow> addr \<Rightarrow> addr option \<Rightarrow> (nat \<times> cstring) list \<Rightarrow> int \<Rightarrow> addr \<Rightarrow> server \<Rightarrow> (outcome \<times> server) option" where
  "after_subtree env rc pos_old pos_new es txnid a s = do {
     s \<leftarrow> set_file a 0 s;
     lock_subtree_loop env rc pos_old pos_new txnid es s }"

definition after_mov :: "fs_env \<Rightarrow> rename_call \<Rightarrow> addr \<Rightarrow> addr option \<Rightarrow> bool \<Rightarrow> int \<Rightarrow> addr \<Rightarrow> server \<Rightarrow> (outcome \<times> server) option" where
  "after_mov env rc pos_old pos_new is_dir txnid a s = do {
     s \<leftarrow> set_file a 0 s;
     if is_dir then lock_subtree env rc pos_old pos_new txnid s
     else finish_rename rc pos_old pos_new txnid s }"

definition lock_moved :: "fs_env \<Rightarrow> rename_call \<Rightarrow> addr \<Rightarrow> addr option \<Rightarrow> int \<Rightarrow> server \<Rightarrow> (outcome \<times> server) option" where
  "lock_moved env rc pos_old pos_new txnid s = do {
     (inode_mov, is_dir) \<leftarrow> env_stat env (rc_old rc);
     (_, r) \<leftarrow> request env inode_mov 2 txnid s;
     deliver inode_mov 2 (At_rename_mov rc pos_old pos_new is_dir) (after_mov env rc pos_old pos_new is_dir txnid) r }"

text \<open>A record that was there before the request, which then is the transaction's own, keeps its
  descriptor and offset.\<close>

definition set_file_unless :: "addr option \<Rightarrow> addr \<Rightarrow> server \<Rightarrow> server option" where
  "set_file_unless loc a s = (if loc = Some a then Some s else set_file a 0 s)"

definition after_rename_new :: "fs_env \<Rightarrow> rename_call \<Rightarrow> addr \<Rightarrow> addr option \<Rightarrow> int \<Rightarrow> addr \<Rightarrow> server \<Rightarrow> (outcome \<times> server) option" where
  "after_rename_new env rc pos_old loc txnid a s = do {
     s \<leftarrow> set_file_unless loc a s;
     lock_moved env rc pos_old (Some a) txnid s }"

definition after_rename_old :: "fs_env \<Rightarrow> rename_call \<Rightarrow> addr option \<Rightarrow> int \<Rightarrow> addr \<Rightarrow> server \<Rightarrow> (outcome \<times> server) option" where
  "after_rename_old env rc loc txnid a s = do {
     s \<leftarrow> set_file_unless loc a s;
     if rc_old_parent rc \<noteq> rc_new_parent rc then do {
       (inode_new, _) \<leftarrow> env_stat env (rc_new_parent rc);
       (loc_new, r) \<leftarrow> request env inode_new 2 txnid s;
       deliver inode_new 2 (At_rename_new rc a loc_new) (after_rename_new env rc a loc_new txnid) r }
     else lock_moved env rc a None txnid s }"

definition on_rename :: "fs_env \<Rightarrow> cstring \<Rightarrow> cstring \<Rightarrow> int \<Rightarrow> server \<Rightarrow> (outcome \<times> server) option" where
  "on_rename env arg1 arg2 txnid s = do {
     oldpath \<leftarrow> str_buffer 255 arg1;
     newpath \<leftarrow> str_buffer 255 arg2;
     if \<not> env_access env arg1 then aborting txnid s
     else do {
       let (old_parent, oldpath) = dirname oldpath;
       let (new_parent, newpath) = dirname newpath;
       if \<not> env_access env new_parent then aborting txnid s
       else do {
         let rc = \<lparr>rc_old = arg1, rc_new = arg2, rc_buf = oldpath, rc_old_parent = old_parent, rc_new_parent = new_parent\<rparr>;
         (inode_old, _) \<leftarrow> env_stat env old_parent;
         (loc, r) \<leftarrow> request env inode_old 2 txnid s;
         deliver inode_old 2 (At_rename_old rc loc) (after_rename_old env rc loc txnid) r } } }"

section \<open>The rest of a handler\<close>

definition continue :: "fs_env \<Rightarrow> int \<Rightarrow> stage \<Rightarrow> addr \<Rightarrow> server \<Rightarrow> (outcome \<times> server) option" where
  "continue env txnid stg a s =
     (case stg of
        At_open arg1 arg2 \<Rightarrow> after_open env arg1 arg2 txnid a s
      | At_stat arg1 \<Rightarrow> after_stat env arg1 a s
      | At_creat arg1 arg2 \<Rightarrow> after_creat env arg1 arg2 txnid a s
      | At_unlink_parent arg1 inode_child \<Rightarrow> after_unlink_parent env arg1 inode_child txnid a s
      | At_unlink_child arg1 pos_parent \<Rightarrow> after_unlink_child arg1 pos_parent txnid a s
      | At_rename_old rc loc \<Rightarrow> after_rename_old env rc loc txnid a s
      | At_rename_new rc pos_old loc \<Rightarrow> after_rename_new env rc pos_old loc txnid a s
      | At_rename_mov rc pos_old pos_new is_dir \<Rightarrow> after_mov env rc pos_old pos_new is_dir txnid a s
      | At_subtree rc pos_old pos_new es \<Rightarrow> after_subtree env rc pos_old pos_new es txnid a s)"

text \<open>What can happen to a request that stopped, followed by the rest of the handler.\<close>

definition resume_call :: "fs_env \<Rightarrow> int \<Rightarrow> int \<Rightarrow> int \<Rightarrow> stage \<Rightarrow> (lock_out \<times> server) option \<Rightarrow> (outcome \<times> server) option" where
  "resume_call env txnid f_inode f_flags stg m = do {
     r \<leftarrow> m;
     deliver f_inode f_flags stg (continue env txnid stg) r }"

end
