(* ===== verification/HandlerOk.thy ===== *)
theory HandlerOk
  imports TxFSManager
begin

text \<open>
  Every stretch of every handler keeps the invariant of the lock table.  The rules follow the
  handlers statement by statement: \<open>kept\<close> is what holds between two statements, \<open>out_ok\<close> what holds
  where the thread stops.  Records below the allocator's position that are not in the lock list
  (another thread's, pausing) stay out of it.
\<close>

section \<open>Statements that touch no lock\<close>

lemma set_file_io: "post (set_file a fd s) (io_step s)"
  unfolding set_file_def
  by (intro post_intros) (auto simp: no_io_def intro: io_only_fl_set)

lemma set_file_unless_io: "post (set_file_unless loc a s) (io_step s)"
  using set_file_io by (simp add: set_file_unless_def post_Some)

section \<open>What the handlers need of the lock manager\<close>

text \<open>Between two statements of a handler of transaction \<open>t\<close> the server is \<open>ok\<close>; where a request for a lock does
  not come back with it, the thread stops in a state that is \<open>parked\<close>, at the file asked for.\<close>

locale lock_service =
  fixes ok :: "server \<Rightarrow> bool" and t :: int and parked :: "int \<Rightarrow> lock_out \<Rightarrow> server \<Rightarrow> bool"
  assumes io: "ok s \<Longrightarrow> io_step s s' \<Longrightarrow> ok s'"
    and ended: "ok s \<Longrightarrow> post (on_txn_abort t s) (\<lambda>(_, s'). ok s')"
    and asked: "ok s \<Longrightarrow> post (resume f fl t rb s) (\<lambda>(out, s'). case out of Got a \<Rightarrow> ok s' | _ \<Rightarrow> parked f out s')"
    and refused: "parked f Refused s \<Longrightarrow> ok s"
begin

definition out_ok :: "outcome \<times> server \<Rightarrow> bool" where
  "out_ok r \<longleftrightarrow> (case r of (Done _, s) \<Rightarrow> ok s | (Wait f _ out _, s) \<Rightarrow> parked f out s)"

definition answer_ok :: "int \<Rightarrow> lock_out \<times> server \<Rightarrow> bool" where
  "answer_ok f r \<longleftrightarrow> (case r of (out, s) \<Rightarrow> case out of Got a \<Rightarrow> ok s | _ \<Rightarrow> parked f out s)"

lemma out_ok_done [post_intros]: "ok s \<Longrightarrow> out_ok (Done i, s)"
  by (simp add: out_ok_def)

lemma ok_emit [simp]: "ok s \<Longrightarrow> ok (emit c s)"
  by (erule io) simp

lemma post_ok_io: "ok s \<Longrightarrow> post m (io_step s) \<Longrightarrow> (\<And>s'. ok s' \<Longrightarrow> post (f s') P) \<Longrightarrow> post (Option.bind m f) P"
  using io by (fastforce intro!: post_bind dest: postD)

lemma aborting_ok: "ok s \<Longrightarrow> post (aborting t s) out_ok"
  unfolding aborting_def
  by (rule post_bind, rule post_prod, rule post_Some) (auto simp: out_ok_def dest: postD [OF ended])

lemma request_answer: "ok s \<Longrightarrow> post (request env f fl t s) (\<lambda>(_, r). answer_ok f r)"
proof -
  assume "ok s"
  then have "post (resume f fl t (env_read_bit env) s) (answer_ok f)"
    by (rule post_weaken [OF asked]) (auto simp: answer_ok_def)
  then show ?thesis unfolding request_def resume_def
    by (auto simp: post_def Option.bind_eq_Some_conv)
qed

lemma deliver_ok:
  assumes "answer_ok f r" and "\<And>a s'. ok s' \<Longrightarrow> post (c a s') out_ok"
  shows "post (deliver f fl stg c r) out_ok"
  using assms refused
  by (auto simp: deliver_def answer_ok_def out_ok_def intro!: post_Some split: prod.splits lock_out.splits option.splits)

text \<open>A request and what follows it.\<close>

lemma post_request:
  assumes "ok s" and "\<And>loc a s'. ok s' \<Longrightarrow> post (c loc a s') out_ok"
  shows "post (do { (loc, r) \<leftarrow> request env f fl t s; deliver f fl (stg loc) (c loc) r }) out_ok"
proof (rule post_bind, rule post_prod)
  fix x loc r
  assume "request env f fl t s = Some x" "x = (loc, r)"
  then have "answer_ok f r" using postD [OF request_answer [OF assms(1)]] by fastforce
  then show "post (deliver f fl (stg loc) (c loc) r) out_ok" using assms(2) by (rule deliver_ok)
qed

text \<open>The handlers, from the last stretch to the first.\<close>

lemma after_open_ok: "ok s \<Longrightarrow> post (after_open env p m t a s) out_ok"
  unfolding after_open_def Let_def
  by (intro post_bind post_if aborting_ok) (auto intro!: post_Some out_ok_done dest: io [rotated, OF postD [OF set_file_io]])

lemma after_stat_ok: "ok s \<Longrightarrow> post (after_stat env p a s) out_ok"
  unfolding after_stat_def
  by (rule post_if) (auto intro!: post_Some out_ok_done post_ok_io set_file_io)

lemma after_creat_ok: "ok s \<Longrightarrow> post (after_creat env p m t a s) out_ok"
  unfolding after_creat_def Let_def
  by (rule post_ok_io, assumption, rule set_file_io, rule post_ok_io, assumption, rule update_ops_io) (auto intro!: post_Some out_ok_done)

lemma after_unlink_child_ok: "ok s \<Longrightarrow> post (after_unlink_child p b t a s) out_ok"
  unfolding after_unlink_child_def
  by (rule post_ok_io, assumption, rule set_file_io, rule post_ok_io, assumption, rule update_ops_io) (auto intro!: post_Some out_ok_done)

lemma after_unlink_parent_ok: "ok s \<Longrightarrow> post (after_unlink_parent env p i t a s) out_ok"
  unfolding after_unlink_parent_def
  by (rule post_ok_io, assumption, rule set_file_io, rule post_request) (auto intro: after_unlink_child_ok)

lemma finish_rename_ok: "ok s \<Longrightarrow> post (finish_rename rc p q t s) out_ok"
  unfolding finish_rename_def
  by (rule post_ok_io, assumption, rule update_ops_io) (auto intro!: post_Some out_ok_done)

lemma lock_subtree_loop_ok: "ok s \<Longrightarrow> post (lock_subtree_loop env rc p q t es s) out_ok"
proof (induction es arbitrary: s)
  case Nil
  then show ?case by (simp add: finish_rename_ok)
next
  case (Cons e es)
  obtain l n where e: "e = (l, n)" by (cases e)
  show ?case
    unfolding e lock_subtree_loop.simps
    by (intro post_if Cons.IH Cons.prems post_bind [where m = "env_stat env (rc_buf rc)"] post_prod post_request [OF Cons.prems])
      (rule post_ok_io, assumption, rule set_file_io, rule Cons.IH)
qed

lemma lock_subtree_ok: "ok s \<Longrightarrow> post (lock_subtree env rc p q t s) out_ok"
  by (simp add: lock_subtree_def lock_subtree_loop_ok)

lemma after_mov_ok: "ok s \<Longrightarrow> post (after_mov env rc p q d t a s) out_ok"
  unfolding after_mov_def
  by (rule post_ok_io, assumption, rule set_file_io, rule post_if) (auto intro: lock_subtree_ok finish_rename_ok)

lemma lock_moved_ok: "ok s \<Longrightarrow> post (lock_moved env rc p q t s) out_ok"
  unfolding lock_moved_def
  by (intro post_bind [where m = "env_stat env (rc_old rc)"] post_prod post_request after_mov_ok)

lemma after_rename_new_ok: "ok s \<Longrightarrow> post (after_rename_new env rc p l t a s) out_ok"
  unfolding after_rename_new_def
  by (rule post_ok_io, assumption, rule set_file_unless_io, rule lock_moved_ok)

lemma after_rename_old_ok: "ok s \<Longrightarrow> post (after_rename_old env rc l t a s) out_ok"
  unfolding after_rename_old_def
  by (rule post_ok_io, assumption, rule set_file_unless_io, rule post_if)
    (intro post_bind [where m = "env_stat env (rc_new_parent rc)"] post_prod post_request after_rename_new_ok lock_moved_ok; assumption)+

lemma continue_ok: "ok s \<Longrightarrow> post (continue env t stg a s) out_ok"
  unfolding continue_def after_subtree_def
  by (cases stg) (auto intro: after_open_ok after_stat_ok after_creat_ok after_unlink_parent_ok after_unlink_child_ok
      after_rename_old_ok after_rename_new_ok after_mov_ok post_ok_io set_file_io lock_subtree_loop_ok)

text \<open>The starts of the handlers that lock.\<close>

lemma handlers_ok:
  assumes "ok s"
  shows "post (on_open env p m t s) out_ok" "post (on_stat env p t s) out_ok" "post (on_creat env p m t s) out_ok"
    "post (on_unlink env p t s) out_ok" "post (on_rename env p q t s) out_ok"
proof -
  show "post (on_open env p m t s) out_ok"
    unfolding on_open_def Let_def by (intro post_bind [where m = "str_buffer _ _"] post_bind [where m = "file_open_flags m"] post_request [OF assms] after_open_ok)
  show "post (on_stat env p t s) out_ok"
    unfolding on_stat_def
    by (intro post_if aborting_ok [OF assms] post_bind [where m = "env_stat _ _"] post_prod post_request [OF assms] after_stat_ok)
  show "post (on_creat env p m t s) out_ok"
    unfolding on_creat_def Let_def
    by (intro post_bind [where m = "str_buffer _ _"] post_prod post_request [OF assms] after_creat_ok)
  show "post (on_unlink env p t s) out_ok"
    unfolding on_unlink_def Let_def
    by (intro post_bind [where m = "str_buffer _ _"] post_bind [where m = "env_stat _ _"] post_prod post_request [OF assms] after_unlink_parent_ok)
  show "post (on_rename env p q t s) out_ok"
    unfolding on_rename_def Let_def
    by (intro post_bind [where m = "str_buffer _ _"] post_if aborting_ok [OF assms] post_prod post_bind [where m = "env_stat _ _"] post_request [OF assms] after_rename_old_ok)
qed

end

section \<open>The lock table serves the handlers\<close>

text \<open>The invariant of the table holds, no record outside \<open>X\<close> is in it, the allocator is at \<open>k\<close> at least, and
  the grants came from \<open>G\<close> by steps the specification allows the transaction.\<close>

definition kept_in :: "int \<Rightarrow> grant set \<Rightarrow> addr set \<Rightarrow> nat \<Rightarrow> server \<Rightarrow> addr list \<Rightarrow> bool" where
  "kept_in t G X k s xs \<longleftrightarrow> {k..} \<subseteq> X \<and> k \<le> brk (lk s) \<and> lock_inv s xs \<and> set xs \<subseteq> X \<and> (lock_step t)\<^sup>*\<^sup>* G (grants (lk s) xs)"

definition kept :: "int \<Rightarrow> grant set \<Rightarrow> addr set \<Rightarrow> nat \<Rightarrow> server \<Rightarrow> bool" where
  "kept t G X k s \<longleftrightarrow> (\<exists>xs. kept_in t G X k s xs)"

definition kept_parked :: "int \<Rightarrow> grant set \<Rightarrow> addr set \<Rightarrow> nat \<Rightarrow> lock_out \<Rightarrow> server \<Rightarrow> bool" where
  "kept_parked t G X k out s \<longleftrightarrow> (\<exists>xs. kept_in t G X k s xs \<and>
     (case out of Paused (Some p) \<Rightarrow> p \<notin> set xs \<and> p < brk (lk s) | _ \<Rightarrow> True))"

lemma request_ok_kept:
  assumes "request_ok (grants (lk s) xs) f fl t (insert (brk (lk s)) (set xs)) (brk (lk s)) (out, s')" and "kept_in t G X k s xs"
  shows "kept_parked t G X k out s'"
proof -
  obtain ys where ys: "lock_inv s' ys" "set ys \<subseteq> insert (brk (lk s)) (set xs)" "brk (lk s) \<le> brk (lk s')"
      "granted (grants (lk s) xs) f fl t out (grants (lk s') ys)" "case out of Paused (Some a) \<Rightarrow> a \<notin> set ys \<and> a < brk (lk s') | _ \<Rightarrow> True"
    using assms(1) by (cases out) (auto simp: request_ok_def)
  moreover have "brk (lk s) \<in> X" using assms(2) by (auto simp: kept_in_def)
  ultimately have "kept_in t G X k s' ys" using assms(2) granted_step [OF ys(4)]
    unfolding kept_in_def by (auto intro: rtranclp_trans)
  then show ?thesis using ys(5) by (auto simp: kept_parked_def)
qed

lemma kept_parked_kept: "kept_parked t G X k out s \<Longrightarrow> kept t G X k s"
  by (auto simp: kept_parked_def kept_def)

lemma io_only_grants: "io_only m m' \<Longrightarrow> grants m' xs = grants m xs"
  by (rule grants_cong) (simp add: grant_at_def io_only_view)

lemma shrunk_kept:
  assumes "kept_in t G X k s xs" and "shrunk t xs s s'"
  shows "kept t G X k s'"
proof -
  obtain ys where ys: "lock_inv s' ys" "set ys \<subseteq> set xs" "grants (lk s') ys = without t (grants (lk s) xs)" "brk (lk s') = brk (lk s)"
    using assms(2) by (auto simp: shrunk_def)
  have "lock_step t (grants (lk s) xs) (without t (grants (lk s) xs))" by (rule lock_step.finish)
  then have "(lock_step t)\<^sup>*\<^sup>* G (grants (lk s') ys)" using assms(1) ys(3) by (auto simp: kept_in_def intro: rtranclp.rtrancl_into_rtrancl)
  then show ?thesis using assms(1) ys by (fastforce simp: kept_def kept_in_def)
qed

lemma kept_in_io:
  assumes "kept_in t G X k s xs" and io: "io_step s s'"
  shows "kept_in t G X k s' xs" "grants (lk s') xs = grants (lk s) xs"
proof -
  have o: "io_only (lk s) (lk s')" "brk (lk s) \<le> brk (lk s')" using io by (simp_all add: io_step_def io_only_def)
  then show g: "grants (lk s') xs = grants (lk s) xs" using io_only_grants by blast
  show "kept_in t G X k s' xs" using assms(1) io_step_lock_inv [OF io] g o(2) unfolding kept_in_def by auto
qed

interpretation table: lock_service "kept t G X k" t "\<lambda>_. kept_parked t G X k" for t G X k
proof
  show "kept t G X k s'" if k: "kept t G X k s" and io: "io_step s s'" for s s'
  proof -
    obtain xs where xs: "kept_in t G X k s xs" using k by (auto simp: kept_def)
    then show ?thesis using kept_in_io [OF xs io] by (auto simp: kept_def)
  qed
  show "post (on_txn_abort t s) (\<lambda>(_, s'). kept t G X k s')" if k: "kept t G X k s" for s
  proof -
    obtain xs where xs: "kept_in t G X k s xs" using k by (auto simp: kept_def)
    then have "post (on_txn_abort t s) (\<lambda>(_, s'). shrunk t xs s s')" by (intro abort_shrinks) (simp add: kept_in_def)
    then show ?thesis by (rule post_weaken) (use shrunk_kept [OF xs] in auto)
  qed
  show "post (resume f fl t rb s) (\<lambda>(out, s'). case out of Got a \<Rightarrow> kept t G X k s' | _ \<Rightarrow> kept_parked t G X k out s')"
    if k: "kept t G X k s" for f fl rb s
  proof -
    obtain xs where xs: "kept_in t G X k s xs" using k by (auto simp: kept_def)
    then have "post (resume f fl t rb s) (request_ok (grants (lk s) xs) f fl t (insert (brk (lk s)) (set xs)) (brk (lk s)))"
      by (intro resume_ok) (simp add: kept_in_def)
    then show ?thesis
      by (rule post_weaken) (auto dest!: request_ok_kept [OF _ xs] intro: kept_parked_kept split: lock_out.splits)
  qed
  show "kept t G X k s" if "kept_parked t G X k Refused s" for s using that by (rule kept_parked_kept)
qed

end
