(* ===== verification/BackupRelease.thy ===== *)
theory BackupRelease
  imports HandlerOk
begin

text \<open>
  The backup transaction lets go of one file at a time (\<open>release_locks_by_backup\<close> in
  backup_manager.c): the record leaves the lock list and the list of its transaction, whichever
  place it has there, and all other locks stay.
\<close>

lemma find_own_split:
  "find_own m f k foll p = Some (foll', a) \<Longrightarrow> lpath (fl_heap m) fl_next_txn p as None \<Longrightarrow>
   \<exists>us vs n. as = us @ a # vs \<and> fl_heap m a = Some n \<and> fl_file_inode n = f \<and> foll' = (if us = [] then foll else Some (last us))"
proof (induction k arbitrary: foll p as)
  case 0
  then show ?case by simp
next
  case (Suc k)
  obtain b n where b: "p = Some b" "fl_heap m b = Some n" 
      "(if fl_file_inode n = f then Some (foll, b) else find_own m f k (Some b) (fl_next_txn n)) = Some (foll', a)"
    using Suc.prems(1) by (auto simp: Option.bind_eq_Some_conv)
  obtain bs where bs: "as = b # bs" "lpath (fl_heap m) fl_next_txn (fl_next_txn n) bs None" using Suc.prems(2) b(1,2) by (cases as) auto
  show ?case
  proof (cases "fl_file_inode n = f")
    case True
    then show ?thesis using b bs by (intro exI [of _ "[]"] exI [of _ bs] exI [of _ n]) auto
  next
    case False
    then obtain us vs n' where u: "bs = us @ a # vs" "fl_heap m a = Some n'" "fl_file_inode n' = f" "foll' = (if us = [] then Some b else Some (last us))"
      using Suc.IH [of "Some b" "fl_next_txn n" bs] b(3) bs(2) by auto
    then show ?thesis using bs by (intro exI [of _ "b # us"] exI [of _ vs] exI [of _ n']) auto
  qed
qed

lemma lpath_skip:
  assumes "lpath h sel p (us @ [b, a] @ vs) None" and "h a = Some n" and "h b = Some k" and "sel k' = sel n"
  shows "lpath (h(b \<mapsto> k')) sel p (us @ b # vs) None"
proof -
  have d: "distinct (us @ [b, a] @ vs)" using assms(1) by (rule lpath_distinct)
  have "lpath h sel p us (Some b)" "lpath h sel (sel n) vs None" using assms(1,2,3) by (auto simp: lpath_append)
  then show ?thesis using d assms(4) by (auto simp: lpath_append lpath_upd_other)
qed

lemma lock_inv_drop:
  assumes inv: "lock_inv s xs" and a: "a \<in> owned (lk s) xs t"
    and fst1: "map fst (txn_view (head_txn_list s1)) = map fst (txn_view (head_txn_list s))"
    and others: "\<And>u p. (u, p) \<in> set (txn_view (head_txn_list s1)) \<Longrightarrow> u \<noteq> t \<Longrightarrow> (u, p) \<in> set (txn_view (head_txn_list s))"
    and mine: "\<And>p. (t, p) \<in> set (txn_view (head_txn_list s1)) \<Longrightarrow>
       \<exists>bs. lpath (fl_heap (lk s1)) fl_next_txn p bs None \<and> set bs = owned (lk s) xs t - {a}"
    and tb: "table_ok (lk s1) xs" and par: "\<And>b. parent_of (lk s1) b = parent_of (lk s) b"
    and nx: "\<And>b. parent_of (lk s) b \<noteq> t \<Longrightarrow> map_option fl_next_txn (fl_heap (lk s1) b) = map_option fl_next_txn (fl_heap (lk s) b)"
    and rel: "released {a} (remove1 a xs) s1 s2"
  shows "lock_inv s2 (remove1 a xs)"
proof -
  have ow: "owner_ok (lk s) (txn_view (head_txn_list s)) xs" using inv by (simp add: lock_inv_def)
  have d: "distinct xs" using inv lock_list_distinct by (auto simp: lock_inv_def table_ok_def)
  have R: "table_ok (lk s2) (remove1 a xs)" "same_id {a} (lk s1) (lk s2)" "head_txn_list s2 = head_txn_list s1"
    using rel by (simp_all add: released_def quiet_def)
  have par2: "parent_of (lk s2) b = parent_of (lk s) b" if "b \<noteq> a" for b
    using same_id_view(3) [OF R(2), of b] that par by simp
  have own2: "owned (lk s2) (remove1 a xs) u = owned (lk s) xs u - {a}" for u
    using d par2 by (auto simp: owned_def)
  have "owner_ok (lk s2) (txn_view (head_txn_list s2)) (remove1 a xs)"
    unfolding owner_ok_def R(3)
  proof (intro conjI ballI)
    show "sorted_wrt (<) (map fst (txn_view (head_txn_list s1)))" using fst1 ow by (simp add: owner_ok_def)
    show "parent_of (lk s2) b \<in> fst ` set (txn_view (head_txn_list s1))" if b: "b \<in> set (remove1 a xs)" for b
    proof -
      have "b \<in> set xs" "b \<noteq> a" using b d by auto
      moreover have "fst ` set (txn_view (head_txn_list s1)) = fst ` set (txn_view (head_txn_list s))"
        using arg_cong [OF fst1, of set] by simp
      ultimately show ?thesis using ow par2 by (auto simp: owner_ok_def)
    qed
    fix up
    assume up: "up \<in> set (txn_view (head_txn_list s1))"
    obtain u p where [simp]: "up = (u, p)" by (cases up)
    have "\<exists>bs. lpath (fl_heap (lk s1)) fl_next_txn p bs None \<and> set bs = owned (lk s) xs u - {a}"
    proof (cases "u = t")
      case True
      then show ?thesis using mine up by simp
    next
      case False
      then have "(u, p) \<in> set (txn_view (head_txn_list s))" using others up by simp
      then obtain bs where bs: "lpath (fl_heap (lk s)) fl_next_txn p bs None" "set bs = owned (lk s) xs u"
        using ow by (auto simp: owner_ok_def)
      have "lpath (fl_heap (lk s1)) fl_next_txn p bs None"
        using bs lpath_cong [of bs fl_next_txn "fl_heap (lk s1)" "fl_heap (lk s)" p None] nx False by (auto simp: owned_def)
      moreover have "a \<notin> set bs" using bs(2) a False by (auto simp: owned_def)
      ultimately show ?thesis using bs(2) by auto
    qed
    then obtain bs where bs: "lpath (fl_heap (lk s1)) fl_next_txn p bs None" "set bs = owned (lk s) xs u - {a}" by blast
    then have "lpath (fl_heap (lk s2)) fl_next_txn p bs None" using same_id_path [OF R(2), of bs p None] by auto
    then show "case up of (t, p) \<Rightarrow> \<exists>as. lpath (fl_heap (lk s2)) fl_next_txn p as None \<and> set as = owned (lk s2) (remove1 a xs) t"
      using bs(2) own2 by auto
  qed
  then show ?thesis using R(1) by (simp add: lock_inv_def)
qed

definition let_go :: "int \<Rightarrow> int \<Rightarrow> addr list \<Rightarrow> server \<Rightarrow> server \<Rightarrow> bool" where
  "let_go t f xs s s' \<longleftrightarrow> (\<exists>a \<in> owned (lk s) xs t. ino (lk s) a = f \<and> lock_inv s' (remove1 a xs) \<and> same_id (owned (lk s) xs t) (lk s) (lk s') \<and>
     (\<forall>b. b \<noteq> a \<longrightarrow> grant_at (lk s') b = grant_at (lk s) b) \<and> brk (lk s') = brk (lk s))"

lemma release_by_backup_ok:
  assumes inv: "lock_inv s xs"
  shows "post (release_locks_by_backup t f s) (let_go t f xs s)"
  unfolding release_locks_by_backup_def
proof (rule post_bind, rule post_bind, rule post_prod, rule post_bind, rule post_bind)
  fix tn x foll a n s1
  let ?m = "lk s" and ?own = "owned (lk s) xs t"
  assume tn: "find_txn t (head_txn_list s) = Some tn" and fo: "find_own ?m f (Suc (brk ?m)) None (tn_file_rec_no tn) = Some x" "x = (foll, a)"
    and n: "fl_heap ?m a = Some n"
    and s1: "(case foll of None \<Rightarrow> set_txn t (\<lambda>t. t\<lparr>tn_file_rec_no := fl_next_txn n\<rparr>) s
             | Some b \<Rightarrow> do { m \<leftarrow> fl_set (Some b) (\<lambda>x. x\<lparr>fl_next_txn := fl_next_txn n\<rparr>) ?m; Some (s\<lparr>lk := m\<rparr>) }) = Some s1"
  have tb: "table_ok ?m xs" and ow: "owner_ok ?m (txn_view (head_txn_list s)) xs" using inv by (simp_all add: lock_inv_def)
  obtain as where as: "lpath (fl_heap ?m) fl_next_txn (tn_file_rec_no tn) as None" "set as = ?own"
    using ow txn_view_find [OF tn] by (auto simp: owner_ok_def)
  obtain us vs where u: "as = us @ a # vs" "fl_file_inode n = f" "foll = (if us = [] then None else Some (last us))"
    using find_own_split [OF fo(1) [unfolded fo(2)] as(1)] n by auto
  have d: "distinct as" using as(1) by (rule lpath_distinct)
  have aown: "a \<in> ?own" using as(2) u(1) by auto
  have rest: "set (us @ vs) = ?own - {a}" using as(2) u(1) d by auto
  have sorted: "sorted_wrt (<) (map fst (txn_view (head_txn_list s)))" using ow by (simp add: owner_ok_def)
  then have uniq: "p = tn_file_rec_no tn" if "(t, p) \<in> set (txn_view (head_txn_list s))" for p
    using that txn_view_find [OF tn] by (metis eq_key_imp_eq_value strict_sorted_iff)
  have facts: "map fst (txn_view (head_txn_list s1)) = map fst (txn_view (head_txn_list s)) \<and>
       (\<forall>u p. (u, p) \<in> set (txn_view (head_txn_list s1)) \<longrightarrow> u \<noteq> t \<longrightarrow> (u, p) \<in> set (txn_view (head_txn_list s))) \<and>
       (\<forall>p. (t, p) \<in> set (txn_view (head_txn_list s1)) \<longrightarrow> (\<exists>bs. lpath (fl_heap (lk s1)) fl_next_txn p bs None \<and> set bs = ?own - {a})) \<and>
       (\<forall>b. map_option (\<lambda>x. x\<lparr>fl_next_txn := None\<rparr>) (fl_heap (lk s1) b) = map_option (\<lambda>x. x\<lparr>fl_next_txn := None\<rparr>) (fl_heap ?m b)) \<and>
       (\<forall>b. b \<notin> ?own \<longrightarrow> fl_heap (lk s1) b = fl_heap ?m b) \<and> wr_heap (lk s1) = wr_heap ?m \<and> brk (lk s1) = brk ?m \<and> head_lock_list (lk s1) = head_lock_list ?m"
    proof (cases us rule: rev_cases)
      case Nil
      then obtain ts where ts: "upd_txn t (\<lambda>t. t\<lparr>tn_file_rec_no := fl_next_txn n\<rparr>) (head_txn_list s) = Some ts" "s1 = s\<lparr>head_txn_list := ts\<rparr>"
        using s1 u(3) by (auto simp: set_txn_def Option.bind_eq_Some_conv)
      have ok: "txns_ok (head_txn_list s)" using ow txn_view_sorted by (auto simp: owner_ok_def)
      note v = txn_view_upd [OF ok ts(1), simplified]
      have "lpath (fl_heap ?m) fl_next_txn (fl_next_txn n) vs None" using as(1) u(1) Nil n by auto
      then show ?thesis using v rest Nil ts(2) by (auto dest!: v(3))
    next
      case (snoc ws b)
      have bown: "b \<in> ?own" using snoc u(1) as(2) by auto
      obtain k where k: "fl_heap ?m b = Some k" using lpath_alloc [OF as(1), of b] u(1) snoc by auto
      have fl: "foll = Some b" using u(3) snoc by simp
      have S: "s1 = s\<lparr>lk := ?m\<lparr>fl_heap := (fl_heap ?m)(b \<mapsto> k\<lparr>fl_next_txn := fl_next_txn n\<rparr>)\<rparr>\<rparr>"
        using s1 k fl by (simp add: fl_set_def)
      have "lpath ((fl_heap ?m)(b \<mapsto> k\<lparr>fl_next_txn := fl_next_txn n\<rparr>)) fl_next_txn (tn_file_rec_no tn) (ws @ b # vs) None"
        using as(1) u(1) snoc by (intro lpath_skip [OF _ n k]) simp_all
      moreover have "set (ws @ b # vs) = ?own - {a}" using rest snoc by simp
      ultimately have "\<exists>bs. lpath (fl_heap (lk s1)) fl_next_txn p bs None \<and> set bs = ?own - {a}"
        if "(t, p) \<in> set (txn_view (head_txn_list s1))" for p
        using uniq that S by (intro exI [of _ "ws @ b # vs"]) auto
      then show ?thesis using S k bown by auto
    qed
  have field: "map_option F (fl_heap (lk s1) b) = map_option F (fl_heap ?m b)" if F: "\<And>y. F (y\<lparr>fl_next_txn := None\<rparr>) = F y" for F b
  proof -
    have "map_option F p = map_option F (map_option (\<lambda>x. x\<lparr>fl_next_txn := None\<rparr>) p)" for p by (cases p) (simp_all add: F)
    then show ?thesis using facts by metis
  qed
  have tb1: "table_ok (lk s1) xs"
    using tb by (rule table_ok_tab [rotated -1]) (use facts field [of fl_tab] in \<open>simp_all add: fl_tab_def\<close>)
  have vw: "parent_of (lk s1) b = parent_of ?m b" "grant_at (lk s1) b = grant_at ?m b" for b
    using field [of fl_parent_txn b] field [of fl_file_inode b] field [of fl_file_mode b]
    by (simp_all add: grant_at_def parent_of_alt ino_alt mode_of_alt)
  have id1: "same_id ?own ?m (lk s1)" "brk (lk s1) = brk ?m" using facts by (simp_all add: same_id_def)
  have nx: "map_option fl_next_txn (fl_heap (lk s1) b) = map_option fl_next_txn (fl_heap ?m b)" if "parent_of ?m b \<noteq> t" for b
    using facts that by (auto simp: owned_def)
  have "post (release_node (\<lambda>fd s. s) (\<lambda>fd s. s) a s1) (released {a} (remove1 a xs) s1)"
    using tb1 aown by (intro release_node_remove) (auto simp: owned_def)
  then show "post (release_node (\<lambda>fd s. s) (\<lambda>fd s. s) a s1) (let_go t f xs s)"
  proof (rule post_weaken)
    fix s2
    assume rel: "released {a} (remove1 a xs) s1 s2"
    have "lock_inv s2 (remove1 a xs)"
      by (rule lock_inv_drop [OF inv aown _ _ _ tb1 vw(1) nx rel]) (use facts in auto)
    moreover have r: "same_id {a} (lk s1) (lk s2)" "brk (lk s2) = brk ?m" using rel id1 by (simp_all add: released_def)
    moreover have "same_id ?own ?m (lk s2)"
      using same_id_trans [OF id1(1) r(1)] by (rule same_id_mono) (use aown in auto)
    moreover have "ino ?m a = f" using n u(2) by (simp add: ino_def)
    moreover have "grant_at (lk s2) b = grant_at ?m b" if "b \<noteq> a" for b
      using grant_at_same_id [OF r(1), of b] that vw by simp
    ultimately show "let_go t f xs s s2" using aown unfolding let_go_def by blast
  qed
qed

end
