(* ===== verification/Backup.thy ===== *)
theory Backup
  imports BackupRelease
begin

text \<open>
  The backup (backup_manager.c and \<open>on_bck_beg\<close>): one transaction, number 0, walks a directory tree
  with a stack of paths; it locks each file or directory exclusively, copies it, flips its sticky
  bit (which says whether the current backup has read it) and lets the lock go.  One turn of the
  loop in \<open>online_bck\<close> is one step, or two where it has to wait for the lock.  The stack is an array of
  200 places of which the first is not used, the paths are buffers of 300 bytes: what does not fit is
  a fault.  What \<open>stat\<close> answers may depend on the calls made before.
\<close>

section \<open>The stack\<close>

datatype file_kind = Dir | Reg | Other_kind

record stat_buf =
  sb_ino :: int
  sb_sticky :: bool
  sb_kind :: file_kind

record bck_vars =
  bs_stack :: "cstring list"      \<comment> \<open>top first\<close>
  bs_read_indicate :: int
  bs_path_buf :: stat_buf

text \<open>The answers of the file system: \<open>stat\<close>, which may depend on the calls made before, the names in a directory
  (\<open>None\<close> where it cannot be opened), \<open>open\<close>, and whether the two files that \<open>copying\<close> opens are there.\<close>

record bck_env =
  be_stat :: "fs_call list \<Rightarrow> cstring \<Rightarrow> stat_buf option"
  be_readdir :: "cstring \<Rightarrow> cstring list option"
  be_open :: "cstring \<Rightarrow> int"
  be_copying :: bool

definition is_read :: "bck_vars \<Rightarrow> int" where
  "is_read b = (if bs_read_indicate b = (if sb_sticky (bs_path_buf b) then 1 else 0) then 1 else 0)"

definition push :: "cstring \<Rightarrow> bck_vars \<Rightarrow> bck_vars option" where
  "push path b =
     (if length (bs_stack b) + 1 < 200 \<and> length path < 300 then Some (b\<lparr>bs_stack := path # bs_stack b\<rparr>) else None)"

text \<open>\<open>curr.path[path_len + 1]\<close> is written to.\<close>

definition pop :: "bck_vars \<Rightarrow> (cstring \<times> bck_vars) option" where
  "pop b = (case bs_stack b of [] \<Rightarrow> None
     | path # rest \<Rightarrow> if length path + 1 < 300 then Some (path, b\<lparr>bs_stack := rest\<rparr>) else None)"

section \<open>Copying\<close>

text \<open>\<open>lock_file\<close> and \<open>lock_directory\<close> are the same; a failing \<open>stat\<close> leaves the inode undefined.\<close>

definition lock_file :: "bck_env \<Rightarrow> cstring \<Rightarrow> int \<Rightarrow> server \<Rightarrow> (int \<times> lock_out \<times> server) option" where
  "lock_file env path rb s = do {
     buff \<leftarrow> be_stat env (fs_calls s) path;
     (search_ret, loc) \<leftarrow> search_file_list (sb_ino buff) (lk s);
     (out, s) \<leftarrow> insert_file_list (sb_ino buff) 1 0 rb search_ret loc s;
     Some (sb_ino buff, out, s) }"

definition lock_directory :: "bck_env \<Rightarrow> cstring \<Rightarrow> int \<Rightarrow> server \<Rightarrow> (int \<times> lock_out \<times> server) option" where
  "lock_directory env path rb s = lock_file env path rb s"

definition copy_inode :: "bck_vars \<Rightarrow> server \<Rightarrow> server" where
  "copy_inode b s = emit (Bck_write ([CHR 0x0A] @ take 19 (show_int (sb_ino (bs_path_buf b))) @ ''##'')) s"

text \<open>\<open>copying\<close> opens two files under fixed names, does not test the result, and moves records from one to the
  other through the stream pointers.\<close>

definition copying :: "bck_env \<Rightarrow> server \<Rightarrow> server option" where
  "copying env s = (if be_copying env then Some (emit Bck_copy s) else None)"

definition copy_directory :: "bck_env \<Rightarrow> cstring \<Rightarrow> server \<Rightarrow> server option" where
  "copy_directory env path s =
     (let str = ''copied contents of directory'' @ path in
      if length str < 300 then copying env (emit (Bck_write str) s) else None)"

definition copy_file :: "bck_env \<Rightarrow> cstring \<Rightarrow> server \<Rightarrow> server option" where
  "copy_file env path s =
     (let str = ''Copying file'' @ path in
      if length str < 300 then copying env (emit (Bck_write str) s) else None)"

definition mark_as_read :: "bck_vars \<Rightarrow> cstring \<Rightarrow> server \<Rightarrow> server" where
  "mark_as_read b path s = emit (Fs_chmod path (\<not> sb_sticky (bs_path_buf b))) s"

text \<open>The names that \<open>readdir\<close> returns, but for hidden ones, are pushed as paths.\<close>

fun push_children :: "cstring \<Rightarrow> cstring list \<Rightarrow> bck_vars \<Rightarrow> bck_vars option" where
  "push_children path [] b = Some b"
| "push_children path (name # names) b =
     (if hidden name then push_children path names b
      else do { b \<leftarrow> push (path @ CHR ''/'' # name) b; push_children path names b })"

definition set_offset :: "addr \<Rightarrow> (file_lock \<Rightarrow> file_lock) \<Rightarrow> server \<Rightarrow> server option" where
  "set_offset a g s = do { m \<leftarrow> fl_set (Some a) (\<lambda>n. (g n)\<lparr>fl_file_offset := 0\<rparr>) (lk s); Some (s\<lparr>lk := m\<rparr>) }"

text \<open>What follows once the directory, or the file, is locked.\<close>

definition copy_locked_dir :: "bck_env \<Rightarrow> cstring \<Rightarrow> bck_vars \<Rightarrow> addr \<Rightarrow> server \<Rightarrow> (bck_vars \<times> server) option" where
  "copy_locked_dir env path b a s = do {
     let s = copy_inode b s;
     s \<leftarrow> set_offset a (\<lambda>n. n) s;
     s \<leftarrow> copy_directory env path s;
     let s = mark_as_read b path s;
     names \<leftarrow> be_readdir env path;
     b \<leftarrow> push_children path names b;
     s \<leftarrow> release_locks_by_backup 0 (sb_ino (bs_path_buf b)) s;
     Some (b, s) }"

definition copy_locked_file :: "bck_env \<Rightarrow> cstring \<Rightarrow> bck_vars \<Rightarrow> addr \<Rightarrow> server \<Rightarrow> (bck_vars \<times> server) option" where
  "copy_locked_file env path b a s = do {
     let s = copy_inode b s;
     let fd = be_open env path;
     s \<leftarrow> set_offset a (\<lambda>n. n\<lparr>fl_fd := fd\<rparr>) s;
     s \<leftarrow> copy_file env path s;
     let s = mark_as_read b path s;
     s \<leftarrow> release_locks_by_backup 0 (sb_ino (bs_path_buf b)) s;
     Some (b, emit (Fs_close fd) s) }"

section \<open>The loop\<close>

text \<open>A refused request returns NULL, which the code dereferences.\<close>

datatype bck_out = Turn_done bck_vars | Bck_wait int lock_out cstring bck_vars

definition locked :: "bck_env \<Rightarrow> cstring \<Rightarrow> bck_vars \<Rightarrow> addr \<Rightarrow> server \<Rightarrow> (bck_out \<times> server) option" where
  "locked env path b a s = do {
     (b, s) \<leftarrow> (if sb_kind (bs_path_buf b) = Dir then copy_locked_dir env path b a s else copy_locked_file env path b a s);
     Some (Turn_done b, s) }"

definition bck_deliver :: "bck_env \<Rightarrow> int \<Rightarrow> cstring \<Rightarrow> bck_vars \<Rightarrow> lock_out \<times> server \<Rightarrow> (bck_out \<times> server) option" where
  "bck_deliver env f_inode path b r =
     (case r of (out, s) \<Rightarrow> (case out of
        Got a \<Rightarrow> locked env path b a s
      | Refused \<Rightarrow> None
      | _ \<Rightarrow> Some (Bck_wait f_inode out path b, s)))"

definition bck_turn :: "bck_env \<Rightarrow> int \<Rightarrow> bck_vars \<Rightarrow> server \<Rightarrow> (bck_out \<times> server) option" where
  "bck_turn env rb b s = do {
     (path, b) \<leftarrow> pop b;
     case be_stat env (fs_calls s) path of
       None \<Rightarrow> Some (Turn_done b, s)
     | Some buf \<Rightarrow> do {
         let b = b\<lparr>bs_path_buf := buf\<rparr>;
         if sb_kind buf = Other_kind then Some (Turn_done b, s)
         else do {
           (f_inode, r) \<leftarrow> (if sb_kind buf = Dir then lock_directory env path rb s else lock_file env path rb s);
           bck_deliver env f_inode path b r } } }"

text \<open>\<open>path_buf\<close> is a global: zero before its first use, and where \<open>stat\<close> fails it keeps what it held.\<close>

definition bck_start :: "bck_env \<Rightarrow> fs_call list \<Rightarrow> cstring \<Rightarrow> stat_buf \<Rightarrow> bck_vars option" where
  "bck_start env h root old = do {
     let buf = (case be_stat env h root of None \<Rightarrow> old | Some b \<Rightarrow> b);
     if length root < 300 then
       push root \<lparr>bs_stack = [], bs_read_indicate = (if sb_sticky buf then 0 else 1), bs_path_buf = buf\<rparr>
     else None }"

section \<open>The handler\<close>

definition bck_beg_start :: "bck_env \<Rightarrow> cstring \<Rightarrow> stat_buf \<Rightarrow> server \<Rightarrow> (bck_vars \<times> server) option" where
  "bck_beg_start env root old s = do {
     let s = s\<lparr>BACKUP := ACTIVE\<rparr>;
     (LRN, s) \<leftarrow> log_txn_beg 0 s;
     let s = new_txn_insert 0 LRN s;
     b \<leftarrow> bck_start env (fs_calls s) root old;
     Some (b, s) }"

definition bck_beg_finish :: "server \<Rightarrow> server option" where
  "bck_beg_finish s = do {
     prev_LRN \<leftarrow> get_prev_log_LRN 0 s;
     s \<leftarrow> txn_delete 0 s;
     (_, s) \<leftarrow> log_txn_end 0 prev_LRN s;
     Some (s\<lparr>BACKUP := INACTIVE\<rparr>) }"

text \<open>The backup on its own, with nobody in its way: the loop runs to the end of the stack.\<close>

fun bck_loop :: "nat \<Rightarrow> bck_env \<Rightarrow> int \<Rightarrow> bck_vars \<Rightarrow> server \<Rightarrow> (bck_vars \<times> server) option" where
  "bck_loop 0 env rb b s = None"
| "bck_loop (Suc k) env rb b s =
     (if bs_stack b = [] then Some (b, s)
      else do {
        (out, s) \<leftarrow> bck_turn env rb b s;
        case out of Turn_done b \<Rightarrow> bck_loop k env rb b s | Bck_wait _ _ _ _ \<Rightarrow> None })"

definition on_bck_beg :: "nat \<Rightarrow> bck_env \<Rightarrow> int \<Rightarrow> cstring \<Rightarrow> stat_buf \<Rightarrow> server \<Rightarrow> server option" where
  "on_bck_beg fuel env rb root old s = do {
     (b, s) \<leftarrow> bck_beg_start env root old s;
     (_, s) \<leftarrow> bck_loop fuel env rb b s;
     bck_beg_finish s }"

section \<open>The order of the backup\<close>

definition children :: "bck_env \<Rightarrow> cstring \<Rightarrow> cstring list" where
  "children env p = map (\<lambda>n. p @ CHR ''/'' # n) (filter (\<lambda>n. \<not> hidden n) (case be_readdir env p of None \<Rightarrow> [] | Some ns \<Rightarrow> ns))"

text \<open>The same walk as a recursion on the tree, to depth \<open>d\<close>, as it was after the calls \<open>h\<close>: the entries of a
  directory come after it, the last one first, each with all that is below it.\<close>

fun bck_tree :: "nat \<Rightarrow> bck_env \<Rightarrow> fs_call list \<Rightarrow> cstring \<Rightarrow> cstring list" where
  "bck_tree 0 env h p = []"
| "bck_tree (Suc d) env h p =
     (case be_stat env h p of
        None \<Rightarrow> []
      | Some b \<Rightarrow> (case sb_kind b of Other_kind \<Rightarrow> [] | Reg \<Rightarrow> [p]
          | Dir \<Rightarrow> p # concat (map (bck_tree d env h) (rev (children env p)))))"

text \<open>The tree below \<open>p\<close> has depth at most \<open>d\<close>, its directories open, and it fits the buffers and a
  stack that holds \<open>r\<close> paths already.\<close>

fun tree_fits :: "nat \<Rightarrow> bck_env \<Rightarrow> fs_call list \<Rightarrow> nat \<Rightarrow> cstring \<Rightarrow> bool" where
  "tree_fits 0 env h r p = False"
| "tree_fits (Suc d) env h r p =
     (length p + 1 < 300 \<and>
      (case be_stat env h p of
         None \<Rightarrow> True
       | Some b \<Rightarrow> (case sb_kind b of Other_kind \<Rightarrow> True | Reg \<Rightarrow> length p + 12 < 300
           | Dir \<Rightarrow> length p + 28 < 300 \<and> be_readdir env p \<noteq> None \<and> r + length (children env p) < 200 \<and>
               list_all (tree_fits d env h (r + length (children env p))) (children env p))))"

lemma tree_fits_mono: "tree_fits d env h r p \<Longrightarrow> q \<le> r \<Longrightarrow> tree_fits d env h q p"
proof (induction d arbitrary: q r p)
  case 0
  then show ?case by simp
next
  case (Suc d)
  then have "list_all (tree_fits d env h (q + length (children env p))) (children env p)"
    if "list_all (tree_fits d env h (r + length (children env p))) (children env p)"
    using that by (auto simp: list_all_iff)
  then show ?case using Suc.prems by (auto split: option.splits file_kind.splits)
qed

lemma tree_fits_length: "tree_fits d env h r p \<Longrightarrow> length p + 1 < 300"
  by (cases d) auto

lemma push_children_all:
  "length (bs_stack b) + length (filter (\<lambda>n. \<not> hidden n) names) < 200 \<Longrightarrow>
   (\<And>n. n \<in> set names \<Longrightarrow> \<not> hidden n \<Longrightarrow> length (path @ CHR ''/'' # n) < 300) \<Longrightarrow>
   push_children path names b = Some (b\<lparr>bs_stack := rev (map (\<lambda>n. path @ CHR ''/'' # n) (filter (\<lambda>n. \<not> hidden n) names)) @ bs_stack b\<rparr>)"
  by (induction path names b rule: push_children.induct) (auto simp: push_def split: if_splits)

text \<open>What the backup asks of the file system beside \<open>stat\<close> and \<open>readdir\<close>, and what \<open>chmod\<close> is documented to do:
  it changes the mode of the file that the path names, under whatever path that is looked at later.
  The other calls of the backup change no mode.\<close>

fun bck_call :: "fs_call \<Rightarrow> bool" where
  "bck_call (Fs_chmod p x) = True"
| "bck_call (Bck_write bs) = True"
| "bck_call Bck_copy = True"
| "bck_call (Fs_close fd) = True"
| "bck_call Flush_log = True"
| "bck_call _ = False"

fun stat_after :: "fs_call \<Rightarrow> (cstring \<Rightarrow> stat_buf option) \<Rightarrow> cstring \<Rightarrow> stat_buf option" where
  "stat_after (Fs_chmod q x) look p = (case look q of
       None \<Rightarrow> look p
     | Some a \<Rightarrow> map_option (\<lambda>b. if sb_ino b = sb_ino a then b\<lparr>sb_sticky := x\<rparr> else b) (look p))"
| "stat_after _ look p = look p"

definition chmod_works :: "bck_env \<Rightarrow> bool" where
  "chmod_works env \<longleftrightarrow> (\<forall>h c p. bck_call c \<longrightarrow> be_stat env (h @ [c]) p = stat_after c (be_stat env h) p)"

text \<open>No locks, no waiters, and the backup transaction is running.\<close>

definition alone :: "server \<Rightarrow> bool" where
  "alone s \<longleftrightarrow> mem_ok (lk s) \<and> head_lock_list (lk s) = None \<and> head_wait_list s = [] \<and>
     \<not> log_mutex s \<and> txns_ok (head_txn_list s) \<and> map_option tn_file_rec_no (find_txn 0 (head_txn_list s)) = Some None"

fun chmods :: "fs_call list \<Rightarrow> (cstring \<times> bool) list" where
  "chmods [] = []"
| "chmods (c # cs) = (case c of Fs_chmod p x \<Rightarrow> (p, x) # chmods cs | _ \<Rightarrow> chmods cs)"

lemma chmods_append [simp]: "chmods (as @ bs) = chmods as @ chmods bs"
  by (induction as) (auto split: fs_call.splits)

text \<open>The lock is granted at once.\<close>

definition alone_locked :: "int \<Rightarrow> addr \<Rightarrow> server \<Rightarrow> bool" where
  "alone_locked f a s \<longleftrightarrow> mem_ok (lk s) \<and> head_lock_list (lk s) = Some a \<and> head_wait_list s = [] \<and>
     \<not> log_mutex s \<and> txns_ok (head_txn_list s) \<and> map_option tn_file_rec_no (find_txn 0 (head_txn_list s)) = Some (Some a) \<and>
     (\<exists>n. fl_heap (lk s) a = Some n \<and> fl_file_inode n = f \<and> fl_prev n = Some a \<and> fl_next n = None \<and> fl_next_txn n = None)"

lemma lock_alone:
  assumes "alone s" and "be_stat env (fs_calls s) p = Some buf"
  shows "\<exists>a s'. lock_file env p rb s = Some (sb_ino buf, Got a, s') \<and> alone_locked (sb_ino buf) a s' \<and> fs_calls s' = fs_calls s"
proof -
  let ?f = "sb_ino buf" and ?a = "brk (lk s)"
  let ?n = "get_file_node ?f 0 1 0"
  let ?m = "(lk s)\<lparr>fl_heap := (fl_heap (lk s))(?a \<mapsto> ?n), brk := Suc ?a\<rparr>"
  let ?m1 = "(lk s)\<lparr>fl_heap := (fl_heap (lk s))(?a \<mapsto> ?n\<lparr>fl_prev := Some ?a\<rparr>), brk := Suc ?a, head_lock_list := Some ?a\<rparr>"
  have ok: "mem_ok (lk s)" "head_lock_list (lk s) = None" "head_wait_list s = []" using assms(1) by (simp_all add: alone_def)
  obtain t where t: "find_txn 0 (head_txn_list s) = Some t" "tn_file_rec_no t = None" using assms(1) by (auto simp: alone_def)
  let ?g = "\<lambda>t. t\<lparr>tn_file_rec_no := Some ?a, tn_before_after := rb\<rparr>"
  obtain ts where ts: "upd_txn 0 ?g (head_txn_list s) = Some ts" using upd_txn_None_iff [of 0 ?g "head_txn_list s"] t(1) by fastforce
  have f: "find_txn 0 ts = Some (?g t)" using find_upd_txn [OF _ ts, of 0] t(1) by simp
  have ts_ok: "\<not> log_mutex s" "txns_ok ts" using txns_ok_upd [OF _ _ ts] assms(1) by (simp_all add: alone_def alone_locked_def)
  have "search_file_list ?f (lk s) = Some (0, None)" using ok(1,2) search_Nil [of "lk s" ?f] by (simp add: lock_list_def)
  moreover have "link_unlocked ?a ?f None ?m = Some ?m1" by (simp add: link_unlocked_def fl_set_def)
  moreover have "insert_same_txn_list 0 rb ?a (s\<lparr>lk := ?m1\<rparr>) = Some (s\<lparr>lk := ?m1, head_txn_list := ts\<rparr>)"
    using t ts by (simp add: insert_same_txn_list_def set_txn_def)
  ultimately have "lock_file env p rb s = Some (?f, Got ?a, s\<lparr>lk := ?m1, head_txn_list := ts\<rparr>)"
    using assms(2) t(1) by (simp add: lock_file_def insert_file_list_def grant_unlocked_def fl_alloc_def)
  moreover have "mem_ok ?m1" using ok(1) by (auto simp: mem_ok_def less_SucI)
  ultimately show ?thesis using ok f ts_ok by (intro exI [of _ ?a] exI [of _ "s\<lparr>lk := ?m1, head_txn_list := ts\<rparr>"])
    (auto simp: alone_locked_def get_file_node_def)
qed

lemma release_alone:
  assumes "alone_locked f a s"
  shows "\<exists>s'. release_locks_by_backup 0 f s = Some s' \<and> alone s' \<and> fs_calls s' = fs_calls s"
proof -
  obtain n where n: "fl_heap (lk s) a = Some n" "fl_file_inode n = f" "fl_prev n = Some a" "fl_next n = None" "fl_next_txn n = None"
    and ok: "mem_ok (lk s)" "head_lock_list (lk s) = Some a" "head_wait_list s = []"
    using assms by (auto simp: alone_locked_def)
  obtain t where t: "find_txn 0 (head_txn_list s) = Some t" "tn_file_rec_no t = Some a" using assms by (auto simp: alone_locked_def)
  let ?g = "\<lambda>t. t\<lparr>tn_file_rec_no := None\<rparr>"
  obtain ts where ts: "upd_txn 0 ?g (head_txn_list s) = Some ts" using upd_txn_None_iff [of 0 ?g "head_txn_list s"] t(1) by fastforce
  have f: "find_txn 0 ts = Some (?g t)" using find_upd_txn [OF _ ts, of 0] t(1) by simp
  have ts_ok: "\<not> log_mutex s" "txns_ok ts" using txns_ok_upd [OF _ _ ts] assms(1) by (simp_all add: alone_def alone_locked_def)
  let ?m = "(lk s)\<lparr>head_lock_list := None, fl_heap := (fl_heap (lk s))(a := None)\<rparr>"
  have m: "delete_file_list a (lk s) = Some ?m" "mem_ok ?m"
    using n ok mem_ok_upd(2,3) [of "lk s"] free_file_node_eq [of "(lk s)\<lparr>head_lock_list := None\<rparr>" a n]
    by (simp_all add: delete_file_list_def mem_ok_def)
  have "release_locks_by_backup 0 f s = Some (s\<lparr>head_txn_list := ts, lk := ?m\<rparr>)"
    using t ts n ok m by (simp add: release_locks_by_backup_def set_txn_def release_node_def)
  then show ?thesis using f ok m ts_ok by (auto simp: alone_def)
qed

lemma set_offset_alone:
  assumes "alone_locked f a s" and "\<And>n. fl_file_inode (g n) = fl_file_inode n \<and> fl_prev (g n) = fl_prev n \<and> fl_next (g n) = fl_next n \<and> fl_next_txn (g n) = fl_next_txn n"
  shows "\<exists>s'. set_offset a g s = Some s' \<and> alone_locked f a s' \<and> fs_calls s' = fs_calls s"
proof -
  obtain n where n: "fl_heap (lk s) a = Some n" using assms(1) by (auto simp: alone_locked_def)
  then have "set_offset a g s = Some (s\<lparr>lk := (lk s)\<lparr>fl_heap := (fl_heap (lk s))(a \<mapsto> (g n)\<lparr>fl_file_offset := 0\<rparr>)\<rparr>\<rparr>)"
    by (simp add: set_offset_def fl_set_def)
  moreover have "mem_ok ((lk s)\<lparr>fl_heap := (fl_heap (lk s))(a \<mapsto> (g n)\<lparr>fl_file_offset := 0\<rparr>)\<rparr>)"
    using assms(1) n mem_ok_upd(1) by (auto simp: alone_locked_def)
  ultimately show ?thesis using assms n by (auto simp: alone_locked_def)
qed

lemma alone_emit [simp]: "alone (emit c s) = alone s" "alone_locked f a (emit c s) = alone_locked f a s" "fs_calls (emit c s) = fs_calls s @ [c]"
  by (simp_all add: alone_def alone_locked_def emit_def)

text \<open>The file a path names, and what is below it.\<close>

definition ino_at :: "bck_env \<Rightarrow> fs_call list \<Rightarrow> cstring \<Rightarrow> int" where
  "ino_at env h p = (case be_stat env h p of None \<Rightarrow> - 1 | Some b \<Rightarrow> sb_ino b)"

definition bck_below :: "bck_env \<Rightarrow> fs_call list \<Rightarrow> cstring \<Rightarrow> cstring list" where
  "bck_below env h p = (case be_stat env h p of None \<Rightarrow> [] | Some b \<Rightarrow> (if sb_kind b = Dir then rev (children env p) else []))"

definition visited :: "bck_env \<Rightarrow> fs_call list \<Rightarrow> cstring \<Rightarrow> cstring list" where
  "visited env h p = (case be_stat env h p of None \<Rightarrow> [] | Some b \<Rightarrow> (if sb_kind b = Other_kind then [] else [p]))"

definition flipped :: "bck_env \<Rightarrow> fs_call list \<Rightarrow> cstring \<Rightarrow> cstring \<times> bool" where
  "flipped env h p = (p, case be_stat env h p of None \<Rightarrow> True | Some b \<Rightarrow> \<not> sb_sticky b)"

definition flip :: "stat_buf \<Rightarrow> stat_buf" where
  "flip b = b\<lparr>sb_sticky := \<not> sb_sticky b\<rparr>"

lemma bck_tree_Suc: "bck_tree (Suc d) env h p = visited env h p @ concat (map (bck_tree d env h) (bck_below env h p))"
  by (auto simp: visited_def bck_below_def split: option.splits file_kind.splits)

lemma visited_stat: "q \<in> set (visited env h p) \<Longrightarrow> be_stat env h q \<noteq> None"
  by (cases "be_stat env h p") (auto simp: visited_def split: if_splits)

lemma bck_tree_stat: "q \<in> set (bck_tree d env h p) \<Longrightarrow> be_stat env h q \<noteq> None"
proof (induction d arbitrary: p)
  case 0
  then show ?case by simp
next
  case (Suc d)
  then show ?case using visited_stat unfolding bck_tree_Suc by fastforce
qed

lemma distinct_front: "distinct (map f (xs @ ys @ zs)) \<Longrightarrow> distinct (map f (xs @ ys))"
  unfolding append_assoc [symmetric] map_append [of f "xs @ ys"] by (rule distinct_append [THEN iffD1, THEN conjunct1])

lemma stat_snoc: "chmod_works env \<Longrightarrow> bck_call c \<Longrightarrow> be_stat env (h @ cs @ [c]) p = stat_after c (be_stat env (h @ cs)) p"
  unfolding chmod_works_def append_assoc [symmetric] by blast

section \<open>What the chmods of the walk do to the tree\<close>

lemma stat_same_file:
  assumes "chmod_works env"
  shows "list_all bck_call cs \<Longrightarrow>
    map_option (\<lambda>b. (sb_ino b, sb_kind b)) (be_stat env (h @ cs) p) = map_option (\<lambda>b. (sb_ino b, sb_kind b)) (be_stat env h p)"
proof (induction cs rule: rev_induct)
  case Nil
  then show ?case by simp
next
  case (snoc c cs)
  have "be_stat env (h @ cs @ [c]) p = stat_after c (be_stat env (h @ cs)) p"
    using stat_snoc [OF assms] snoc.prems by simp
  then show ?case using snoc by (cases c; cases "be_stat env (h @ cs) p") (auto split: option.splits)
qed

lemma stat_untouched:
  assumes "chmod_works env"
  shows "list_all bck_call cs \<Longrightarrow> be_stat env h p = Some b \<Longrightarrow>
    (\<And>q x. (q, x) \<in> set (chmods cs) \<Longrightarrow> be_stat env h q \<noteq> None \<and> ino_at env h q \<noteq> sb_ino b) \<Longrightarrow> be_stat env (h @ cs) p = Some b"
proof (induction cs rule: rev_induct)
  case Nil
  then show ?case by simp
next
  case (snoc c cs)
  have s: "be_stat env (h @ cs @ [c]) p = stat_after c (be_stat env (h @ cs)) p"
    using stat_snoc [OF assms] snoc.prems(1) by simp
  have p: "be_stat env (h @ cs) p = Some b"
  proof (rule snoc.IH)
    show "be_stat env h q \<noteq> None \<and> ino_at env h q \<noteq> sb_ino b" if "(q, x) \<in> set (chmods cs)" for q x
      using snoc.prems(3) [of q x] that by simp
  qed (use snoc.prems(1,2) in simp_all)
  show ?case
  proof (cases c)
    case (Fs_chmod q x)
    then have q: "be_stat env h q \<noteq> None" "ino_at env h q \<noteq> sb_ino b" using snoc.prems(3) [of q x] by simp_all
    obtain a where "be_stat env (h @ cs) q = Some a" "sb_ino a = ino_at env h q"
      using stat_same_file [OF assms, of cs h q] snoc.prems(1) q(1) by (auto simp: ino_at_def)
    then show ?thesis using s p q(2) Fs_chmod by simp
  qed (use s p snoc.prems(1) in auto)
qed

lemma stat_flipped:
  assumes "chmod_works env"
  shows "list_all bck_call cs \<Longrightarrow> chmods cs = map (flipped env h) ps \<Longrightarrow> distinct (map (ino_at env h) ps) \<Longrightarrow>
    (\<And>q. q \<in> set ps \<Longrightarrow> be_stat env h q \<noteq> None) \<Longrightarrow> p \<in> set ps \<Longrightarrow> be_stat env (h @ cs) p = map_option flip (be_stat env h p)"
proof (induction cs arbitrary: ps rule: rev_induct)
  case Nil
  then show ?case by simp
next
  case (snoc c cs)
  have s: "be_stat env (h @ cs @ [c]) p = stat_after c (be_stat env (h @ cs)) p"
    using stat_snoc [OF assms] snoc.prems(1) by simp
  obtain b where b: "be_stat env h p = Some b" using snoc.prems(4,5) by blast
  show ?case
  proof (cases c)
    case (Fs_chmod q x)
    then obtain qs where ps: "ps = qs @ [q]" "chmods cs = map (flipped env h) qs" "x = snd (flipped env h q)"
      using snoc.prems(2) by (cases ps rule: rev_cases) (auto simp: flipped_def)
    obtain a where a: "be_stat env h q = Some a" using snoc.prems(4) [of q] ps(1) by auto
    obtain a' where a': "be_stat env (h @ cs) q = Some a'" "sb_ino a' = sb_ino a"
      using stat_same_file [OF assms, of cs h q] snoc.prems(1) a by auto
    show ?thesis
    proof (cases "p \<in> set qs")
      case True
      then have "be_stat env (h @ cs) p = Some (flip b)" using snoc.IH [of qs] snoc.prems ps(1,2) b by simp
      moreover have "sb_ino b \<noteq> sb_ino a" using True snoc.prems(3) ps(1) a b by (force simp: ino_at_def)
      ultimately show ?thesis using s Fs_chmod a' b by (simp add: flip_def)
    next
      case False
      then have pq: "p = q" using snoc.prems(5) ps(1) by simp
      have "be_stat env h r \<noteq> None \<and> ino_at env h r \<noteq> sb_ino b" if "(r, y) \<in> set (chmods cs)" for r y
      proof -
        have r: "r \<in> set qs" using that ps(2) by (auto simp: flipped_def)
        moreover have "ino_at env h q \<notin> ino_at env h ` set qs" using snoc.prems(3) ps(1) by simp
        ultimately have "ino_at env h r \<noteq> ino_at env h q" by (metis imageI)
        then show ?thesis using r snoc.prems(4) [of r] ps(1) b pq by (simp add: ino_at_def)
      qed
      then have "be_stat env (h @ cs) p = Some b" using snoc.prems(1) b by (intro stat_untouched [OF assms]) auto
      then show ?thesis using s Fs_chmod pq b ps(3) by (simp add: flip_def flipped_def)
    qed
  qed (use s snoc in auto)
qed

text \<open>The backup is alone and has marked the paths \<open>done\<close> of the tree as it was after \<open>h\<close>.\<close>

definition walked :: "bck_env \<Rightarrow> fs_call list \<Rightarrow> cstring list \<Rightarrow> server \<Rightarrow> bool" where
  "walked env h ps s \<longleftrightarrow> alone s \<and> (\<forall>q \<in> set ps. be_stat env h q \<noteq> None) \<and>
     (\<exists>cs. fs_calls s = h @ cs \<and> list_all bck_call cs \<and> chmods cs = map (flipped env h) ps)"

lemma walked_more:
  assumes "walked env h ps s" and "alone s'" and "fs_calls s' = fs_calls s @ cs" and "list_all bck_call cs"
    and "chmods cs = map (flipped env h) qs" and "\<And>q. q \<in> set qs \<Longrightarrow> be_stat env h q \<noteq> None"
  shows "walked env h (ps @ qs) s'"
proof -
  obtain ds where "fs_calls s = h @ ds" "list_all bck_call ds" "chmods ds = map (flipped env h) ps"
    using assms(1) by (auto simp: walked_def)
  then show ?thesis using assms by (auto simp: walked_def intro!: exI [of _ "ds @ cs"])
qed

lemma walked_stat:
  assumes cw: "chmod_works env" and w: "walked env h ps s"
  shows "be_stat env h p = None \<Longrightarrow> be_stat env (fs_calls s) p = None"
    "be_stat env h p = Some b \<Longrightarrow> \<exists>b'. be_stat env (fs_calls s) p = Some b' \<and> sb_kind b' = sb_kind b"
    "be_stat env h p = Some b \<Longrightarrow> sb_ino b \<notin> ino_at env h ` set ps \<Longrightarrow> be_stat env (fs_calls s) p = Some b"
proof -
  obtain cs where cs: "fs_calls s = h @ cs" "list_all bck_call cs" "chmods cs = map (flipped env h) ps"
    using w by (auto simp: walked_def)
  note sf = stat_same_file [OF cw cs(2), of h p]
  show "be_stat env h p = None \<Longrightarrow> be_stat env (fs_calls s) p = None" using sf cs(1) by simp
  show "\<exists>b'. be_stat env (fs_calls s) p = Some b' \<and> sb_kind b' = sb_kind b" if "be_stat env h p = Some b"
    using sf cs(1) that by auto
  show "be_stat env (fs_calls s) p = Some b" if a: "be_stat env h p = Some b" "sb_ino b \<notin> ino_at env h ` set ps"
    unfolding cs(1)
  proof (rule stat_untouched [OF cw cs(2) a(1)])
    fix q x
    assume "(q, x) \<in> set (chmods cs)"
    then have "q \<in> set ps" using cs(3) by (auto simp: flipped_def)
    then show "be_stat env h q \<noteq> None \<and> ino_at env h q \<noteq> sb_ino b" using w a(2) by (force simp: walked_def)
  qed
qed

section \<open>One turn\<close>

lemma locked_alone:
  assumes l: "alone_locked (sb_ino (bs_path_buf b)) a s" and cp: "be_copying env" and fit: "tree_fits (Suc d) env h (length (bs_stack b)) p"
    and st: "be_stat env h p = Some (bs_path_buf b)" and k: "sb_kind (bs_path_buf b) \<noteq> Other_kind"
  shows "\<exists>b' s' cs. locked env p b a s = Some (Turn_done b', s') \<and> bs_stack b' = bck_below env h p @ bs_stack b \<and> alone s' \<and>
     fs_calls s' = fs_calls s @ cs \<and> list_all bck_call cs \<and> chmods cs = map (flipped env h) (visited env h p)"
proof -
  let ?f = "sb_ino (bs_path_buf b)"
  have off: "\<exists>s2. set_offset a g (copy_inode b s) = Some s2 \<and> alone_locked ?f a s2 \<and> fs_calls s2 = fs_calls (copy_inode b s)"
    if "\<And>n. fl_file_inode (g n) = fl_file_inode n \<and> fl_prev (g n) = fl_prev n \<and> fl_next (g n) = fl_next n \<and> fl_next_txn (g n) = fl_next_txn n" for g
    using set_offset_alone [of ?f a "copy_inode b s" g] l that by (simp add: copy_inode_def)
  have rel: "\<exists>s4. release_locks_by_backup 0 ?f (mark_as_read b p s3) = Some s4 \<and> alone s4 \<and> fs_calls s4 = fs_calls (mark_as_read b p s3)"
    if "alone_locked ?f a s3" for s3
    using release_alone [of ?f a "mark_as_read b p s3"] that by (simp add: mark_as_read_def)
  show ?thesis
  proof (cases "sb_kind (bs_path_buf b) = Dir")
    case True
    obtain s2 where s2: "set_offset a (\<lambda>n. n) (copy_inode b s) = Some s2" "alone_locked ?f a s2" "fs_calls s2 = fs_calls (copy_inode b s)"
      using off [of "\<lambda>n. n"] by auto
    let ?s3 = "emit Bck_copy (emit (Bck_write (''copied contents of directory'' @ p)) s2)"
    have s3: "copy_directory env p s2 = Some ?s3" using fit st True cp by (simp add: copy_directory_def copying_def)
    obtain s4 where s4: "release_locks_by_backup 0 ?f (mark_as_read b p ?s3) = Some s4" "alone s4" "fs_calls s4 = fs_calls (mark_as_read b p ?s3)"
      using rel [of ?s3] s2(2) by auto
    obtain names where names: "be_readdir env p = Some names" using fit st True by auto
    have ch: "children env p = map (\<lambda>n. p @ CHR ''/'' # n) (filter (\<lambda>n. \<not> hidden n) names)" by (simp add: children_def names)
    have "length c + 1 < 300" if "c \<in> set (children env p)" for c
      using that fit st True tree_fits_length by (fastforce simp: list_all_iff)
    then have "length (p @ CHR ''/'' # n) < 300" if "n \<in> set names" "\<not> hidden n" for n
      using that unfolding ch by fastforce
    then have pc: "push_children p names b = Some (b\<lparr>bs_stack := rev (children env p) @ bs_stack b\<rparr>)"
      using push_children_all [of b names p] fit st True by (simp add: ch)
    have "locked env p b a s = Some (Turn_done (b\<lparr>bs_stack := rev (children env p) @ bs_stack b\<rparr>), s4)"
      using True s2(1) s3 s4(1) names pc by (simp add: locked_def copy_locked_dir_def Let_def)
    then show ?thesis using s4(2,3) s2(3) st True
      by (auto simp: bck_below_def visited_def flipped_def mark_as_read_def copy_inode_def)
  next
    case False
    then have reg: "sb_kind (bs_path_buf b) = Reg" using k by (cases "sb_kind (bs_path_buf b)") auto
    let ?g = "\<lambda>n. n\<lparr>fl_fd := be_open env p\<rparr>"
    obtain s2 where s2: "set_offset a ?g (copy_inode b s) = Some s2" "alone_locked ?f a s2" "fs_calls s2 = fs_calls (copy_inode b s)"
      using off [of ?g] by auto
    let ?s3 = "emit Bck_copy (emit (Bck_write (''Copying file'' @ p)) s2)"
    have s3: "copy_file env p s2 = Some ?s3" using fit st reg cp by (simp add: copy_file_def copying_def)
    obtain s4 where s4: "release_locks_by_backup 0 ?f (mark_as_read b p ?s3) = Some s4" "alone s4" "fs_calls s4 = fs_calls (mark_as_read b p ?s3)"
      using rel [of ?s3] s2(2) by auto
    have "locked env p b a s = Some (Turn_done b, emit (Fs_close (be_open env p)) s4)"
      using reg s2(1) s3 s4(1) by (simp add: locked_def copy_locked_file_def Let_def)
    then show ?thesis using s4(2,3) s2(3) st reg
      by (auto simp: bck_below_def visited_def flipped_def mark_as_read_def copy_inode_def)
  qed
qed

lemma turn_alone:
  assumes env: "chmod_works env" "be_copying env" and w: "walked env h ps s" and fit: "tree_fits (Suc d) env h (length rest) p"
    and b: "bs_stack b = p # rest" and new: "distinct (map (ino_at env h) (ps @ visited env h p))"
  shows "\<exists>b' s'. bck_turn env rb b s = Some (Turn_done b', s') \<and> bs_stack b' = bck_below env h p @ rest \<and> walked env h (ps @ visited env h p) s'"
proof -
  have pop: "pop b = Some (p, b\<lparr>bs_stack := rest\<rparr>)" using fit b by (simp add: pop_def)
  show ?thesis
  proof (cases "be_stat env h p")
    case None
    then show ?thesis using pop w walked_stat(1) [OF env(1) w None] by (simp add: bck_turn_def bck_below_def visited_def)
  next
    case (Some buf)
    show ?thesis
    proof (cases "sb_kind buf = Other_kind")
      case True
      then show ?thesis using pop w Some walked_stat(2) [OF env(1) w Some] by (auto simp: bck_turn_def bck_below_def visited_def)
    next
      case False
      let ?b = "b\<lparr>bs_stack := rest, bs_path_buf := buf\<rparr>"
      have "sb_ino buf \<notin> ino_at env h ` set ps" using new Some False by (auto simp: visited_def ino_at_def)
      then have now: "be_stat env (fs_calls s) p = Some buf" using walked_stat(3) [OF env(1) w Some] by blast
      have al: "alone s" using w by (simp add: walked_def)
      obtain a s1 where s1: "lock_file env p rb s = Some (sb_ino buf, Got a, s1)" "alone_locked (sb_ino buf) a s1" "fs_calls s1 = fs_calls s"
        using lock_alone [OF al now] by blast
      have turn: "bck_turn env rb b s = locked env p ?b a s1"
        using pop now False s1(1) by (auto simp: bck_turn_def lock_directory_def bck_deliver_def)
      obtain b' s' cs where L: "locked env p ?b a s1 = Some (Turn_done b', s')" "bs_stack b' = bck_below env h p @ rest" "alone s'"
          "fs_calls s' = fs_calls s1 @ cs" "list_all bck_call cs" "chmods cs = map (flipped env h) (visited env h p)"
        using locked_alone [of ?b a s1 env d h p] s1(2) env(2) fit Some False by auto
      have "walked env h (ps @ visited env h p) s'"
        using L(4) s1(3) by (intro walked_more [OF w L(3) _ L(5,6) visited_stat]) simp_all
      then show ?thesis using turn L(1,2) by auto
    qed
  qed
qed

section \<open>The whole walk\<close>

text \<open>The number of turns for a tree: one for each path, whatever is there.\<close>

fun bck_turns :: "nat \<Rightarrow> bck_env \<Rightarrow> fs_call list \<Rightarrow> cstring \<Rightarrow> nat" where
  "bck_turns 0 env h p = 0"
| "bck_turns (Suc d) env h p = Suc (sum_list (map (bck_turns d env h) (bck_below env h p)))"

lemma bck_loop_list:
  assumes step: "\<And>b s c cs ps. c \<in> set xs \<Longrightarrow> walked env h ps s \<Longrightarrow> distinct (map (ino_at env h) (ps @ F c)) \<Longrightarrow>
       bs_stack b = c # cs @ rest \<Longrightarrow> length cs < length xs \<Longrightarrow>
       \<exists>b' s'. (\<forall>j. bck_loop (T c + j) env rb b s = bck_loop j env rb b' s') \<and> bs_stack b' = cs @ rest \<and> walked env h (ps @ F c) s'"
  shows "walked env h ps s \<Longrightarrow> distinct (map (ino_at env h) (ps @ concat (map F qs))) \<Longrightarrow> bs_stack b = qs @ rest \<Longrightarrow>
     set qs \<subseteq> set xs \<Longrightarrow> length qs \<le> length xs \<Longrightarrow>
     \<exists>b' s'. (\<forall>j. bck_loop (sum_list (map T qs) + j) env rb b s = bck_loop j env rb b' s') \<and> bs_stack b' = rest \<and>
       walked env h (ps @ concat (map F qs)) s'"
proof (induction qs arbitrary: b s ps)
  case Nil
  then show ?case by auto
next
  case (Cons c cs)
  have c: "c \<in> set xs" "length cs < length xs" using Cons.prems(4,5) by simp_all
  have d: "distinct (map (ino_at env h) (ps @ F c))"
    using Cons.prems(2) by (rule_tac distinct_front [of _ _ _ "concat (map F cs)"]) simp
  obtain b1 s1 where 1: "\<And>j. bck_loop (T c + j) env rb b s = bck_loop j env rb b1 s1" "bs_stack b1 = cs @ rest" "walked env h (ps @ F c) s1"
    using step [OF c(1) Cons.prems(1) d Cons.prems(3) [unfolded append_Cons] c(2)] by blast
  obtain b2 s2 where 2: "\<And>j. bck_loop (sum_list (map T cs) + j) env rb b1 s1 = bck_loop j env rb b2 s2" "bs_stack b2 = rest"
      "walked env h ((ps @ F c) @ concat (map F cs)) s2"
    using Cons.IH [OF 1(3) _ 1(2)] Cons.prems(2,4,5) by (auto simp del: distinct_map)
  have "bck_loop (sum_list (map T (c # cs)) + j) env rb b s = bck_loop j env rb b2 s2" for j
    using 1(1) [of "sum_list (map T cs) + j"] 2(1) [of j] by (simp add: add.assoc)
  then show ?case using 2 by auto
qed

lemma bck_loop_tree:
  assumes env: "chmod_works env" "be_copying env"
  shows "tree_fits d env h (length rest) p \<Longrightarrow> walked env h ps s \<Longrightarrow> distinct (map (ino_at env h) (ps @ bck_tree d env h p)) \<Longrightarrow>
   bs_stack b = p # rest \<Longrightarrow>
   \<exists>b' s'. (\<forall>j. bck_loop (bck_turns d env h p + j) env rb b s = bck_loop j env rb b' s') \<and> bs_stack b' = rest \<and>
     walked env h (ps @ bck_tree d env h p) s'"
proof (induction d arbitrary: p rest b s ps)
  case 0
  then show ?case by simp
next
  case (Suc d)
  let ?ps = "ps @ visited env h p"
  have new: "distinct (map (ino_at env h) (?ps @ concat (map (bck_tree d env h) (bck_below env h p))))"
    using Suc.prems(3) unfolding bck_tree_Suc append_assoc .
  obtain b1 s1 where 1: "bck_turn env rb b s = Some (Turn_done b1, s1)" "bs_stack b1 = bck_below env h p @ rest" "walked env h ?ps s1"
    using turn_alone [OF env Suc.prems(2,1,4) distinct_front [OF new [unfolded append_assoc]], of rb] by blast
  have first: "bck_loop (Suc k) env rb b s = bck_loop k env rb b1 s1" for k
    using 1(1) Suc.prems(4) by simp
  have fit: "tree_fits d env h (length cs + length rest) c" if c: "c \<in> set (bck_below env h p)" "length cs < length (bck_below env h p)" for c and cs :: "cstring list"
  proof -
    obtain buf where "be_stat env h p = Some buf" "sb_kind buf = Dir" using c by (auto simp: bck_below_def split: option.splits if_splits)
    then have "tree_fits d env h (length rest + length (children env p)) c" "length cs < length (children env p)"
      using c Suc.prems(1) by (auto simp: bck_below_def list_all_iff)
    then show ?thesis by (auto elim: tree_fits_mono)
  qed
  have step: "\<exists>b' s'. (\<forall>j. bck_loop (bck_turns d env h c + j) env rb b s = bck_loop j env rb b' s') \<and> bs_stack b' = cs @ rest \<and>
       walked env h (qs @ bck_tree d env h c) s'"
    if "c \<in> set (bck_below env h p)" "walked env h qs s" "distinct (map (ino_at env h) (qs @ bck_tree d env h c))"
      "bs_stack b = c # cs @ rest" "length cs < length (bck_below env h p)" for b s c cs qs
    using Suc.IH [of "cs @ rest" c qs s b] fit [OF that(1,5)] that(2,3,4) by simp
  have "\<exists>b' s'. (\<forall>j. bck_loop (sum_list (map (bck_turns d env h) (bck_below env h p)) + j) env rb b1 s1 = bck_loop j env rb b' s') \<and>
      bs_stack b' = rest \<and> walked env h (?ps @ concat (map (bck_tree d env h) (bck_below env h p))) s'"
    by (rule bck_loop_list [where xs = "bck_below env h p"]) (use step 1 new in \<open>auto simp del: map_append\<close>)
  then obtain b2 s2 where 2: "\<And>j. bck_loop (sum_list (map (bck_turns d env h) (bck_below env h p)) + j) env rb b1 s1 = bck_loop j env rb b2 s2"
      "bs_stack b2 = rest" "walked env h (?ps @ concat (map (bck_tree d env h) (bck_below env h p))) s2"
    by blast
  have "bck_loop (bck_turns (Suc d) env h p + j) env rb b s = bck_loop j env rb b2 s2" for j
    using first [of "sum_list (map (bck_turns d env h) (bck_below env h p)) + j"] 2(1) [of j] by simp
  then show ?case using 2(2,3) unfolding bck_tree_Suc append_assoc by blast
qed

text \<open>A server nobody uses.\<close>

definition idle :: "server \<Rightarrow> bool" where
  "idle s \<longleftrightarrow> mem_ok (lk s) \<and> head_lock_list (lk s) = None \<and> head_wait_list s = [] \<and> \<not> log_mutex s \<and>
     txns_ok (head_txn_list s) \<and> find_txn 0 (head_txn_list s) = None"

lemma begin_alone:
  assumes "idle s"
  shows "\<exists>LRN s1. log_txn_beg 0 (s\<lparr>BACKUP := ACTIVE\<rparr>) = Some (LRN, s1) \<and> alone (new_txn_insert 0 LRN s1) \<and> fs_calls s1 = fs_calls s @ [Flush_log]"
proof -
  obtain LRN s1 where s1: "log_txn_beg 0 (s\<lparr>BACKUP := ACTIVE\<rparr>) = Some (LRN, s1)"
    using assms by (simp add: log_txn_beg_def lock_log_def idle_def Let_def)
  then have k: "lk s1 = lk s" "head_wait_list s1 = head_wait_list s" "head_txn_list s1 = head_txn_list s" "\<not> log_mutex s1" "fs_calls s1 = fs_calls s @ [Flush_log]"
    using assms by (auto simp: log_txn_beg_def lock_log_def unlock_log_def write_record_def flush_log_def emit_def idle_def Let_def split: if_splits)
  let ?n = "get_txn_node 0 (s32 LRN)"
  have id: "tn_txn_id ?n = 0" "tn_file_rec_no ?n = None" by (simp_all add: get_txn_node_def)
  have "find_txn 0 (insert_txn ?n (head_txn_list s)) = Some ?n" "txns_ok (insert_txn ?n (head_txn_list s))"
    using find_insert_same [of ?n] txns_ok_insert [of "head_txn_list s" ?n] assms id(1) by (simp_all add: idle_def)
  then have "alone (new_txn_insert 0 LRN s1)" using k assms id(2) by (simp add: alone_def new_txn_insert_def idle_def)
  then show ?thesis using s1 k(5) by blast
qed

lemma log_end_total:
  assumes "\<not> log_mutex s"
  shows "\<exists>L s' cs. log_txn_end t p s = Some (L, s') \<and> lk s' = lk s \<and> head_txn_list s' = head_txn_list s \<and>
     fs_calls s' = fs_calls s @ cs \<and> list_all bck_call cs \<and> chmods cs = []"
  using assms
  by (cases "log_dev_ok s") (simp_all add: log_txn_end_def lock_log_def patch_prev_def unlock_log_def write_record_def flush_log_def emit_def Let_def)

text \<open>C23: On a server with no other transaction the backup returns, and it has visited every directory
  and file of the tree once, in the order of a recursive walk: the explicit stack does as the recursion,
  in one turn for each path.  Afterwards \<open>stat\<close> finds the sticky bit of every file of the tree flipped, and no
  lock and no backup transaction are left.  Hypotheses: \<open>chmod\<close> does what it is documented to do, so that
  later answers of \<open>stat\<close> show the bits flipped so far; different paths of the tree are different files (no
  hard or symbolic links from one to another, which the walk would flip twice); the files that \<open>copying\<close>
  opens are there; and paths and stack fit their buffers.\<close>

theorem backup_walks_tree:
  assumes "idle s" and "chmod_works env" and "be_copying env" and "tree_fits d env (fs_calls s) 0 root"
    and "distinct (map (ino_at env (fs_calls s)) (bck_tree d env (fs_calls s) root))"
  shows "\<exists>s'. on_bck_beg (Suc (bck_turns d env (fs_calls s) root)) env rb root old s = Some s' \<and>
     chmods (fs_calls s') = chmods (fs_calls s) @ map (flipped env (fs_calls s)) (bck_tree d env (fs_calls s) root) \<and>
     map (be_stat env (fs_calls s')) (bck_tree d env (fs_calls s) root) =
       map (\<lambda>p. map_option flip (be_stat env (fs_calls s) p)) (bck_tree d env (fs_calls s) root) \<and>
     head_lock_list (lk s') = None \<and> find_txn 0 (head_txn_list s') = None \<and> BACKUP s' = INACTIVE"
proof -
  let ?h = "fs_calls s" and ?tree = "bck_tree d env (fs_calls s) root"
  obtain LRN s1 where s1: "log_txn_beg 0 (s\<lparr>BACKUP := ACTIVE\<rparr>) = Some (LRN, s1)" "alone (new_txn_insert 0 LRN s1)"
      "fs_calls s1 = ?h @ [Flush_log]"
    using begin_alone [OF assms(1)] by blast
  have w0: "walked env ?h [] (new_txn_insert 0 LRN s1)" using s1(2,3) by (simp add: walked_def new_txn_insert_def)
  obtain b where b: "bck_start env (fs_calls (new_txn_insert 0 LRN s1)) root old = Some b" "bs_stack b = [root]"
    using tree_fits_length [OF assms(4)] by (simp add: bck_start_def push_def Let_def)
  obtain b' s2 where 2: "\<And>j. bck_loop (bck_turns d env ?h root + j) env rb b (new_txn_insert 0 LRN s1) = bck_loop j env rb b' s2"
      "bs_stack b' = []" "walked env ?h ?tree s2"
    using bck_loop_tree [OF assms(2,3) _ w0, of d "[]" root b rb] assms(4,5) b(2) by auto
  have loop: "bck_loop (Suc (bck_turns d env ?h root)) env rb b (new_txn_insert 0 LRN s1) = Some (b', s2)"
    using 2(1) [of 1] 2(2) by simp
  have al: "alone s2" using 2(3) by (simp add: walked_def)
  obtain t where t: "find_txn 0 (head_txn_list s2) = Some t" using al by (auto simp: alone_def)
  obtain ts where ts: "delete_txn 0 (head_txn_list s2) = Some ts" using delete_txn_None_iff [of 0 "head_txn_list s2"] t by fastforce
  have gone: "find_txn 0 ts = None" using find_delete_same [OF _ ts] al by (simp add: alone_def)
  obtain L s3 ds where s3: "log_txn_end 0 (tn_last_LRN t) (s2\<lparr>head_txn_list := ts\<rparr>) = Some (L, s3)" "lk s3 = lk s2" "head_txn_list s3 = ts"
      "fs_calls s3 = fs_calls s2 @ ds" "list_all bck_call ds" "chmods ds = []"
    using log_end_total [of "s2\<lparr>head_txn_list := ts\<rparr>" "0" "tn_last_LRN t"] al by (auto simp: alone_def)
  let ?s' = "s3\<lparr>BACKUP := INACTIVE\<rparr>"
  obtain cs where cs: "fs_calls s3 = ?h @ cs" "list_all bck_call cs" "chmods cs = map (flipped env ?h) ?tree"
    using 2(3) s3(4-6) by (auto simp: walked_def)
  have "bck_beg_finish s2 = Some ?s'"
    using t ts s3(1) by (simp add: bck_beg_finish_def get_prev_log_LRN_def txn_delete_def)
  then have "on_bck_beg (Suc (bck_turns d env ?h root)) env rb root old s = Some ?s'"
    using s1(1) b(1) loop by (simp add: on_bck_beg_def bck_beg_start_def del: bck_loop.simps)
  moreover have "map (be_stat env (fs_calls ?s')) ?tree = map (\<lambda>p. map_option flip (be_stat env ?h p)) ?tree"
    using stat_flipped [OF assms(2) cs(2,3) assms(5) bck_tree_stat] cs(1) by (auto cong: map_cong)
  ultimately show ?thesis using cs(1,3) s3(2,3) gone al by (auto simp: alone_def)
qed

text \<open>A directory with a file and a hidden file, on a file system where \<open>chmod\<close> works.\<close>

definition small_stat :: "cstring \<Rightarrow> stat_buf option" where
  "small_stat p = (if p = ''/d'' then Some \<lparr>sb_ino = 1, sb_sticky = False, sb_kind = Dir\<rparr>
       else if p = ''/d/f'' then Some \<lparr>sb_ino = 2, sb_sticky = True, sb_kind = Reg\<rparr> else None)"

definition small_tree :: bck_env where
  "small_tree = \<lparr>be_stat = (\<lambda>h. fold stat_after h small_stat),
     be_readdir = (\<lambda>p. if p = ''/d'' then Some [''.'', ''..'', ''f''] else None), be_open = (\<lambda>p. 9), be_copying = True\<rparr>"

theorem backup_walks_tree_witness:
  "\<exists>s'. on_bck_beg (Suc (bck_turns 2 small_tree [] ''/d'')) small_tree 0 ''/d'' \<lparr>sb_ino = 0, sb_sticky = False, sb_kind = Other_kind\<rparr> (global_init []) = Some s' \<and>
     chmods (fs_calls s') = [(''/d'', True), (''/d/f'', False)] \<and>
     map (be_stat small_tree (fs_calls s')) [''/d'', ''/d/f''] =
       [Some \<lparr>sb_ino = 1, sb_sticky = True, sb_kind = Dir\<rparr>, Some \<lparr>sb_ino = 2, sb_sticky = False, sb_kind = Reg\<rparr>] \<and>
     head_lock_list (lk s') = None \<and> find_txn 0 (head_txn_list s') = None \<and> BACKUP s' = INACTIVE"
proof -
  have i: "idle (global_init [])" "fs_calls (global_init []) = []" by (simp_all add: idle_def global_init_def empty_lockmem_def mem_ok_def txns_ok_def)
  have c: "chmod_works small_tree" "be_copying small_tree" by (simp_all add: chmod_works_def small_tree_def)
  have f: "tree_fits 2 small_tree [] 0 ''/d''" by (simp add: small_tree_def small_stat_def numeral_2_eq_2 children_def hidden_def)
  have t: "bck_tree 2 small_tree [] ''/d'' = [''/d'', ''/d/f'']"
    by (simp add: small_tree_def small_stat_def numeral_2_eq_2 children_def hidden_def)
  have d: "distinct (map (ino_at small_tree []) [''/d'', ''/d/f''])" by (simp add: ino_at_def small_tree_def small_stat_def)
  have v: "be_stat small_tree [] ''/d'' = Some \<lparr>sb_ino = 1, sb_sticky = False, sb_kind = Dir\<rparr>"
      "be_stat small_tree [] ''/d/f'' = Some \<lparr>sb_ino = 2, sb_sticky = True, sb_kind = Reg\<rparr>" by (simp_all add: small_tree_def small_stat_def)
  show ?thesis
    using backup_walks_tree [OF i(1) c, of 2 "''/d''" 0 "\<lparr>sb_ino = 0, sb_sticky = False, sb_kind = Other_kind\<rparr>"] f d
    by (simp add: i(2) t v flipped_def flip_def)
qed

end
