(* ===== verification/BackupSafe.thy ===== *)
theory BackupSafe
  imports Backup
begin

text \<open>
  The backup beside other transactions: whatever a turn of its loop does, the invariant of the lock
  table holds after it, and between two turns the backup has no lock.  While it waits, it waits for
  the inode that \<open>stat\<close> has left in \<open>path_buf\<close>.
\<close>

lemma grants_own: "(\<exists>f m. (t, f, m) \<in> grants (lk s) xs) \<longleftrightarrow> owned (lk s) xs t \<noteq> {}"
  by (force simp: grants_def grant_at_def owned_def)

text \<open>The lock that the backup gets is its only one.\<close>

lemma granted_only:
  assumes inv: "lock_inv s ys" and g: "granted G f 1 0 (Got a) (grants (lk s) ys)" and free: "\<And>f m. (0, f, m) \<notin> G"
    and a: "a \<in> set ys" "ino (lk s) a = f" "parent_of (lk s) a = 0"
  shows "owned (lk s) ys 0 = {a}"
proof -
  have G: "grants (lk s) ys = insert (0, f, 1) G" using g free by (auto simp: granted_def)
  have c: "compatible (lk s) ys" using inv by (simp add: lock_inv_def table_ok_def)
  have only: "b = a" if b: "b \<in> owned (lk s) ys 0" for b
  proof (rule ccontr)
    assume "b \<noteq> a"
    have "grant_at (lk s) b \<in> insert (0, f, 1) G" using b unfolding G [symmetric] by (simp add: owned_def grants_def)
    then have e: "ino (lk s) b = ino (lk s) a" "mode_of (lk s) b = 1" using b free a(2) by (auto simp: owned_def grant_at_def)
    have "b \<in> set ys" using b by (simp add: owned_def)
    then have "mode_of (lk s) b = 0" using c a(1) e(1) \<open>b \<noteq> a\<close> unfolding compatible_def by metis
    then show False using e(2) by simp
  qed
  have "a \<in> owned (lk s) ys 0" using a by (simp add: owned_def)
  then show ?thesis using only by blast
qed

lemma let_go_keeps:
  assumes k: "kept_in 0 G X k s xs" and o: "owned (lk s) xs 0 = {a}" and l: "let_go 0 f xs s s'"
  shows "kept_in 0 G X k s' (remove1 a xs)" "owned (lk s') (remove1 a xs) 0 = {}"
proof -
  have inv: "lock_inv s xs" using k by (simp add: kept_in_def)
  have d: "distinct xs" using inv lock_list_distinct by (auto simp: lock_inv_def table_ok_def)
  have L: "lock_inv s' (remove1 a xs)" "\<And>b. b \<noteq> a \<Longrightarrow> grant_at (lk s') b = grant_at (lk s) b" "brk (lk s') = brk (lk s)"
    using l o by (auto simp: let_go_def)
  have set: "set (remove1 a xs) = set xs - {a}" using d by simp
  show "owned (lk s') (remove1 a xs) 0 = {}"
    using o L(2) by (auto simp: owned_def set grant_at_def)
  have "grants (lk s') (remove1 a xs) = grant_at (lk s) ` (set xs - {a})"
    using L(2) by (auto simp: grants_def set)
  moreover have "without 0 (grants (lk s) xs) \<subseteq> grant_at (lk s) ` (set xs - {a})"
    using o by (auto simp: without_def grants_def grant_at_def owned_def)
  ultimately have "lock_step 0 (grants (lk s) xs) (grants (lk s') (remove1 a xs))"
    by (intro lock_step.drop_some) (auto simp: grants_def)
  then show "kept_in 0 G X k s' (remove1 a xs)"
    using k L(1,3) unfolding kept_in_def set by (auto intro: rtranclp.rtrancl_into_rtrancl)
qed

text \<open>Without locks of its own, between two turns; and with the one on the file at hand.\<close>

definition bk_free :: "grant set \<Rightarrow> addr set \<Rightarrow> nat \<Rightarrow> server \<Rightarrow> bool" where
  "bk_free G X k s \<longleftrightarrow> (\<exists>xs. kept_in 0 G X k s xs \<and> owned (lk s) xs 0 = {})"

definition bk_has :: "grant set \<Rightarrow> addr set \<Rightarrow> nat \<Rightarrow> addr \<Rightarrow> server \<Rightarrow> bool" where
  "bk_has G X k a s \<longleftrightarrow> (\<exists>xs. kept_in 0 G X k s xs \<and> owned (lk s) xs 0 = {a})"

lemma owned_io: "io_step s s' \<Longrightarrow> owned (lk s') xs t = owned (lk s) xs t"
  unfolding owned_def io_step_def using io_only_view(3) [of "lk s" "lk s'"] by simp

lemma bk_io:
  "bk_has G X k a s \<Longrightarrow> io_step s s' \<Longrightarrow> bk_has G X k a s'"
  "bk_free G X k s \<Longrightarrow> io_step s s' \<Longrightarrow> bk_free G X k s'"
  using kept_in_io owned_io unfolding bk_has_def bk_free_def by metis+

lemma copy_io:
  "io_step s (copy_inode b s)" "io_step s (mark_as_read b p s)"
  "post (copy_directory env p s) (io_step s)" "post (copy_file env p s) (io_step s)"
  by (simp_all add: copy_inode_def mark_as_read_def copy_directory_def copy_file_def copying_def Let_def post_def)

lemma set_offset_io: "(\<And>n. no_io (g n) = no_io n) \<Longrightarrow> post (set_offset a g s) (io_step s)"
  unfolding set_offset_def
  by (intro post_intros) (auto simp: no_io_def intro: io_only_fl_set)

lemma release_bk: "bk_has G X k a s \<Longrightarrow> post (release_locks_by_backup 0 f s) (bk_free G X k)"
proof -
  assume "bk_has G X k a s"
  then obtain xs where xs: "kept_in 0 G X k s xs" "owned (lk s) xs 0 = {a}" by (auto simp: bk_has_def)
  then have "lock_inv s xs" by (simp add: kept_in_def)
  from release_by_backup_ok [OF this, of 0 f] show ?thesis
    by (rule post_weaken) (use let_go_keeps [OF xs] in \<open>unfold bk_free_def, blast\<close>)
qed

lemma post_bk_io: "bk_has G X k a s \<Longrightarrow> post m (io_step s) \<Longrightarrow> (\<And>s'. bk_has G X k a s' \<Longrightarrow> post (f s') P) \<Longrightarrow> post (Option.bind m f) P"
  using bk_io(1) by (fastforce intro!: post_bind dest: postD)

lemma locked_ok:
  assumes "bk_has G X k a s"
  shows "post (locked env path b a s) (\<lambda>(out, s'). (\<exists>b'. out = Turn_done b') \<and> bk_free G X k s')"
proof -
  have e: "bk_has G X k a s' \<Longrightarrow> bk_has G X k a (copy_inode b s')" "bk_has G X k a s' \<Longrightarrow> bk_has G X k a (mark_as_read b path s')"
      "bk_free G X k s' \<Longrightarrow> bk_free G X k (emit c s')" for s' c
    using bk_io copy_io(1,2) by (blast, blast) (rule bk_io(2), assumption, simp)
  have d: "post (copy_locked_dir env path b a s) (\<lambda>(b', s'). bk_free G X k s')"
    unfolding copy_locked_dir_def Let_def
    by (rule post_bk_io [OF e(1) [OF assms]], rule set_offset_io, simp, rule post_bk_io, assumption, rule copy_io(3),
      intro post_bind, drule e(2), drule release_bk, drule (1) postD, simp add: post_Some)
  have f: "post (copy_locked_file env path b a s) (\<lambda>(b', s'). bk_free G X k s')"
    unfolding copy_locked_file_def Let_def
    by (rule post_bk_io [OF e(1) [OF assms]], rule set_offset_io, simp add: no_io_def, rule post_bk_io, assumption, rule copy_io(4),
      intro post_bind, drule e(2), drule release_bk, drule (1) postD, simp add: post_Some e(3))
  show ?thesis unfolding locked_def
    by (rule post_bind, rule post_prod, rule post_Some) (use d f in \<open>auto split: if_splits dest: postD\<close>)
qed

text \<open>How a turn can end.\<close>

definition bk_out :: "grant set \<Rightarrow> addr set \<Rightarrow> nat \<Rightarrow> bck_out \<times> server \<Rightarrow> bool" where
  "bk_out G X k r \<longleftrightarrow> (case r of
     (Turn_done b, s) \<Rightarrow> bk_free G X k s
   | (Bck_wait f out path b, s) \<Rightarrow> bk_free G X k s \<and> f = sb_ino (bs_path_buf b) \<and> kept_parked 0 G X k out s)"

lemma bck_deliver_ok:
  assumes k: "kept_in 0 G X k s xs" "owned (lk s) xs 0 = {}" and f: "f = sb_ino (bs_path_buf b)"
    and r: "request_ok (grants (lk s) xs) f 1 0 (insert (brk (lk s)) (set xs)) (brk (lk s)) (out, s')"
  shows "post (bck_deliver env f path b (out, s')) (bk_out G X k)"
proof -
  obtain ys where ys: "lock_inv s' ys" "set ys \<subseteq> insert (brk (lk s)) (set xs)" "brk (lk s) \<le> brk (lk s')"
      "granted (grants (lk s) xs) f 1 0 out (grants (lk s') ys)"
      "case out of Got a \<Rightarrow> a \<in> set ys \<and> ino (lk s') a = f \<and> parent_of (lk s') a = 0 | _ \<Rightarrow> True"
    using r by (cases out) (auto simp: request_ok_def)
  have free: "(0, f', m) \<notin> grants (lk s) xs" for f' m using grants_own [of 0 s xs] k(2) by blast
  have p: "kept_parked 0 G X k out s'" using request_ok_kept [OF r k(1)] .
  have in': "kept_in 0 G X k s' ys"
    using p ys(1) lock_list_unique unfolding kept_parked_def kept_in_def lock_inv_def table_ok_def by blast
  have g: "bk_has G X k a s'" if "out = Got a" for a
    using granted_only [OF ys(1) ys(4) [unfolded that] free] ys(5) that in' by (auto simp: bk_has_def)
  have n: "bk_free G X k s'" if "\<And>a. out \<noteq> Got a"
  proof -
    have "(0, f', m) \<notin> grants (lk s') ys" for f' m
      using ys(4) that free by (cases out) (auto simp: granted_def without_def)
    then show ?thesis using grants_own [of 0 s' ys] in' by (auto simp: bk_free_def)
  qed
  show ?thesis
  proof (cases out)
    case (Got a)
    then show ?thesis
      by (auto simp: bck_deliver_def bk_out_def intro!: post_weaken [OF locked_ok [OF g]])
  qed (use n p f in \<open>auto simp: bck_deliver_def bk_out_def post_def\<close>)
qed

lemma lock_file_ok:
  assumes "lock_inv s xs"
  shows "post (lock_file env path rb s) (\<lambda>(f, r). (\<exists>buf. be_stat env (fs_calls s) path = Some buf \<and> f = sb_ino buf) \<and>
     request_ok (grants (lk s) xs) f 1 0 (insert (brk (lk s)) (set xs)) (brk (lk s)) r)"
  unfolding lock_file_def
proof (rule post_bind)
  fix buf
  assume b: "be_stat env (fs_calls s) path = Some buf"
  have "post (resume (sb_ino buf) 1 0 rb s) (request_ok (grants (lk s) xs) (sb_ino buf) 1 0 (insert (brk (lk s)) (set xs)) (brk (lk s)))"
    using assms by (rule resume_ok)
  then show "post (do { (search_ret, loc) \<leftarrow> search_file_list (sb_ino buf) (lk s);
       (out, s) \<leftarrow> insert_file_list (sb_ino buf) 1 0 rb search_ret loc s; Some (sb_ino buf, out, s) })
     (\<lambda>(f, r). (\<exists>buf. be_stat env (fs_calls s) path = Some buf \<and> f = sb_ino buf) \<and>
       request_ok (grants (lk s) xs) f 1 0 (insert (brk (lk s)) (set xs)) (brk (lk s)) r)"
    using b by (auto simp: post_def resume_def Option.bind_eq_Some_conv)
qed

lemma bck_turn_ok:
  assumes "bk_free G X k s"
  shows "post (bck_turn env rb b s) (bk_out G X k)"
proof -
  obtain xs where xs: "kept_in 0 G X k s xs" "owned (lk s) xs 0 = {}" using assms by (auto simp: bk_free_def)
  have inv: "lock_inv s xs" using xs(1) by (simp add: kept_in_def)
  have lf: "post (do { (f, r) \<leftarrow> lock_file env path rb s; bck_deliver env f path b' r }) (bk_out G X k)"
    if "be_stat env (fs_calls s) path = Some (bs_path_buf b')" for path b'
  proof (rule post_bind, rule post_prod)
    fix x f r
    assume "lock_file env path rb s = Some x" "x = (f, r)"
    then have L: "(\<exists>buf. be_stat env (fs_calls s) path = Some buf \<and> f = sb_ino buf) \<and>
       request_ok (grants (lk s) xs) f 1 0 (insert (brk (lk s)) (set xs)) (brk (lk s)) r"
      using postD [OF lock_file_ok [OF inv]] by fastforce
    then have "f = sb_ino (bs_path_buf b')" using that by auto
    then show "post (bck_deliver env f path b' r) (bk_out G X k)"
      using bck_deliver_ok [OF xs] L by (cases r) blast
  qed
  show ?thesis
    unfolding bck_turn_def Let_def lock_directory_def
    by (rule post_bind, rule post_prod, rule post_option, simp add: post_Some bk_out_def assms, rule post_if,
      simp add: post_Some bk_out_def assms, simp, rule lf, simp)
qed

definition bck_resume :: "bck_env \<Rightarrow> int \<Rightarrow> cstring \<Rightarrow> bck_vars \<Rightarrow> (lock_out \<times> server) option \<Rightarrow> (bck_out \<times> server) option" where
  "bck_resume env f_inode path b m = do { r \<leftarrow> m; bck_deliver env f_inode path b r }"

lemma bck_resume_ok:
  assumes "kept_in 0 G X k s xs" and "owned (lk s) xs 0 = {}" and "f = sb_ino (bs_path_buf b)"
    and "post m (request_ok (grants (lk s) xs) f 1 0 (insert (brk (lk s)) (set xs)) (brk (lk s)))"
  shows "post (bck_resume env f path b m) (bk_out G X k)"
  unfolding bck_resume_def
proof (rule post_bind)
  fix r
  assume "m = Some r"
  then show "post (bck_deliver env f path b r) (bk_out G X k)"
    using postD [OF assms(4)] bck_deliver_ok [OF assms(1,2,3)] by (cases r) blast
qed

end
