(* ===== verification/System.thy ===== *)
theory System
  imports BackupSafe
begin

text \<open>
  The server as a whole: one thread per connection (\<open>handler\<close> in Reader.c), the backup, and the
  detector of deadlocks, all on one shared state.  A step of the system is what one thread does
  between two places where it can be interrupted for long: a call up to its end or to the point
  where it waits for a lock, what follows once it wakes, one turn of the backup's loop.  Every
  reachable state keeps the invariant of the lock table, and every step is a step of the table's
  specification: the relation \<open>lock_step\<close> on sets of grants.
\<close>

section \<open>The calls of a client\<close>

datatype call =
  Open cstring cstring
| Stat cstring
| Creat cstring cstring
| Unlink cstring
| Rename cstring cstring
| Write cstring cstring cstring
| Lseek cstring cstring cstring
| Read int int
| Inode_stat cstring
| Commit
| Abort

definition start_call :: "fs_env \<Rightarrow> call \<Rightarrow> int \<Rightarrow> server \<Rightarrow> (outcome \<times> server) option" where
  "start_call env c txnid s =
     (case c of
        Open p m \<Rightarrow> on_open env p m txnid s
      | Stat p \<Rightarrow> on_stat env p txnid s
      | Creat p m \<Rightarrow> on_creat env p m txnid s
      | Unlink p \<Rightarrow> on_unlink env p txnid s
      | Rename p q \<Rightarrow> on_rename env p q txnid s
      | Write a b n \<Rightarrow> do { (r, s) \<leftarrow> on_write env a b n txnid s; Some (Done r, s) }
      | Lseek a b n \<Rightarrow> (let (r, s) = on_lseek env a b n s in Some (Done r, s))
      | Read fd n \<Rightarrow> do { (r, s) \<leftarrow> on_read env fd n s; Some (Done (fst r), s) }
      | Inode_stat p \<Rightarrow> do { r \<leftarrow> on_inode_stat env p; Some (Done r, s) }
      | Commit \<Rightarrow> do { (r, s) \<leftarrow> on_txn_commit txnid s; Some (Done r, s) }
      | Abort \<Rightarrow> do { (r, s) \<leftarrow> on_txn_abort txnid s; Some (Done r, s) })"

section \<open>Threads\<close>

datatype progress = Idle | Parked int int lock_out stage

datatype backup_pc = Off | Walking bck_vars | Bck_parked int lock_out cstring bck_vars

record system =
  srv :: server
  client :: "int \<Rightarrow> progress"
  backup :: backup_pc

fun progress_of :: "outcome \<Rightarrow> progress" where
  "progress_of (Done r) = Idle"
| "progress_of (Wait f fl how stg) = Parked f fl how stg"

fun backup_of :: "bck_out \<Rightarrow> backup_pc" where
  "backup_of (Turn_done b) = Walking b"
| "backup_of (Bck_wait f how path b) = Bck_parked f how path b"

text \<open>What a parked thread does next with its request.  A thread asleep on a condition variable may
  wake at any time, as POSIX allows; once it has woken to go on it asks for the lock again in a step of its
  own, and once it has to abort it aborts in a step of its own; a victim that has to let the others go first either finds that
  they have, or sleeps, and is woken.\<close>

inductive unparks :: "int \<Rightarrow> int \<Rightarrow> int \<Rightarrow> int \<Rightarrow> lock_out \<Rightarrow> server \<Rightarrow> (lock_out \<times> server) option \<Rightarrow> bool" where
  wakes: "unparks f fl t rb Asleep s (woken_lock f t s)"
| goes_on: "unparks f fl t rb Woken s (try_again f fl t rb s)"
| gives_up: "unparks f fl t rb Doomed s (refuse_victim t s)"
| awaits: "unparks f fl t rb Awaiting s (victim_lock f t s)"
| aborts: "unparks f fl t rb Awaiting s (victim_woken f t s)"
| unpauses: "unparks f fl t rb (Paused p) s (unpaused_lock f fl t rb p s)"

inductive_cases unparksE: "unparks f fl t rb how s m"

inductive sys_step :: "int \<Rightarrow> system \<Rightarrow> system \<Rightarrow> bool" where
  begins: "t \<noteq> 0 \<Longrightarrow> find_txn t (head_txn_list (srv S)) = None \<Longrightarrow> client S t = Idle \<Longrightarrow>
     on_txn_beg t (srv S) = Some (r, s) \<Longrightarrow> sys_step t S (S\<lparr>srv := s\<rparr>)"
| calls: "t \<noteq> 0 \<Longrightarrow> client S t = Idle \<Longrightarrow> start_call env c t (srv S) = Some (out, s) \<Longrightarrow>
     sys_step t S (S\<lparr>srv := s, client := (client S)(t := progress_of out)\<rparr>)"
| continues: "t \<noteq> 0 \<Longrightarrow> client S t = Parked f fl how stg \<Longrightarrow> unparks f fl t rb how (srv S) m \<Longrightarrow>
     resume_call env t f fl stg m = Some (out, s) \<Longrightarrow>
     sys_step t S (S\<lparr>srv := s, client := (client S)(t := progress_of out)\<rparr>)"
| detects: "choose_victim f t ((srv S)\<lparr>st := (st (srv S))\<lparr>abrt_on_dead := abrt_on_dead (st (srv S)) + 1\<rparr>\<rparr>) = Some s \<Longrightarrow>
     sys_step t S (S\<lparr>srv := s\<rparr>)"
| backup_begins: "find_txn 0 (head_txn_list (srv S)) = None \<Longrightarrow> backup S = Off \<Longrightarrow>
     bck_beg_start benv root old (srv S) = Some (b, s) \<Longrightarrow> sys_step 0 S (S\<lparr>srv := s, backup := Walking b\<rparr>)"
| backup_turns: "backup S = Walking b \<Longrightarrow> bs_stack b \<noteq> [] \<Longrightarrow> bck_turn benv rb b (srv S) = Some (bout, s) \<Longrightarrow>
     sys_step 0 S (S\<lparr>srv := s, backup := backup_of bout\<rparr>)"
| backup_continues: "backup S = Bck_parked f how path b \<Longrightarrow> unparks f 1 0 rb how (srv S) m \<Longrightarrow>
     bck_resume benv f path b m = Some (bout, s) \<Longrightarrow> sys_step 0 S (S\<lparr>srv := s, backup := backup_of bout\<rparr>)"
| backup_ends: "backup S = Walking b \<Longrightarrow> bs_stack b = [] \<Longrightarrow> bck_beg_finish (srv S) = Some s \<Longrightarrow>
     sys_step 0 S (S\<lparr>srv := s, backup := Off\<rparr>)"

inductive_cases sys_stepE: "sys_step t S S'"

definition sys_init :: "char list \<Rightarrow> system" where
  "sys_init logdata = \<lparr>srv = global_init logdata, client = (\<lambda>_. Idle), backup = Off\<rparr>"

inductive reachable :: "system \<Rightarrow> bool" where
  init: "reachable (sys_init logdata)"
| step: "reachable S \<Longrightarrow> sys_step t S S' \<Longrightarrow> reachable S'"

section \<open>The abstraction\<close>

fun walk_list :: "(addr \<Rightarrow> 'n option) \<Rightarrow> ('n \<Rightarrow> addr option) \<Rightarrow> nat \<Rightarrow> addr option \<Rightarrow> addr list" where
  "walk_list h sel 0 p = []"
| "walk_list h sel (Suc k) p =
     (case p of None \<Rightarrow> [] | Some a \<Rightarrow> (case h a of None \<Rightarrow> [] | Some n \<Rightarrow> a # walk_list h sel k (sel n)))"

lemma walk_list_path: "lpath h sel p as None \<Longrightarrow> length as \<le> k \<Longrightarrow> walk_list h sel k p = as"
proof (induction as arbitrary: p k)
  case Nil
  then show ?case by (cases k) auto
next
  case (Cons a as)
  then show ?case by (cases k) auto
qed

definition held_list :: "server \<Rightarrow> grant list" where
  "held_list s = map (grant_at (lk s)) (walk_list (fl_heap (lk s)) fl_next (brk (lk s)) (head_lock_list (lk s)))"

definition held :: "server \<Rightarrow> grant set" where
  "held s = set (held_list s)"

lemma held_grants: "lock_inv s xs \<Longrightarrow> held s = grants (lk s) xs"
proof -
  assume "lock_inv s xs"
  then have l: "lock_list (lk s) xs" by (simp add: lock_inv_def table_ok_def)
  then have "walk_list (fl_heap (lk s)) fl_next (brk (lk s)) (head_lock_list (lk s)) = xs"
    using lock_list_path [OF l] lock_list_length [OF l] by (intro walk_list_path)
  then show ?thesis by (simp add: held_def held_list_def grants_def)
qed

text \<open>Nobody else's lock excludes a lock that is held.\<close>

definition no_conflict :: "grant set \<Rightarrow> bool" where
  "no_conflict G \<longleftrightarrow> (\<forall>t u f m n. (t, f, m) \<in> G \<longrightarrow> (u, f, n) \<in> G \<longrightarrow> t \<noteq> u \<longrightarrow> m = 0 \<and> n = 0)"

definition locks_of :: "int \<Rightarrow> grant set \<Rightarrow> grant set" where
  "locks_of t G = {g \<in> G. fst g = t}"

lemma lock_step_spec:
  assumes "lock_step t G G'"
  shows "no_conflict G \<Longrightarrow> no_conflict G'" "u \<noteq> t \<Longrightarrow> locks_of u G' = locks_of u G"
    "t \<noteq> 0 \<Longrightarrow> locks_of t G \<subseteq> locks_of t G' \<or> locks_of t G' = {}"
proof -
  show "no_conflict G \<Longrightarrow> no_conflict G'" using assms
  proof cases
    case (acquire f m)
    then have free: "\<And>u n. (u, f, n) \<in> G \<Longrightarrow> n = 0 \<and> m = 0" by (auto simp: free_for_def)
    assume "no_conflict G"
    then have c: "\<And>t u f m n. (t, f, m) \<in> G \<Longrightarrow> (u, f, n) \<in> G \<Longrightarrow> t \<noteq> u \<Longrightarrow> m = 0 \<and> n = 0" unfolding no_conflict_def by blast
    show "no_conflict G'" unfolding no_conflict_def acquire using free c by (metis insert_iff prod.inject)
  qed (auto simp: no_conflict_def without_def, blast+)
  show "u \<noteq> t \<Longrightarrow> locks_of u G' = locks_of u G" using assms
    by cases (auto simp: locks_of_def without_def)
  show "t \<noteq> 0 \<Longrightarrow> locks_of t G \<subseteq> locks_of t G' \<or> locks_of t G' = {}" using assms
    by cases (auto simp: locks_of_def without_def)
qed

lemma lock_steps_spec:
  assumes "(lock_step t)\<^sup>*\<^sup>* G G'"
  shows "no_conflict G \<Longrightarrow> no_conflict G'" "u \<noteq> t \<Longrightarrow> locks_of u G' = locks_of u G"
  using assms by (induction rule: rtranclp_induct) (auto simp: lock_step_spec)

section \<open>The invariant\<close>

definition paused_records :: "system \<Rightarrow> addr set" where
  "paused_records S = {p. (\<exists>t f fl stg. client S t = Parked f fl (Paused (Some p)) stg) \<or>
     (\<exists>f path b. backup S = Bck_parked f (Paused (Some p)) path b)}"

definition sys_inv :: "system \<Rightarrow> addr list \<Rightarrow> bool" where
  "sys_inv S xs \<longleftrightarrow> lock_inv (srv S) xs \<and> paused_records S \<subseteq> {..<brk (lk (srv S))} - set xs \<and>
     (backup S \<noteq> Off \<longrightarrow> owned (lk (srv S)) xs 0 = {}) \<and>
     (\<forall>f how path b. backup S = Bck_parked f how path b \<longrightarrow> f = sb_ino (bs_path_buf b))"

text \<open>The bounds of a step: no record of a paused thread may enter the list.\<close>

abbreviation rest_of :: "system \<Rightarrow> addr set" where
  "rest_of S \<equiv> - paused_records S"

abbreviation top_of :: "system \<Rightarrow> nat" where
  "top_of S \<equiv> brk (lk (srv S))"

lemma sys_inv_kept: "sys_inv S xs \<Longrightarrow> kept_in t (held (srv S)) (rest_of S) (top_of S) (srv S) xs"
  by (auto simp: sys_inv_def kept_in_def held_grants)

lemma request_room: "sys_inv S xs \<Longrightarrow> insert (top_of S) (set xs) \<subseteq> rest_of S"
  by (auto simp: sys_inv_def)

text \<open>What a step leaves.\<close>

definition step_ok :: "int \<Rightarrow> system \<Rightarrow> system \<Rightarrow> bool" where
  "step_ok t S S' \<longleftrightarrow> (\<exists>xs. sys_inv S' xs) \<and> (lock_step t)\<^sup>*\<^sup>* (held (srv S)) (held (srv S'))"

lemma locks_owned: "lock_inv s xs \<Longrightarrow> locks_of t (held s) = {} \<longleftrightarrow> owned (lk s) xs t = {}"
  by (auto simp: held_grants locks_of_def grants_def owned_def grant_at_def)

lemma client_step_ok:
  assumes inv: "sys_inv S xs" and t: "t \<noteq> 0" and out: "table.out_ok t (held (srv S)) (rest_of S) (top_of S) (out, s)"
  shows "step_ok t S (S\<lparr>srv := s, client := (client S)(t := progress_of out)\<rparr>)"
proof -
  let ?S = "S\<lparr>srv := s, client := (client S)(t := progress_of out)\<rparr>"
  have "\<exists>ys. kept_in t (held (srv S)) (rest_of S) (top_of S) s ys \<and>
     (case out of Wait _ _ (Paused (Some p)) _ \<Rightarrow> p \<notin> set ys \<and> p < brk (lk s) | _ \<Rightarrow> True)"
    using out by (auto simp: table.out_ok_def kept_def kept_parked_def split: outcome.splits)
  then obtain ys where k: "kept_in t (held (srv S)) (rest_of S) (top_of S) s ys"
    and c: "case out of Wait _ _ (Paused (Some p)) _ \<Rightarrow> p \<notin> set ys \<and> p < brk (lk s) | _ \<Rightarrow> True"
    by blast
  have p: "p \<notin> set ys \<and> p < brk (lk s)" if "out = Wait f fl (Paused (Some p)) stg" for f fl stg p
    using c that by simp
  from k have l: "lock_inv s ys" "set ys \<subseteq> rest_of S" "top_of S \<le> brk (lk s)" "(lock_step t)\<^sup>*\<^sup>* (held (srv S)) (held s)"
    by (auto simp: kept_in_def held_grants)
  have "paused_records ?S \<subseteq> {..<brk (lk s)} - set ys"
  proof
    fix p'
    assume "p' \<in> paused_records ?S"
    then consider "p' \<in> paused_records S" | f fl stg where "out = Wait f fl (Paused (Some p')) stg"
      by (cases out) (auto simp: paused_records_def split: if_splits)
    then show "p' \<in> {..<brk (lk s)} - set ys"
    proof cases
      case 1
      then show ?thesis using l(2,3) inv by (auto simp: sys_inv_def)
    next
      case 2
      then show ?thesis using p by blast
    qed
  qed
  moreover have "owned (lk s) ys 0 = {}" if "backup S \<noteq> Off"
    using inv that lock_steps_spec(2) [OF l(4), of 0] t locks_owned [OF l(1)] locks_owned [of "srv S" xs 0]
    by (auto simp: sys_inv_def)
  ultimately have "sys_inv ?S ys" using l(1) inv by (auto simp: sys_inv_def)
  then show ?thesis using l(4) by (auto simp: step_ok_def)
qed

lemma backup_step_ok:
  assumes inv: "sys_inv S xs" and out: "bk_out (held (srv S)) (rest_of S) (top_of S) (bout, s)"
  shows "step_ok 0 S (S\<lparr>srv := s, backup := backup_of bout\<rparr>)"
proof -
  let ?S = "S\<lparr>srv := s, backup := backup_of bout\<rparr>"
  obtain ys where k: "kept_in 0 (held (srv S)) (rest_of S) (top_of S) s ys" "owned (lk s) ys 0 = {}"
    using out by (cases bout) (auto simp: bk_out_def bk_free_def)
  then have l: "lock_inv s ys" "set ys \<subseteq> rest_of S" "top_of S \<le> brk (lk s)" "(lock_step 0)\<^sup>*\<^sup>* (held (srv S)) (held s)"
    by (auto simp: kept_in_def held_grants)
  have u: "zs = ys" if "lock_inv s zs" for zs
    using that l(1) lock_list_unique by (auto simp: lock_inv_def table_ok_def)
  have "p \<notin> set ys \<and> p < brk (lk s)" if "bout = Bck_wait f (Paused (Some p)) path b" for f p path b
    using out that u by (auto simp: bk_out_def kept_parked_def kept_in_def)
  then have "paused_records ?S \<subseteq> {..<brk (lk s)} - set ys"
    using l(2,3) inv by (cases bout) (force simp: paused_records_def sys_inv_def)+
  moreover have "f = sb_ino (bs_path_buf b)" if "bout = Bck_wait f how path b" for f how path b
    using out that by (simp add: bk_out_def)
  ultimately have "sys_inv ?S ys" using l(1) k(2) by (cases bout) (auto simp: sys_inv_def)
  then show ?thesis using l(4) by (auto simp: step_ok_def)
qed

section \<open>Every step keeps it\<close>

lemma unparks_ok:
  assumes "unparks f fl t rb how (srv S) m" and inv: "sys_inv S xs" and "\<And>p. how = Paused (Some p) \<Longrightarrow> p \<in> paused_records S"
  shows "post m (request_ok (grants (lk (srv S)) xs) f fl t (insert (top_of S) (set xs)) (top_of S))"
proof -
  have l: "lock_inv (srv S) xs" using inv by (simp add: sys_inv_def)
  have p: "a \<notin> set xs" if "how = Paused (Some a)" for a using that assms(3) inv by (auto simp: sys_inv_def)
  show ?thesis using woken_lock_ok [OF l] try_again_ok [OF l] refuse_victim_ok [OF l] unpaused_lock_ok [OF l] p
    by (rule_tac unparksE [OF assms(1)]) auto
qed

text \<open>What the calls need beside the locks: commit leaves things in order as abort does.  Any promise of this
  kind is then kept by every call of every client, wherever it stops.\<close>

locale call_service = lock_service +
  assumes committed: "ok s \<Longrightarrow> post (on_txn_commit t s) (\<lambda>(_, s'). ok s')"
begin

lemma call_resumes:
  assumes "post m (answer_ok f)"
  shows "post (resume_call env t f fl stg m) out_ok"
  unfolding resume_call_def
proof (rule post_bind)
  fix r
  assume "m = Some r"
  then have "answer_ok f r" using postD [OF assms] by simp
  then show "post (deliver f fl stg (continue env t stg) r) out_ok" by (rule deliver_ok) (rule continue_ok)
qed

lemma call_starts:
  assumes k: "ok s"
  shows "post (start_call env c t s) out_ok"
proof -
  have d: "out_ok (Done r, s')" if "io_step s s'" for r s'
    using io [OF k that] by (rule out_ok_done)
  have e: "post (do { (r, s) \<leftarrow> m; Some (Done r, s) }) out_ok" if "post m (\<lambda>(_, s'). ok s')" for m
    using postD [OF that] by (fastforce intro!: post_bind post_prod post_Some out_ok_done)
  have i: "post (do { r \<leftarrow> m; Some (Done r, s) }) out_ok" for m
    by (intro post_bind post_Some d) simp
  have w: "post (do { (r, s) \<leftarrow> on_write env a b n t s; Some (Done r, s) }) out_ok" for a b n
    unfolding on_write_def Let_def by (auto simp: post_def Option.bind_eq_Some_conv intro!: d split: if_splits)
  have r: "post (do { (r, s) \<leftarrow> on_read env fd n s; Some (Done (fst r), s) }) out_ok" for fd n
    unfolding on_read_def do_read_def Let_def by (auto simp: post_def Option.bind_eq_Some_conv intro!: d split: if_splits prod.splits)
  show ?thesis
    by (cases c) (auto simp: start_call_def on_lseek_def w r i handlers_ok [OF k]
        intro!: e ended [OF k] committed [OF k] d post_Some)
qed

end

interpretation table_calls: call_service "kept t G X k" t "\<lambda>_. kept_parked t G X k" for t G X k
proof
  show "post (on_txn_commit t s) (\<lambda>(_, s'). kept t G X k s')" if k: "kept t G X k s" for s
  proof -
    obtain xs where xs: "kept_in t G X k s xs" using k by (auto simp: kept_def)
    then have "post (on_txn_commit t s) (\<lambda>(_, s'). shrunk t xs s s')" by (intro abort_shrinks) (simp add: kept_in_def)
    then show ?thesis by (rule post_weaken) (use shrunk_kept [OF xs] in auto)
  qed
qed

lemma resume_call_kept:
  assumes "kept_in t G X k s xs" and "post m (request_ok (grants (lk s) xs) f fl t (insert (brk (lk s)) (set xs)) (brk (lk s)))"
  shows "post (resume_call env t f fl stg m) (table.out_ok t G X k)"
proof (rule table_calls.call_resumes, rule post_weaken [OF assms(2)])
  fix r
  assume r: "request_ok (grants (lk s) xs) f fl t (insert (brk (lk s)) (set xs)) (brk (lk s)) r"
  then have "kept_parked t G X k (fst r) (snd r)" by (intro request_ok_kept [OF _ assms(1)]) simp
  then show "table.answer_ok t G X k f r" using kept_parked_kept by (auto simp: table.answer_ok_def split: prod.splits lock_out.splits)
qed

text \<open>A transaction that begins has no locks, and its number is new.\<close>

lemma lock_inv_begin:
  assumes inv: "lock_inv s xs" and fresh: "find_txn t (head_txn_list s) = None" and o: "log_only s s1"
  shows "lock_inv (new_txn_insert t l s1) xs" "owned (lk s) xs t = {}"
proof -
  let ?n = "get_txn_node t (s32 l)" and ?ts = "head_txn_list s1"
  have i1: "lock_inv s1 xs" using inv o log_only_lock_inv by blast
  have tv: "txn_view ?ts = txn_view (head_txn_list s)" using o by (simp add: log_only_def)
  have ow: "owner_ok (lk s1) (txn_view ?ts) xs" using i1 by (simp add: lock_inv_def)
  have ids: "txn_ids ts = map fst (txn_view ts)" for ts by (simp add: txn_view_def o_def)
  have nin: "t \<notin> fst ` set (txn_view ?ts)" using fresh ids [of "head_txn_list s"] unfolding tv by (simp add: find_txn_None_iff)
  have none: "owned (lk s1) xs t = {}" using ow nin by (auto simp: owner_ok_def owned_def)
  then show "owned (lk s) xs t = {}" using o by (simp add: log_only_def)
  have "find_txn t ?ts = None" using nin ids [of ?ts] by (simp add: find_txn_None_iff)
  moreover have "txns_ok ?ts" using ow txn_view_sorted by (auto simp: owner_ok_def)
  ultimately have "txns_ok (insert_txn ?n ?ts)" by (intro txns_ok_insert) (simp_all add: get_txn_node_def)
  then have srt: "sorted_wrt (<) (map fst (txn_view (insert_txn ?n ?ts)))" using txn_view_sorted by blast
  have set: "set (txn_view (insert_txn ?n ?ts)) = insert (t, None) (set (txn_view ?ts))"
    by (simp add: txn_view_def get_txn_node_def)
  have "owner_ok (lk s1) (txn_view (insert_txn ?n ?ts)) xs"
    using ow srt none unfolding owner_ok_def set by (auto intro!: exI [of _ "[]"])
  then show "lock_inv (new_txn_insert t l s1) xs" using i1 by (simp add: lock_inv_def new_txn_insert_def)
qed

lemma log_txn_beg_only: "post (log_txn_beg t s) (\<lambda>(_, s'). log_only s s')"
  unfolding log_txn_beg_def lock_log_def
  by (intro post_intros; auto simp: log_only_def unlock_log_def write_record_def flush_log_def emit_def split: if_splits)

text \<open>A step that leaves the locks and the threads' requests as they are.\<close>

lemma same_locks_ok:
  assumes inv: "sys_inv S xs" and l: "lock_inv s xs" and e: "lk s = lk (srv S)" and S': "srv S' = s" "client S' = client S"
    and b: "backup S' = backup S \<or> (owned (lk s) xs 0 = {} \<and> (\<exists>b. backup S' = Walking b) \<or> backup S' = Off)"
  shows "step_ok t S S'"
proof -
  have bk: "backup S' = Bck_parked f how path b' \<Longrightarrow> backup S = Bck_parked f how path b'" for f how path b' using b by auto
  then have "paused_records S' \<subseteq> paused_records S" using S'(2) unfolding paused_records_def by (smt (verit) Collect_mono)
  moreover have "f = sb_ino (bs_path_buf b')" if "backup S' = Bck_parked f how path b'" for f how path b'
    using bk [OF that] inv unfolding sys_inv_def by blast
  moreover have "owned (lk s) xs 0 = {}" if "backup S' \<noteq> Off"
    using that b inv e unfolding sys_inv_def by metis
  ultimately have "sys_inv S' xs" using inv l e S'(1) unfolding sys_inv_def by auto
  moreover have "held s = held (srv S)" using e by (simp add: held_def held_list_def)
  ultimately show ?thesis using S'(1) by (auto simp: step_ok_def)
qed

lemma sys_step_ok:
  assumes "sys_step t S S'" and inv: "sys_inv S xs"
  shows "step_ok t S S'"
  using assms(1)
proof cases
  note l = inv [unfolded sys_inv_def, THEN conjunct1]
  note k = sys_inv_kept [OF inv]
  {
    case (begins r s)
    then obtain l0 s1 where s1: "log_txn_beg t (srv S) = Some (l0, s1)" "s = new_txn_insert t l0 s1"
      by (auto simp: on_txn_beg_def Option.bind_eq_Some_conv)
    have o: "log_only (srv S) s1" using postD [OF log_txn_beg_only s1(1)] by simp
    then have "lk s = lk (srv S)" by (simp add: s1(2) new_txn_insert_def log_only_def)
    then show ?thesis
      using begins lock_inv_begin(1) [OF l begins(3) o] s1(2) by (intro same_locks_ok [OF inv]) auto
  next
    case (calls env c out s)
    then have "table.out_ok t (held (srv S)) (rest_of S) (top_of S) (out, s)"
      using postD [OF table_calls.call_starts [of t "held (srv S)" "rest_of S" "top_of S"]] k [of t] unfolding kept_def by blast
    then show ?thesis using client_step_ok [OF inv calls(2)] calls(1) by simp
  next
    case (continues f fl how stg rb m env out s)
    have "post m (request_ok (grants (lk (srv S)) xs) f fl t (insert (top_of S) (set xs)) (top_of S))"
      using continues(3) by (intro unparks_ok [OF continues(4) inv]) (auto simp: paused_records_def)
    then have "table.out_ok t (held (srv S)) (rest_of S) (top_of S) (out, s)"
      using postD [OF resume_call_kept [OF k] continues(5)] by blast
    then show ?thesis using client_step_ok [OF inv continues(2)] continues(1) by simp
  next
    case (detects f s)
    have e: "lk s = lk (srv S)" "head_txn_list s = head_txn_list (srv S)"
      using detects(2) by (auto simp: choose_victim_def Option.bind_eq_Some_conv dest!: wait_ops_frame(4))
    then have "lock_inv s xs" using l by (simp add: lock_inv_def)
    then show ?thesis using detects(1) e by (intro same_locks_ok [OF inv]) auto
  next
    case (backup_begins benv root old b s)
    let ?s = "(srv S)\<lparr>BACKUP := ACTIVE\<rparr>"
    obtain l0 s1 where s1: "log_txn_beg 0 ?s = Some (l0, s1)" "s = new_txn_insert 0 l0 s1"
      using backup_begins(5) by (auto simp: bck_beg_start_def Let_def Option.bind_eq_Some_conv)
    have o: "log_only ?s s1" using postD [OF log_txn_beg_only s1(1)] by simp
    have l': "lock_inv ?s xs" using l by (simp add: lock_inv_def)
    have "lk s = lk (srv S)" using o by (simp add: s1(2) new_txn_insert_def log_only_def)
    moreover have "owned (lk (srv S)) xs 0 = {}" using lock_inv_begin(2) [OF l' _ o, of 0] backup_begins(3) by simp
    moreover have "lock_inv s xs" using lock_inv_begin(1) [OF l' _ o, of 0] backup_begins(3) s1(2) by simp
    ultimately show ?thesis using backup_begins(2) unfolding backup_begins(1) by (intro same_locks_ok [OF inv]) auto
  next
    case (backup_turns b benv rb bout s)
    have "bk_free (held (srv S)) (rest_of S) (top_of S) (srv S)" using k [of 0] inv backup_turns(3) by (auto simp: bk_free_def sys_inv_def)
    then have "bk_out (held (srv S)) (rest_of S) (top_of S) (bout, s)" using postD [OF bck_turn_ok backup_turns(5)] by blast
    then show ?thesis using backup_step_ok [OF inv] backup_turns(1,2) by simp
  next
    case (backup_continues f how path b rb m benv bout s)
    have "post m (request_ok (grants (lk (srv S)) xs) f 1 0 (insert (top_of S) (set xs)) (top_of S))"
      using backup_continues(3) by (intro unparks_ok [OF backup_continues(4) inv]) (auto simp: paused_records_def)
    then have "bk_out (held (srv S)) (rest_of S) (top_of S) (bout, s)"
      using postD [OF bck_resume_ok [OF k] backup_continues(5)] inv backup_continues(3) by (auto simp: sys_inv_def)
    then show ?thesis using backup_step_ok [OF inv] backup_continues(1,2) by simp
  next
    case (backup_ends b s)
    obtain s1 p r s2 where d: "txn_delete 0 (srv S) = Some s1" "log_txn_end 0 p s1 = Some (r, s2)" "s = s2\<lparr>BACKUP := INACTIVE\<rparr>"
      using backup_ends(5) by (auto simp: bck_beg_finish_def Option.bind_eq_Some_conv)
    have o: "log_only s1 s2" using postD [OF log_call_only(3) d(2)] by simp
    have "lock_inv s1 xs" using inv backup_ends(3) by (intro lock_inv_delete [OF l _ d(1)]) (auto simp: sys_inv_def)
    then have "lock_inv s2 xs" using o log_only_lock_inv by blast
    then have "lock_inv s xs" by (simp add: d(3) lock_inv_def)
    moreover have "lk s = lk (srv S)" using d o by (auto simp: txn_delete_def Option.bind_eq_Some_conv log_only_def)
    ultimately show ?thesis using backup_ends(2) unfolding backup_ends(1) by (intro same_locks_ok [OF inv]) auto
  }
qed

section \<open>Reachable states\<close>

lemma sys_inv_init: "sys_inv (sys_init d) []"
proof -
  have "lock_inv (global_init d) []"
    using mem_ok_empty by (simp add: lock_inv_def table_ok_def lock_list_def inodes_sorted_def compatible_def shared_ok_def
        owner_ok_def global_init_def empty_lockmem_def txn_view_def owned_def)
  then show ?thesis by (simp add: sys_inv_def sys_init_def paused_records_def)
qed

lemma held_init: "held (srv (sys_init d)) = {}"
  using held_grants [of "srv (sys_init d)" "[]"] sys_inv_init [of d] by (simp add: sys_inv_def grants_def)

lemma reachable_inv: "reachable S \<Longrightarrow> (\<exists>xs. sys_inv S xs) \<and> no_conflict (held (srv S))"
proof (induction rule: reachable.induct)
  case (init d)
  then show ?case using sys_inv_init held_init by (auto simp: no_conflict_def)
next
  case (step S t S')
  then have "step_ok t S S'" using sys_step_ok by blast
  then show ?case using step lock_steps_spec(1) by (auto simp: step_ok_def)
qed

text \<open>Steps as functions, to follow a run.\<close>

definition begin_step :: "int \<Rightarrow> system \<Rightarrow> system option" where
  "begin_step t S = (if t = 0 \<or> find_txn t (head_txn_list (srv S)) \<noteq> None \<or> client S t \<noteq> Idle then None
     else do { (r, s) \<leftarrow> on_txn_beg t (srv S); Some (S\<lparr>srv := s\<rparr>) })"

definition call_step :: "fs_env \<Rightarrow> call \<Rightarrow> int \<Rightarrow> system \<Rightarrow> system option" where
  "call_step env c t S = (if t = 0 \<or> client S t \<noteq> Idle then None
     else do { (out, s) \<leftarrow> start_call env c t (srv S); Some (S\<lparr>srv := s, client := (client S)(t := progress_of out)\<rparr>) })"

lemma run_steps:
  "begin_step t S = Some S' \<Longrightarrow> sys_step t S S'" "call_step env c t S = Some S' \<Longrightarrow> sys_step t S S'"
  by (auto simp: begin_step_def call_step_def Option.bind_eq_Some_conv split: if_splits intro: sys_step.intros)

definition demo_env :: fs_env where
  "demo_env = \<lparr>env_read_bit = 0, env_object_id = (\<lambda>p. 7), env_parent_id = (\<lambda>p. 2), env_access = (\<lambda>p. True), env_stat = (\<lambda>p. Some (7, False)),
     env_yaffs_stat = (\<lambda>p. Some 7), env_open = (\<lambda>p m. 5), env_creat = (\<lambda>p m. 9), env_write = (\<lambda>fd d n. n), env_read = (\<lambda>fd n. (0, [])),
     env_lseek = (\<lambda>fd off w. off), env_fts = (\<lambda>p. None), env_fts_close = True\<rparr>"

definition demo_shared :: "system option" where
  "demo_shared = do { S \<leftarrow> begin_step 1 (sys_init []); S \<leftarrow> begin_step 2 S; S \<leftarrow> call_step demo_env (Stat ''/f'') 1 S; call_step demo_env (Stat ''/f'') 2 S }"

lemma demo_shared_run: "map_option (\<lambda>S. held_list (srv S)) demo_shared = Some [(1, 7, 0), (2, 7, 0)]"
  by code_simp

lemma run_reachable:
  "begin_step t S = Some S' \<Longrightarrow> reachable S \<Longrightarrow> reachable S'" "call_step env c t S = Some S' \<Longrightarrow> reachable S \<Longrightarrow> reachable S'"
  using run_steps reachable.step by blast+

lemma demo_reachable: "demo_shared = Some S \<Longrightarrow> reachable S"
  unfolding demo_shared_def
  by (auto simp: Option.bind_eq_Some_conv intro: reachable.init elim!: run_reachable)

text \<open>C1: The lock manager with everything around it refines its specification.  In every state that the
  server can reach, a step of the thread of transaction \<open>t\<close>, whatever call it makes or resumes and
  wherever that call stops, changes the set of locks that the list of records represents only by
  steps the specification gives to \<open>t\<close>: it acquires locks no other lock excludes, or lets go of all
  its locks at once (or, the backup, of some).  Steps of the detector change no lock.\<close>

theorem locks_refine_spec:
  assumes "reachable S" and "sys_step t S S'"
  shows "(lock_step t)\<^sup>*\<^sup>* (held (srv S)) (held (srv S'))"
proof -
  obtain xs where "sys_inv S xs" using reachable_inv [OF assms(1)] by blast
  then show ?thesis using sys_step_ok [OF assms(2)] by (simp add: step_ok_def)
qed

theorem locks_refine_spec_witness:
  "\<exists>S S'. call_step demo_env Commit 1 S = Some S' \<and> held (srv S) = {(1, 7, 0), (2, 7, 0)} \<and> held (srv S') = {(2, 7, 0)} \<and>
     (lock_step 1)\<^sup>*\<^sup>* (held (srv S)) (held (srv S'))"
proof -
  obtain S where S: "demo_shared = Some S" "held_list (srv S) = [(1, 7, 0), (2, 7, 0)]" using demo_shared_run by auto
  have "map_option (\<lambda>S. held_list (srv S)) (Option.bind demo_shared (call_step demo_env Commit 1)) = Some [(2, 7, 0)]"
    by code_simp
  then obtain S' where S': "call_step demo_env Commit 1 S = Some S'" "held_list (srv S') = [(2, 7, 0)]" unfolding S(1) by auto
  have "(lock_step 1)\<^sup>*\<^sup>* (held (srv S)) (held (srv S'))"
    by (rule locks_refine_spec [OF demo_reachable [OF S(1)] run_steps(2) [OF S'(1)]])
  then show ?thesis using S S' by (intro exI [of _ S] exI [of _ S']) (simp add: held_def)
qed

text \<open>C2: Mutual exclusion, in every reachable state of the server, with any number of clients, the
  backup and the detector.  Whatever lock a transaction holds, shared or exclusive, alone or not: another
  transaction holds a lock on the same file only if both locks are shared; and no step of another
  thread gives it a lock or takes one away.\<close>

theorem locks_exclude:
  assumes "reachable S" and "(t, f, m) \<in> held (srv S)"
  shows "(\<forall>u n. (u, f, n) \<in> held (srv S) \<and> u \<noteq> t \<longrightarrow> m = 0 \<and> n = 0) \<and>
     (\<forall>v S'. v \<noteq> t \<and> sys_step v S S' \<longrightarrow> locks_of t (held (srv S')) = locks_of t (held (srv S)))"
proof -
  obtain xs where xs: "sys_inv S xs" and c: "no_conflict (held (srv S))" using reachable_inv [OF assms(1)] by blast
  have "locks_of t (held (srv S')) = locks_of t (held (srv S))" if "v \<noteq> t" "sys_step v S S'" for v S'
  proof -
    have "(lock_step v)\<^sup>*\<^sup>* (held (srv S)) (held (srv S'))" using sys_step_ok [OF that(2) xs] by (simp add: step_ok_def)
    then show ?thesis using that(1) lock_steps_spec(2) [of v _ _ t] by blast
  qed
  moreover have "m = 0 \<and> n = 0" if "(u, f, n) \<in> held (srv S)" "u \<noteq> t" for u n
    using c [unfolded no_conflict_def, rule_format, OF assms(2) that(1)] that(2) by blast
  ultimately show ?thesis by blast
qed

text \<open>One transaction has a file for writing.\<close>

definition demo_alone :: "system option" where
  "demo_alone = do { S \<leftarrow> begin_step 1 (sys_init []); S \<leftarrow> begin_step 2 S; call_step demo_env (Open ''/f'' ''2'') 1 S }"

lemma demo_alone_run: "map_option (\<lambda>S. held_list (srv S)) demo_alone = Some [(1, 7, 1)]"
  by code_simp

theorem locks_exclude_witness:
  "\<exists>S. reachable S \<and> held (srv S) = {(1, 7, 1)} \<and>
     (\<forall>v S'. \<not> (v \<noteq> 1 \<and> sys_step v S S' \<and> locks_of 1 (held (srv S')) \<noteq> {(1, 7, 1)}))"
proof -
  obtain S where S: "demo_alone = Some S" "held_list (srv S) = [(1, 7, 1)]" using demo_alone_run by auto
  have h: "held (srv S) = {(1, 7, 1)}" using S(2) by (simp add: held_def)
  have r: "reachable S" using S(1) unfolding demo_alone_def
    by (auto simp: Option.bind_eq_Some_conv intro: reachable.init elim!: run_reachable)
  have "locks_of 1 (held (srv S')) = {(1, 7, 1)}" if "v \<noteq> 1" "sys_step v S S'" for v S'
    using locks_exclude [OF r, of 1 7 1] that h by (auto simp: locks_of_def)
  then show ?thesis using r h by blast
qed

end
