(* ===== verification/Deadlock.thy ===== *)
theory Deadlock
  imports System
begin

text \<open>
  The detector of deadlocks (deadlock.c).  It builds a graph of the waiting transactions, with an edge
  from a waiter to each waiter that holds its file, walks the graph depth first, and on each back edge
  notes the transactions of a cycle; the first one noted is the victim.  A node of the graph is its
  place in the list of nodes, an edge list a list of places.
\<close>

section \<open>The graph\<close>

record wait_graph_node =
  wg_txn_id :: int
  wg_inode :: int
  wg_visited :: nat        \<comment> \<open>0 white, 1 grey, 2 black\<close>
  wg_edge :: "nat list"

definition waiting_nodes :: "txn_node list \<Rightarrow> wait_graph_node list" where
  "waiting_nodes ts = map (\<lambda>t. \<lparr>wg_txn_id = tn_txn_id t, wg_inode = tn_waiting_for_inode t, wg_visited = 0, wg_edge = []\<rparr>)
     (filter (\<lambda>t. tn_cur_state t = WAITING) ts)"

text \<open>The loop over the waiters from \<open>start\<close> up to \<open>stop\<close>, with \<open>a\<close> the record of the file at hand.  The
  comparisons \<open>foll_wait == NULL\<close> and \<open>foll_wait == ptr_wait\<close> stand where assignments were meant: the
  loop over an exclusive lock goes on.  It moves to the next shared record only after a match, and
  then starts again.\<close>

fun link_edges :: "nat \<Rightarrow> lockmem \<Rightarrow> int list \<Rightarrow> nat \<Rightarrow> nat \<Rightarrow> nat \<Rightarrow> addr \<Rightarrow> nat list \<Rightarrow> (nat list \<times> addr) option" where
  "link_edges 0 m ids start stop j a es = None"
| "link_edges (Suc k) m ids start stop j a es =
     (if j = stop then Some (es, a)
      else do {
        n \<leftarrow> fl_heap m a;
        if ids ! j = fl_parent_txn n then
          if fl_file_mode n \<noteq> 0 then link_edges k m ids start stop (Suc j) a (es @ [j])
          else (case fl_next_shared_rec n of
              None \<Rightarrow> Some (es @ [j], a)
            | Some b \<Rightarrow> link_edges k m ids start stop start b (es @ [j]))
        else link_edges k m ids start stop (Suc j) a es })"

text \<open>First the waiters after this one, then those before it, from the record the first loop has
  reached.  A file that nobody has locked is a fault: the search has no test for NULL.\<close>

definition node_edges :: "lockmem \<Rightarrow> int list \<Rightarrow> nat \<Rightarrow> int \<Rightarrow> nat list option" where
  "node_edges m ids i inode = do {
     a \<leftarrow> fl_find (\<lambda>n. fl_file_inode n = inode) m;
     let fuel = Suc (length ids) * Suc (Suc (brk m));
     (es, a) \<leftarrow> link_edges fuel m ids (Suc i) (length ids) (Suc i) a [];
     (es, a) \<leftarrow> link_edges fuel m ids 0 i 0 a es;
     Some es }"

definition construct_wait_for_graph :: "server \<Rightarrow> wait_graph_node list option" where
  "construct_wait_for_graph s =
     (let ns = waiting_nodes (head_txn_list s); ids = map wg_txn_id ns in
      those (map (\<lambda>(i, n). map_option (\<lambda>es. n\<lparr>wg_edge := es\<rparr>) (node_edges (lk s) ids i (wg_inode n))) (enumerate 0 ns)))"

section \<open>Cycles\<close>

type_synonym graph = "wait_graph_node list"

text \<open>\<open>cycle\<close> follows the first edge to a grey node until it is back where it started.  Where a node has no
  edge it faults, where no edge leads to a grey node it never ends; \<open>in_cycle\<close> and \<open>in_deadlock\<close> have 50
  places each.\<close>

fun cycle_loop :: "nat \<Rightarrow> graph \<Rightarrow> nat \<Rightarrow> nat \<Rightarrow> nat \<Rightarrow> (int \<times> int) list \<Rightarrow> (int \<times> int) list option" where
  "cycle_loop 0 g start cur i dl = None"
| "cycle_loop (Suc k) g start cur i dl =
     (case find (\<lambda>j. wg_visited (g ! j) = 1) (wg_edge (g ! cur)) of
        None \<Rightarrow> None
      | Some j \<Rightarrow>
          if length dl < 50 \<and> i + 1 < 50 then
            let dl = dl @ [(wg_txn_id (g ! cur), wg_inode (g ! cur))] in
            if j = start then Some dl else cycle_loop k g start j (i + 1) dl
          else None)"

definition cycle :: "graph \<Rightarrow> nat \<Rightarrow> (int \<times> int) list \<Rightarrow> (int \<times> int) list option" where
  "cycle g j dl = cycle_loop 50 g j j 0 dl"

definition paint :: "nat \<Rightarrow> nat \<Rightarrow> graph \<Rightarrow> graph" where
  "paint c i g = g[i := (g ! i)\<lparr>wg_visited := c\<rparr>]"

fun dfs_edges :: "(nat \<Rightarrow> graph \<times> (int \<times> int) list \<Rightarrow> (graph \<times> (int \<times> int) list) option) \<Rightarrow> nat list \<Rightarrow>
    graph \<times> (int \<times> int) list \<Rightarrow> (graph \<times> (int \<times> int) list) option" where
  "dfs_edges visit [] gd = Some gd"
| "dfs_edges visit (j # js) (g, dl) = do {
     dl \<leftarrow> (if wg_visited (g ! j) = 1 then cycle g j dl else Some dl);
     gd \<leftarrow> (if wg_visited (g ! j) = 0 then visit j (g, dl) else Some (g, dl));
     dfs_edges visit js gd }"

fun dfs_visit :: "nat \<Rightarrow> nat \<Rightarrow> graph \<times> (int \<times> int) list \<Rightarrow> (graph \<times> (int \<times> int) list) option" where
  "dfs_visit 0 i gd = None"
| "dfs_visit (Suc k) i (g, dl) = do {
     (g, dl) \<leftarrow> dfs_edges (dfs_visit k) (wg_edge (g ! i)) (paint 1 i g, dl);
     Some (paint 2 i g, dl) }"

fun detect_cycles :: "nat list \<Rightarrow> graph \<times> (int \<times> int) list \<Rightarrow> (graph \<times> (int \<times> int) list) option" where
  "detect_cycles [] gd = Some gd"
| "detect_cycles (i # is) (g, dl) = do {
     gd \<leftarrow> (if wg_visited (g ! i) = 0 then dfs_visit (length g) i (g, dl) else Some (g, dl));
     detect_cycles is gd }"

text \<open>One round of the detector: what \<open>in_deadlock\<close> holds after the search, and the victim's wait node.\<close>

definition in_deadlock :: "server \<Rightarrow> (int \<times> int) list option" where
  "in_deadlock s = do {
     g \<leftarrow> construct_wait_for_graph s;
     (_, dl) \<leftarrow> detect_cycles [0..<length g] (g, []);
     Some dl }"

definition deadlock_round :: "server \<Rightarrow> server option" where
  "deadlock_round s = do {
     dl \<leftarrow> in_deadlock s;
     case dl of
       [] \<Rightarrow> Some s
     | (v, f) # _ \<Rightarrow> choose_victim f v (s\<lparr>st := (st s)\<lparr>abrt_on_dead := abrt_on_dead (st s) + 1\<rparr>\<rparr>) }"

section \<open>Who waits for whom\<close>

definition waiter :: "server \<Rightarrow> int \<Rightarrow> int \<Rightarrow> bool" where
  "waiter s t f \<longleftrightarrow> (\<exists>n. find_txn t (head_txn_list s) = Some n \<and> tn_cur_state n = WAITING \<and> tn_waiting_for_inode n = f)"

definition waits_for :: "server \<Rightarrow> (int \<times> int) set" where
  "waits_for s = {(t, u). t \<noteq> u \<and> (\<exists>f m f'. waiter s t f \<and> (u, f, m) \<in> held s \<and> waiter s u f')}"

section \<open>Victims are in deadlocks\<close>

definition wg_arcs :: "graph \<Rightarrow> (nat \<times> nat) set" where
  "wg_arcs g = {(i, j). i < length g \<and> j \<in> set (wg_edge (g ! i))}"

definition arcs_inside :: "graph \<Rightarrow> bool" where
  "arcs_inside g \<longleftrightarrow> (\<forall>i j. (i, j) \<in> wg_arcs g \<longrightarrow> j < length g)"

definition wg_info :: "graph \<Rightarrow> nat \<Rightarrow> int \<times> int" where
  "wg_info g i = (wg_txn_id (g ! i), wg_inode (g ! i))"

text \<open>The graph without its colours does not change during the search.\<close>

definition uncoloured :: "graph \<Rightarrow> graph" where
  "uncoloured g = map (\<lambda>n. n\<lparr>wg_visited := 0\<rparr>) g"

lemma uncoloured_eqD:
  assumes "uncoloured g = uncoloured g0"
  shows "length g = length g0" "i < length g0 \<Longrightarrow> wg_edge (g ! i) = wg_edge (g0 ! i)" "i < length g0 \<Longrightarrow> wg_info g i = wg_info g0 i"
    "wg_arcs g = wg_arcs g0"
proof -
  show len: "length g = length g0" using assms unfolding uncoloured_def by (metis length_map)
  have n: "(g ! i)\<lparr>wg_visited := 0\<rparr> = (g0 ! i)\<lparr>wg_visited := 0\<rparr>" if "i < length g0" for i
    using arg_cong [OF assms, of "\<lambda>xs. xs ! i"] that len by (simp add: uncoloured_def)
  show e: "wg_edge (g ! i) = wg_edge (g0 ! i)" if "i < length g0" for i
    using arg_cong [OF n [OF that], of wg_edge] by simp
  show "wg_info g i = wg_info g0 i" if "i < length g0"
    using arg_cong [OF n [OF that], of wg_txn_id] arg_cong [OF n [OF that], of wg_inode] by (simp add: wg_info_def)
  show "wg_arcs g = wg_arcs g0" using len e by (auto simp: wg_arcs_def)
qed

lemma uncoloured_paint [simp]: "uncoloured (paint c i g) = uncoloured g"
proof (cases "i < length g")
  case True
  have "(map (\<lambda>n. n\<lparr>wg_visited := 0\<rparr>) g)[i := (g ! i)\<lparr>wg_visited := 0\<rparr>] = map (\<lambda>n. n\<lparr>wg_visited := 0\<rparr>) g"
    using list_update_id [of "map (\<lambda>n. n\<lparr>wg_visited := 0\<rparr>) g" i] True by simp
  then show ?thesis by (simp add: uncoloured_def paint_def map_update)
qed (simp add: paint_def list_update_beyond)

lemma cycle_loop_sound:
  assumes "cycle_loop k g start cur i dl = Some dl'" and "arcs_inside g" and "cur < length g"
  shows "(cur, start) \<in> (wg_arcs g)\<^sup>+ \<and> (\<exists>rest. dl' = dl @ wg_info g cur # rest)"
  using assms
proof (induction k g start cur i dl rule: cycle_loop.induct)
  case (2 k g start cur i dl)
  obtain j where j: "find (\<lambda>j. wg_visited (g ! j) = 1) (wg_edge (g ! cur)) = Some j" using 2(2) by (auto split: option.splits)
  then have arc: "(cur, j) \<in> wg_arcs g" using 2(4) find_Some_iff [of "\<lambda>j. wg_visited (g ! j) = 1" "wg_edge (g ! cur)" j]
    by (auto simp: wg_arcs_def)
  have room: "length dl < 50 \<and> i + 1 < 50" using 2(2) j by (auto split: if_splits)
  show ?case
  proof (cases "j = start")
    case True
    then show ?thesis using 2(2) j room arc by (auto simp: wg_info_def)
  next
    case False
    then have r: "cycle_loop k g start j (i + 1) (dl @ [(wg_txn_id (g ! cur), wg_inode (g ! cur))]) = Some dl'"
      using 2(2) j room by (simp add: Let_def)
    have jn: "j < length g" using 2(3) arc unfolding arcs_inside_def by blast
    have "(j, start) \<in> (wg_arcs g)\<^sup>+ \<and> (\<exists>rest. dl' = (dl @ [(wg_txn_id (g ! cur), wg_inode (g ! cur))]) @ wg_info g j # rest)"
      by (rule 2(1) [OF j room refl False r 2(3) jn])
    then show ?thesis using arc by (auto simp: wg_info_def intro: trancl_into_trancl2)
  qed
qed simp

text \<open>What is noted first is a transaction on a cycle.\<close>

definition first_on_cycle :: "graph \<Rightarrow> (int \<times> int) list \<Rightarrow> bool" where
  "first_on_cycle g dl \<longleftrightarrow> (\<forall>x rest. dl = x # rest \<longrightarrow> (\<exists>j < length g. x = wg_info g j \<and> (j, j) \<in> (wg_arcs g)\<^sup>+))"

definition search_ok :: "graph \<Rightarrow> graph \<times> (int \<times> int) list \<Rightarrow> bool" where
  "search_ok g0 r \<longleftrightarrow> uncoloured (fst r) = uncoloured g0 \<and> first_on_cycle g0 (snd r)"

lemma first_on_cycle_append: "first_on_cycle g dl \<Longrightarrow> (dl = [] \<Longrightarrow> first_on_cycle g es) \<Longrightarrow> first_on_cycle g (dl @ es)"
  by (cases dl) (auto simp: first_on_cycle_def)

lemma cycle_sound:
  assumes "cycle g j dl = Some dl'" and "search_ok g0 (g, dl)" and "arcs_inside g0" and "j < length g0"
  shows "search_ok g0 (g, dl')"
proof -
  have u: "uncoloured g = uncoloured g0" using assms(2) by (simp add: search_ok_def)
  note e = uncoloured_eqD [OF u]
  have "arcs_inside g" using assms(3) e(1,4) by (simp add: arcs_inside_def)
  then have "(j, j) \<in> (wg_arcs g)\<^sup>+ \<and> (\<exists>rest. dl' = dl @ wg_info g j # rest)"
    using assms(1,4) e(1) unfolding cycle_def by (intro cycle_loop_sound) auto
  then obtain rest where "(j, j) \<in> (wg_arcs g0)\<^sup>+" "dl' = dl @ wg_info g0 j # rest" using e(3) [OF assms(4)] e(4) by auto
  moreover from this(1) have "first_on_cycle g0 (wg_info g0 j # rest)" using assms(4) by (auto simp: first_on_cycle_def)
  ultimately show ?thesis using assms(2) u by (auto simp: search_ok_def intro: first_on_cycle_append)
qed

lemma dfs_edges_sound:
  assumes "\<And>j r r'. j < length g0 \<Longrightarrow> visit j r = Some r' \<Longrightarrow> search_ok g0 r \<Longrightarrow> search_ok g0 r'"
    and "arcs_inside g0" and "\<And>j. j \<in> set js \<Longrightarrow> j < length g0"
  shows "dfs_edges visit js r = Some r' \<Longrightarrow> search_ok g0 r \<Longrightarrow> search_ok g0 r'"
  using assms(3)
proof (induction js arbitrary: r)
  case (Cons j js)
  obtain g dl where r: "r = (g, dl)" by (cases r)
  obtain dl1 r1 where a: "(if wg_visited (g ! j) = 1 then cycle g j dl else Some dl) = Some dl1"
    and b: "(if wg_visited (g ! j) = 0 then visit j (g, dl1) else Some (g, dl1)) = Some r1" and c: "dfs_edges visit js r1 = Some r'"
    using Cons.prems(1) by (auto simp: r Option.bind_eq_Some_conv)
  have j: "j < length g0" using Cons.prems(3) by simp
  have "search_ok g0 (g, dl1)" using a Cons.prems(2) cycle_sound [OF _ _ assms(2) j] by (auto simp: r split: if_splits)
  then have "search_ok g0 r1" using b assms(1) [OF j] by (auto split: if_splits)
  then show ?case using Cons.IH [OF c] Cons.prems(3) by simp
qed simp

lemma dfs_visit_sound:
  "arcs_inside g0 \<Longrightarrow> dfs_visit k i r = Some r' \<Longrightarrow> search_ok g0 r \<Longrightarrow> i < length g0 \<Longrightarrow> search_ok g0 r'"
proof (induction k arbitrary: i r r')
  case (Suc k)
  obtain g dl where r: "r = (g, dl)" by (cases r)
  obtain g1 dl1 where a: "dfs_edges (dfs_visit k) (wg_edge (g ! i)) (paint 1 i g, dl) = Some (g1, dl1)" and r': "r' = (paint 2 i g1, dl1)"
    using Suc.prems(2) by (auto simp: r Option.bind_eq_Some_conv)
  have u: "uncoloured g = uncoloured g0" using Suc.prems(3) by (simp add: r search_ok_def)
  have "j < length g0" if "j \<in> set (wg_edge (g ! i))" for j
    using that Suc.prems(1,4) uncoloured_eqD [OF u] by (auto simp: arcs_inside_def wg_arcs_def)
  moreover have "search_ok g0 (paint 1 i g, dl)" using Suc.prems(3) by (simp add: r search_ok_def)
  moreover have "search_ok g0 q'" if "j < length g0" "dfs_visit k j q = Some q'" "search_ok g0 q" for j q q'
    using Suc.IH [OF Suc.prems(1) that(2,3,1)] .
  ultimately have "search_ok g0 (g1, dl1)" by (intro dfs_edges_sound [OF _ Suc.prems(1) _ a])
  then show ?case by (simp add: r' search_ok_def)
qed simp

lemma detect_cycles_sound:
  "arcs_inside g0 \<Longrightarrow> detect_cycles is r = Some r' \<Longrightarrow> search_ok g0 r \<Longrightarrow> (\<And>i. i \<in> set is \<Longrightarrow> i < length g0) \<Longrightarrow> search_ok g0 r'"
proof (induction "is" arbitrary: r)
  case (Cons i "is")
  obtain g dl where r: "r = (g, dl)" by (cases r)
  obtain r1 where a: "(if wg_visited (g ! i) = 0 then dfs_visit (length g) i (g, dl) else Some (g, dl)) = Some r1" and c: "detect_cycles is r1 = Some r'"
    using Cons.prems(2) by (auto simp: r Option.bind_eq_Some_conv)
  have "search_ok g0 r1" using a Cons.prems(3,4) dfs_visit_sound [OF Cons.prems(1)] by (auto simp: r split: if_splits)
  then show ?case using Cons.IH [OF Cons.prems(1) c] Cons.prems(4) by simp
qed simp

text \<open>The edges lead to holders of the file.\<close>

lemma link_edges_sound:
  assumes "link_edges k m ids start stop j a es = Some (es', a')" and "start \<le> j" and "j \<le> stop" and "shared_ok X m"
    and "\<And>n. fl_heap m a = Some n \<Longrightarrow> a \<in> X \<and> fl_file_inode n = f"
  shows "(\<forall>n. fl_heap m a' = Some n \<longrightarrow> a' \<in> X \<and> fl_file_inode n = f) \<and>
     (\<forall>j' \<in> set es'. j' \<in> set es \<or> (start \<le> j' \<and> j' < stop \<and> (\<exists>b \<in> X. ino m b = f \<and> parent_of m b = ids ! j')))"
  using assms
proof (induction k m ids start stop j a es rule: link_edges.induct)
  case (2 k m ids start stop j a es)
  show ?case
  proof (cases "j = stop")
    case True
    then have "es' = es" "a' = a" using 2(4) by simp_all
    then show ?thesis using 2(8) by blast
  next
    case False
    then obtain n where n: "fl_heap m a = Some n" using 2(4) by (cases "fl_heap m a") simp_all
    have a: "a \<in> X" "fl_file_inode n = f" using 2(8) [OF n] by simp_all
    have j: "start \<le> j" "j < stop" "start \<le> Suc j" "Suc j \<le> stop" using 2(5,6) False by simp_all
    show ?thesis
    proof (cases "ids ! j = fl_parent_txn n")
      case noteq: False
      then have r: "link_edges k m ids start stop (Suc j) a es = Some (es', a')" using 2(4) False n by simp
      show ?thesis using 2(3) [OF False n noteq r j(3,4) 2(7,8)] by blast
    next
      case True
      have hit: "\<exists>b \<in> X. ino m b = f \<and> parent_of m b = ids ! j" using n a True by (intro bexI [of _ a]) (auto simp: ino_def parent_of_def)
      show ?thesis
      proof (cases "fl_file_mode n \<noteq> 0")
        case ex: True
        then have r: "link_edges k m ids start stop (Suc j) a (es @ [j]) = Some (es', a')" using 2(4) False n True by simp
        show ?thesis using 2(1) [OF False n True ex r j(3,4) 2(7,8)] hit j by auto
      next
        case sh: False
        show ?thesis
        proof (cases "fl_next_shared_rec n")
          case None
          then have "es' = es @ [j]" "a' = a" using 2(4) False n True sh by simp_all
          then show ?thesis using n a hit j by auto
        next
          case (Some b)
          then have r: "link_edges k m ids start stop start b (es @ [j]) = Some (es', a')" using 2(4) False n True sh by simp
          have "b \<in> X \<and> fl_file_inode n' = f" if "fl_heap m b = Some n'" for n'
            using shared_okD(2,3) [OF 2(7) n disjI1 [OF Some] that] a(2) by simp
          moreover have "start \<le> stop" using j by simp
          ultimately show ?thesis using 2(2) [OF False n True sh Some r order_refl _ 2(7)] hit j by auto
        qed
      qed
    qed
  qed
qed simp

lemma fl_find_member:
  assumes "lock_list m xs" and "fl_find P m = Some a"
  shows "a \<in> set xs \<and> (\<exists>n. fl_heap m a = Some n \<and> P n)"
proof -
  have "walk_find h sel P k p = Some a \<Longrightarrow> lpath h sel p as None \<Longrightarrow> a \<in> set as" for h sel k p as
    by (induction k arbitrary: p as) (auto simp: Option.bind_eq_Some_conv split: if_splits elim!: lpath.elims)
  then show ?thesis using assms(2) lock_list_path [OF assms(1)] walk_find_SomeD unfolding fl_find_def by metis
qed

lemma node_edges_sound:
  assumes inv: "lock_inv s xs" and e: "node_edges (lk s) ids i f = Some es" and i: "i < length ids" and j: "j \<in> set es"
  shows "j < length ids" "j \<noteq> i" "\<exists>m. (ids ! j, f, m) \<in> held s"
proof -
  let ?m = "lk s"
  obtain a es1 a1 a2 where a: "fl_find (\<lambda>n. fl_file_inode n = f) ?m = Some a"
    and e1: "link_edges (Suc (length ids) * Suc (Suc (brk ?m))) ?m ids (Suc i) (length ids) (Suc i) a [] = Some (es1, a1)"
    and e2: "link_edges (Suc (length ids) * Suc (Suc (brk ?m))) ?m ids 0 i 0 a1 es1 = Some (es, a2)"
    using e by (auto simp: node_edges_def Let_def Option.bind_eq_Some_conv)
  have ll: "lock_list ?m xs" and sh: "shared_ok (set xs) ?m" using inv by (simp_all add: lock_inv_def table_ok_def)
  have a': "a \<in> set xs \<and> fl_file_inode n = f" if "fl_heap ?m a = Some n" for n using fl_find_member [OF ll a] that by auto
  have l1: "Suc i \<le> length ids" using i by simp
  note s1 = link_edges_sound [OF e1 order_refl l1 sh a']
  have a1: "a1 \<in> set xs \<and> fl_file_inode n = f" if "fl_heap ?m a1 = Some n" for n using s1 that by blast
  have "j \<in> set es1 \<or> j < i \<and> (\<exists>b \<in> set xs. ino ?m b = f \<and> parent_of ?m b = ids ! j)"
    using link_edges_sound [OF e2 order_refl _ sh a1] j by blast
  then have h: "(Suc i \<le> j \<and> j < length ids \<or> j < i) \<and> (\<exists>b \<in> set xs. ino ?m b = f \<and> parent_of ?m b = ids ! j)"
    using s1 by auto
  then show "j < length ids" "j \<noteq> i" using i by auto
  from h obtain b where "b \<in> set xs" "ino ?m b = f" "parent_of ?m b = ids ! j" by blast
  then show "\<exists>m. (ids ! j, f, m) \<in> held s" by (force simp: held_grants [OF inv] grants_def grant_at_def)
qed

lemma those_nth: "those xs = Some ys \<Longrightarrow> length ys = length xs \<and> (\<forall>i < length xs. xs ! i = Some (ys ! i))"
proof (induction xs arbitrary: ys)
  case (Cons x xs)
  then obtain y zs where "x = Some y" "those xs = Some zs" "ys = y # zs" by (auto split: option.splits)
  then show ?case using Cons.IH [of zs] by (auto simp: nth_Cons split: nat.splits)
qed simp

lemma those_total: "(\<And>x. x \<in> set xs \<Longrightarrow> x \<noteq> None) \<Longrightarrow> those xs \<noteq> None"
proof (induction xs)
  case (Cons x xs)
  then have "those xs \<noteq> None" by simp
  moreover obtain y where "x = Some y" using Cons.prems by fastforce
  ultimately show ?case by simp
qed simp

text \<open>The nodes are the waiting transactions.\<close>

lemma waiting_nodes_nth:
  assumes "txns_ok (head_txn_list s)" and "i < length (waiting_nodes (head_txn_list s))"
  shows "waiter s (wg_txn_id (waiting_nodes (head_txn_list s) ! i)) (wg_inode (waiting_nodes (head_txn_list s) ! i))"
proof -
  let ?t = "filter (\<lambda>t. tn_cur_state t = WAITING) (head_txn_list s) ! i"
  have "?t \<in> set (filter (\<lambda>t. tn_cur_state t = WAITING) (head_txn_list s))" using assms(2) by (intro nth_mem) (simp add: waiting_nodes_def)
  then have "?t \<in> set (head_txn_list s)" "tn_cur_state ?t = WAITING" by simp_all
  then show ?thesis using txns_ok_find [OF assms(1)] assms(2) by (auto simp: waiter_def waiting_nodes_def)
qed

lemma waiter_node:
  assumes "waiter s t f"
  shows "\<exists>i < length (waiting_nodes (head_txn_list s)). wg_txn_id (waiting_nodes (head_txn_list s) ! i) = t \<and> wg_inode (waiting_nodes (head_txn_list s) ! i) = f"
proof -
  obtain n where n: "find_txn t (head_txn_list s) = Some n" "tn_cur_state n = WAITING" "tn_waiting_for_inode n = f"
    using assms by (auto simp: waiter_def)
  then have "n \<in> set (filter (\<lambda>t. tn_cur_state t = WAITING) (head_txn_list s))" "tn_txn_id n = t" using find_txn_SomeD by auto
  then obtain i where "i < length (filter (\<lambda>t. tn_cur_state t = WAITING) (head_txn_list s))"
      "filter (\<lambda>t. tn_cur_state t = WAITING) (head_txn_list s) ! i = n" by (metis in_set_conv_nth)
  then show ?thesis using n(3) \<open>tn_txn_id n = t\<close> by (intro exI [of _ i]) (simp add: waiting_nodes_def)
qed

lemma waiting_ids_distinct: "txns_ok ts \<Longrightarrow> distinct (map wg_txn_id (waiting_nodes ts))"
proof -
  assume "txns_ok ts"
  then have "sorted_wrt (<) (map tn_txn_id (filter (\<lambda>t. tn_cur_state t = WAITING) ts))"
    by (simp add: txns_ok_def sorted_wrt_map sorted_wrt_filter)
  then show ?thesis by (simp add: waiting_nodes_def o_def strict_sorted_iff)
qed

lemma construct_nth:
  assumes "construct_wait_for_graph s = Some g" and "ns = waiting_nodes (head_txn_list s)"
  shows "length g = length ns" "i < length g \<Longrightarrow> wg_visited (g ! i) = 0 \<and> wg_info g i = wg_info ns i \<and>
     node_edges (lk s) (map wg_txn_id ns) i (wg_inode (ns ! i)) = Some (wg_edge (g ! i))"
proof -
  have t: "those (map (\<lambda>(i, n). map_option (\<lambda>es. n\<lparr>wg_edge := es\<rparr>) (node_edges (lk s) (map wg_txn_id ns) i (wg_inode n))) (enumerate 0 ns)) = Some g"
    using assms by (simp add: construct_wait_for_graph_def Let_def)
  show len: "length g = length ns" using those_nth [OF t] by simp
  assume i: "i < length g"
  have v: "wg_visited (ns ! i) = 0" using i len by (simp add: assms(2) waiting_nodes_def)
  have "map_option (\<lambda>es. (ns ! i)\<lparr>wg_edge := es\<rparr>) (node_edges (lk s) (map wg_txn_id ns) i (wg_inode (ns ! i))) = Some (g ! i)"
    using those_nth [OF t] i len by (simp add: nth_enumerate_eq)
  then obtain es where e: "node_edges (lk s) (map wg_txn_id ns) i (wg_inode (ns ! i)) = Some es" "(ns ! i)\<lparr>wg_edge := es\<rparr> = g ! i"
    by auto
  show "wg_visited (g ! i) = 0 \<and> wg_info g i = wg_info ns i \<and>
     node_edges (lk s) (map wg_txn_id ns) i (wg_inode (ns ! i)) = Some (wg_edge (g ! i))"
    using v e(1) by (simp add: e(2) [symmetric] wg_info_def)
qed

lemma graph_arcs:
  assumes inv: "lock_inv s xs" and g: "construct_wait_for_graph s = Some g" and arc: "(i, j) \<in> wg_arcs g"
  shows "i < length g" "j < length g" "(wg_txn_id (g ! i), wg_txn_id (g ! j)) \<in> waits_for s"
proof -
  let ?ns = "waiting_nodes (head_txn_list s)" and ?ids = "map wg_txn_id (waiting_nodes (head_txn_list s))"
  have ok: "txns_ok (head_txn_list s)" using inv txn_view_sorted by (auto simp: lock_inv_def owner_ok_def)
  note c = construct_nth [OF g refl]
  show i: "i < length g" using arc by (simp add: wg_arcs_def)
  have j: "j \<in> set (wg_edge (g ! i))" using arc by (simp add: wg_arcs_def)
  have ii: "i < length ?ids" using i c(1) by simp
  have ne: "node_edges (lk s) ?ids i (wg_inode (?ns ! i)) = Some (wg_edge (g ! i))" using c(2) [OF i] by blast
  note e = node_edges_sound [OF inv ne ii j]
  show jn: "j < length g" using e(1) c(1) by simp
  obtain m where m: "(?ids ! j, wg_inode (?ns ! i), m) \<in> held s" using e(3) by blast
  have w: "waiter s (wg_txn_id (?ns ! i)) (wg_inode (?ns ! i))" "waiter s (wg_txn_id (?ns ! j)) (wg_inode (?ns ! j))"
    using waiting_nodes_nth [OF ok] i jn c(1) by simp_all
  have df: "?ids ! i \<noteq> ?ids ! j" using waiting_ids_distinct [OF ok] e(2) i jn c(1) nth_eq_iff_index_eq [of ?ids i j] by simp
  have "wg_txn_id (g ! i) = wg_txn_id (?ns ! i)" "wg_txn_id (g ! j) = wg_txn_id (?ns ! j)"
    using c(2) [OF i] c(2) [OF jn] by (simp_all add: wg_info_def)
  then show "(wg_txn_id (g ! i), wg_txn_id (g ! j)) \<in> waits_for s"
    using w m df i jn c(1) by (auto simp: waits_for_def)
qed

lemma arcs_waits:
  assumes "lock_inv s xs" and "construct_wait_for_graph s = Some g"
  shows "(i, j) \<in> (wg_arcs g)\<^sup>+ \<Longrightarrow> (wg_txn_id (g ! i), wg_txn_id (g ! j)) \<in> (waits_for s)\<^sup>+"
  by (induction rule: trancl_induct) (auto dest: graph_arcs(3) [OF assms] intro: trancl_into_trancl)

lemma in_deadlock_sound:
  assumes inv: "lock_inv s xs" and d: "in_deadlock s = Some ((v, f) # rest)"
  shows "waiter s v f \<and> (v, v) \<in> (waits_for s)\<^sup>+"
proof -
  obtain g g' where g: "construct_wait_for_graph s = Some g" and r: "detect_cycles [0..<length g] (g, []) = Some (g', (v, f) # rest)"
    using d by (auto simp: in_deadlock_def Option.bind_eq_Some_conv)
  have ok: "txns_ok (head_txn_list s)" using inv txn_view_sorted by (auto simp: lock_inv_def owner_ok_def)
  have "arcs_inside g" using graph_arcs(2) [OF inv g] by (auto simp: arcs_inside_def)
  then have "search_ok g (g', (v, f) # rest)"
    by (rule detect_cycles_sound [OF _ r]) (simp_all add: search_ok_def first_on_cycle_def)
  then obtain j where j: "j < length g" "(v, f) = wg_info g j" "(j, j) \<in> (wg_arcs g)\<^sup>+" by (auto simp: search_ok_def first_on_cycle_def)
  have "waiter s v f" using waiting_nodes_nth [OF ok] j(1,2) construct_nth [OF g refl] by (auto simp: wg_info_def)
  then show ?thesis using arcs_waits [OF inv g j(3)] j(2) by (auto simp: wg_info_def)
qed

end
