(* ===== verification/DeadlockFound.thy ===== *)
theory DeadlockFound
  imports Deadlock
begin

text \<open>
  Where the locks waited for are exclusive, every waiter has at most one edge and the search is
  complete: it always ends, and it notes a cycle if there is one.  Nodes are white, grey or black; the
  grey ones are a path to the node being visited, the black ones have all their edges among them.
\<close>

section \<open>Colours\<close>

definition coloured :: "nat \<Rightarrow> graph \<Rightarrow> nat set" where
  "coloured c g = {i. i < length g \<and> wg_visited (g ! i) = c}"

lemma coloured_finite [simp]: "finite (coloured c g)"
  by (simp add: coloured_def)

lemma coloured_paint:
  "i < length g \<Longrightarrow> coloured c (paint d i g) = (if c = d then insert i (coloured c g) else coloured c g - {i})"
  by (auto simp: coloured_def paint_def nth_list_update split: if_splits)

lemma paint_length [simp]: "length (paint c i g) = length g"
  by (simp add: paint_def)

lemma paint_edge [simp]: "wg_edge (paint c i g ! j) = wg_edge (g ! j)" "wg_info (paint c i g) j = wg_info g j"
  by (cases "i < length g"; cases "i = j"; simp add: paint_def wg_info_def list_update_beyond)+

definition three_colours :: "graph \<Rightarrow> bool" where
  "three_colours g \<longleftrightarrow> {..<length g} \<subseteq> coloured 0 g \<union> coloured 1 g \<union> coloured 2 g"

section \<open>Paths\<close>

text \<open>Each node of the list has one edge, to the next one, the last one to \<open>i\<close>.\<close>

fun nexts :: "graph \<Rightarrow> nat list \<Rightarrow> nat \<Rightarrow> bool" where
  "nexts g [] i = True"
| "nexts g (q # qs) i = (wg_edge (g ! q) = [hd (qs @ [i])] \<and> nexts g qs i)"

lemma nexts_snoc: "nexts g (qs @ [i]) j \<longleftrightarrow> nexts g qs i \<and> wg_edge (g ! i) = [j]"
proof (induction qs)
  case (Cons q qs)
  then show ?case by (cases qs) auto
qed simp

lemma nexts_suffix: "nexts g (as @ bs) i \<Longrightarrow> nexts g bs i"
  by (induction as) auto

lemma nexts_cong: "(\<And>q. q \<in> set qs \<Longrightarrow> wg_edge (g ! q) = wg_edge (g' ! q)) \<Longrightarrow> nexts g qs i = nexts g' qs i"
  by (induction qs) auto

lemma cycle_loop_path:
  "qs \<noteq> [] \<Longrightarrow> nexts g qs start \<Longrightarrow> wg_visited (g ! start) = 1 \<Longrightarrow> (\<And>q. q \<in> set qs \<Longrightarrow> wg_visited (g ! q) = 1) \<Longrightarrow>
   start \<notin> set (tl qs) \<Longrightarrow> length qs \<le> k \<Longrightarrow> length dl + length qs \<le> 50 \<Longrightarrow> c + length qs < 50 \<Longrightarrow>
   cycle_loop k g start (hd qs) c dl = Some (dl @ map (wg_info g) qs)"
proof (induction qs arbitrary: k c dl)
  case (Cons q qs)
  obtain k' where k: "k = Suc k'" using Cons.prems(6) by (cases k) auto
  show ?case
  proof (cases qs)
    case Nil
    then show ?thesis using Cons.prems k by (simp add: wg_info_def)
  next
    case (Cons q2 qs2)
    have "cycle_loop k' g start (hd qs) (c + 1) (dl @ [wg_info g q]) = Some ((dl @ [wg_info g q]) @ map (wg_info g) qs)"
      using Cons.prems Cons k by (intro Cons.IH) auto
    moreover have "q2 \<noteq> start" "wg_visited (g ! q2) = 1" using Cons.prems(4,5) Cons by auto
    ultimately show ?thesis using Cons.prems Cons k by (simp add: wg_info_def Let_def)
  qed
qed simp

section \<open>Black nodes\<close>

definition closed_acyclic :: "(nat \<times> nat) set \<Rightarrow> nat set \<Rightarrow> bool" where
  "closed_acyclic A B \<longleftrightarrow> (\<forall>i \<in> B. \<forall>j. (i, j) \<in> A \<longrightarrow> j \<in> B) \<and> (\<forall>i \<in> B. (i, i) \<notin> A\<^sup>+)"

lemma closed_rtrancl:
  assumes "(i, j) \<in> A\<^sup>*" and "i \<in> B" and "closed_acyclic A B"
  shows "j \<in> B"
  using assms by (induction rule: rtrancl_induct) (auto simp: closed_acyclic_def)

lemma closed_acyclic_insert:
  assumes "closed_acyclic A B" and "i \<notin> B" and "\<And>j. (i, j) \<in> A \<Longrightarrow> j \<in> B"
  shows "closed_acyclic A (insert i B)"
proof -
  have "(k, k) \<notin> A\<^sup>+" if k: "k \<in> insert i B" for k
  proof
    assume c: "(k, k) \<in> A\<^sup>+"
    then obtain j where j: "(k, j) \<in> A" "(j, k) \<in> A\<^sup>*" by (blast dest: tranclD)
    have "j \<in> B" using j(1) k assms(1,3) by (auto simp: closed_acyclic_def)
    then have "k \<in> B" using closed_rtrancl [OF j(2) _ assms(1)] by blast
    then show False using c assms(1) by (auto simp: closed_acyclic_def)
  qed
  then show ?thesis using assms(1,3) by (auto simp: closed_acyclic_def)
qed

section \<open>One visit\<close>

definition one_edge :: "graph \<Rightarrow> bool" where
  "one_edge g \<longleftrightarrow> (\<forall>i < length g. wg_edge (g ! i) = [] \<or> (\<exists>j < length g. j \<noteq> i \<and> wg_edge (g ! i) = [j]))"

text \<open>The state of the search, with \<open>ps\<close> the path of grey nodes.\<close>

definition searching :: "graph \<Rightarrow> nat list \<Rightarrow> graph \<Rightarrow> (int \<times> int) list \<Rightarrow> bool" where
  "searching g0 ps g dl \<longleftrightarrow> uncoloured g = uncoloured g0 \<and> three_colours g \<and> coloured 1 g = set ps \<and> distinct ps \<and>
     length dl \<le> card (coloured 2 g) + length ps \<and> (dl = [] \<longrightarrow> closed_acyclic (wg_arcs g0) (coloured 2 g))"

lemma colours_distinct: "i \<in> coloured c g \<Longrightarrow> i \<in> coloured d g \<Longrightarrow> c = d"
  by (simp add: coloured_def)

lemma black_done:
  assumes s: "searching g0 (ps @ [i]) g dl" and i: "i < length g0" and j: "\<And>j. (i, j) \<in> wg_arcs g0 \<Longrightarrow> dl = [] \<Longrightarrow> j \<in> coloured 2 g"
  shows "searching g0 ps (paint 2 i g) dl"
proof -
  have u: "uncoloured g = uncoloured g0" and grey: "coloured 1 g = set (ps @ [i])" and d: "distinct (ps @ [i])"
    and len: "length dl \<le> card (coloured 2 g) + Suc (length ps)" and t: "three_colours g"
    and ca: "dl = [] \<Longrightarrow> closed_acyclic (wg_arcs g0) (coloured 2 g)"
    using s by (auto simp: searching_def)
  have il: "i < length g" using i uncoloured_eqD(1) [OF u] by simp
  note p = coloured_paint [OF il]
  have nb: "i \<notin> coloured 2 g" using grey colours_distinct [of i 1 g 2] by auto
  have c1: "coloured 1 (paint 2 i g) = set ps" using p grey d by auto
  have c2: "coloured 2 (paint 2 i g) = insert i (coloured 2 g)" using p by simp
  have "three_colours (paint 2 i g)" using t p by (auto simp: three_colours_def)
  moreover have "length dl \<le> card (coloured 2 (paint 2 i g)) + length ps" using len nb by (simp add: c2)
  moreover have "dl = [] \<longrightarrow> closed_acyclic (wg_arcs g0) (coloured 2 (paint 2 i g))"
    using ca j nb by (auto simp: c2 intro: closed_acyclic_insert)
  ultimately show ?thesis using u c1 d by (simp add: searching_def)
qed

lemma cycle_found:
  assumes s: "searching g0 (ps @ [i]) g dl" and p: "nexts g0 ps i" and e: "wg_edge (g0 ! i) = [j]" and j: "j \<in> set ps"
    and len: "length dl \<le> card (coloured 2 g)" and small: "length g0 < 50"
  shows "\<exists>dl'. cycle g j dl = Some dl' \<and> dl' \<noteq> [] \<and> searching g0 (ps @ [i]) g dl'"
proof -
  have u: "uncoloured g = uncoloured g0" and grey: "coloured 1 g = set (ps @ [i])" and d: "distinct (ps @ [i])"
    using s by (auto simp: searching_def)
  note ud = uncoloured_eqD [OF u]
  obtain as bs where ps: "ps = as @ j # bs" using split_list [OF j] by blast
  let ?qs = "j # bs @ [i]"
  have qs: "set ?qs \<subseteq> coloured 1 g" using grey ps by auto
  then have inside: "q < length g0" if "q \<in> set ?qs" for q using that ud(1) by (auto simp: coloured_def)
  have "nexts g0 (j # bs) i" using p nexts_suffix unfolding ps by blast
  then have "nexts g0 ?qs j" using e nexts_snoc [of g0 "j # bs" i j] by simp
  then have n: "nexts g ?qs j" using nexts_cong [of ?qs g g0 j] inside ud(2) by blast
  have "card (coloured 1 g) + card (coloured 2 g) \<le> length g0"
  proof -
    have "coloured 1 g \<inter> coloured 2 g = {}" using colours_distinct [of _ 1 g 2] by auto
    then have "card (coloured 1 g) + card (coloured 2 g) = card (coloured 1 g \<union> coloured 2 g)" by (simp add: card_Un_disjoint)
    also have "\<dots> \<le> card {..<length g}" by (rule card_mono) (auto simp: coloured_def)
    finally show ?thesis using ud(1) by simp
  qed
  moreover have "card (coloured 1 g) = length (ps @ [i])" unfolding grey using d by (rule distinct_card)
  moreover have "length ?qs \<le> length (ps @ [i])" by (simp add: ps)
  ultimately have room: "length dl + length ?qs < 50" using len small by linarith
  have "cycle_loop 50 g j (hd ?qs) 0 dl = Some (dl @ map (wg_info g) ?qs)"
  proof (rule cycle_loop_path [OF _ n])
    show "wg_visited (g ! j) = 1" "\<And>q. q \<in> set ?qs \<Longrightarrow> wg_visited (g ! q) = 1" using qs by (auto simp: coloured_def)
    show "j \<notin> set (tl ?qs)" using d ps by auto
  qed (use room in simp_all)
  then have "cycle g j dl = Some (dl @ map (wg_info g) ?qs)" by (simp add: cycle_def)
  moreover have "length (dl @ map (wg_info g) ?qs) \<le> card (coloured 2 g) + length (ps @ [i])"
    using len ps by simp
  ultimately show ?thesis using s by (auto simp: searching_def)
qed

lemma dfs_visit_found:
  assumes "searching g0 ps g dl" and "i \<in> coloured 0 g" and "nexts g0 ps i" and "length dl \<le> card (coloured 2 g)"
    and "card (coloured 0 g) \<le> k" and one: "one_edge g0" and small: "length g0 < 50"
  shows "\<exists>g' dl'. dfs_visit k i (g, dl) = Some (g', dl') \<and> searching g0 ps g' dl' \<and> insert i (coloured 2 g) \<subseteq> coloured 2 g' \<and>
     (dl' = [] \<longrightarrow> dl = [])"
  using assms(1-5)
proof (induction k arbitrary: ps g dl i)
  case 0
  then show ?case by auto
next
  case (Suc k)
  let ?g = "paint 1 i g"
  have u: "uncoloured g = uncoloured g0" and grey: "coloured 1 g = set ps" and d: "distinct ps" and t: "three_colours g"
    and ca: "dl = [] \<Longrightarrow> closed_acyclic (wg_arcs g0) (coloured 2 g)" using Suc.prems(1) by (auto simp: searching_def)
  have il: "i < length g" using Suc.prems(2) by (simp add: coloured_def)
  then have i0: "i < length g0" using uncoloured_eqD(1) [OF u] by simp
  note p = coloured_paint [OF il, of _ 1]
  have ni: "i \<notin> coloured 1 g" "i \<notin> coloured 2 g" using Suc.prems(2) by (simp_all add: coloured_def)
  have c: "coloured 0 ?g = coloured 0 g - {i}" "coloured 1 ?g = insert i (set ps)" "coloured 2 ?g = coloured 2 g"
    using p grey ni by auto
  have s1: "searching g0 (ps @ [i]) ?g dl"
    using Suc.prems(1,4) c ni(1) grey d t p by (auto simp: searching_def three_colours_def)
  have e: "wg_edge (g ! i) = wg_edge (g0 ! i)" using uncoloured_eqD(2) [OF u i0] .
  have visit: "dfs_visit (Suc k) i (g, dl) = do { (g, dl) \<leftarrow> dfs_edges (dfs_visit k) (wg_edge (g0 ! i)) (?g, dl); Some (paint 2 i g, dl) }"
    by (simp add: e)
  have black: "insert i (coloured 2 g) \<subseteq> coloured 2 (paint 2 i g2)" if "coloured 2 g \<subseteq> coloured 2 g2" "length g2 = length g0" for g2
    using that i0 coloured_paint [of i g2 2 2] by auto
  consider "wg_edge (g0 ! i) = []" | j where "wg_edge (g0 ! i) = [j]" "j < length g0" "j \<noteq> i"
    using one i0 unfolding one_edge_def by blast
  then show ?case
  proof cases
    case 1
    have "searching g0 ps (paint 2 i ?g) dl" using black_done [OF s1 i0] 1 by (auto simp: wg_arcs_def)
    then show ?thesis using 1 visit black [of ?g] c(3) uncoloured_eqD(1) [OF u] by auto
  next
    case (2 j)
    have arc: "(i, j') \<in> wg_arcs g0 \<Longrightarrow> j' = j" for j' using 2(1) by (simp add: wg_arcs_def)
    have jl: "j < length g" using 2(2) uncoloured_eqD(1) [OF u] by simp
    have vj: "wg_visited (?g ! j) = wg_visited (g ! j)" using 2(3) by (simp add: paint_def nth_list_update)
    have "j \<in> coloured 0 g \<union> coloured 1 g \<union> coloured 2 g" using t jl by (auto simp: three_colours_def)
    then consider "wg_visited (g ! j) = 0" | "wg_visited (g ! j) = 1" | "wg_visited (g ! j) = 2" by (auto simp: coloured_def)
    then show ?thesis
    proof cases
      case white: 1
      have "j \<in> coloured 0 ?g" using white vj jl by (simp add: coloured_def)
      moreover have "nexts g0 (ps @ [i]) j" using Suc.prems(3) 2(1) nexts_snoc by blast
      moreover have "card (coloured 0 ?g) \<le> k" using Suc.prems(2,5) unfolding c(1) by (simp add: card_Diff_singleton)
      ultimately obtain g2 dl2 where r: "dfs_visit k j (?g, dl) = Some (g2, dl2)" "searching g0 (ps @ [i]) g2 dl2"
          "insert j (coloured 2 ?g) \<subseteq> coloured 2 g2" "dl2 = [] \<longrightarrow> dl = []"
        using Suc.IH [OF s1, of j] Suc.prems(4) c(3) by auto
      have "searching g0 ps (paint 2 i g2) dl2" using black_done [OF r(2) i0] arc r(3) by auto
      moreover have "dfs_edges (dfs_visit k) (wg_edge (g0 ! i)) (?g, dl) = Some (g2, dl2)" using 2(1) white vj r(1) by simp
      then have "dfs_visit (Suc k) i (g, dl) = Some (paint 2 i g2, dl2)" using visit by simp
      moreover have "length g2 = length g0" using r(2) uncoloured_eqD(1) [of g2 g0] by (simp add: searching_def)
      then have "insert i (coloured 2 g) \<subseteq> coloured 2 (paint 2 i g2)" using black r(3) c(3) by blast
      ultimately show ?thesis using r(4) by blast
    next
      case hit: 2
      have "j \<in> set ps" using hit jl grey by (auto simp: coloured_def)
      then obtain dl2 where r: "cycle ?g j dl = Some dl2" "dl2 \<noteq> []" "searching g0 (ps @ [i]) ?g dl2"
        using cycle_found [OF s1 Suc.prems(3) 2(1) _ _ small] Suc.prems(4) c(3) by auto
      have "searching g0 ps (paint 2 i ?g) dl2" using black_done [OF r(3) i0] r(2) by auto
      moreover have "dfs_edges (dfs_visit k) (wg_edge (g0 ! i)) (?g, dl) = Some (?g, dl2)" using 2(1) hit vj r(1) by simp
      ultimately show ?thesis using visit black [of ?g] c(3) r(2) uncoloured_eqD(1) [OF u] by auto
    next
      case blk: 3
      have "j \<in> coloured 2 ?g" using blk vj jl by (simp add: coloured_def)
      then have "searching g0 ps (paint 2 i ?g) dl" using black_done [OF s1 i0] arc by auto
      moreover have "dfs_edges (dfs_visit k) (wg_edge (g0 ! i)) (?g, dl) = Some (?g, dl)" using 2(1) blk vj by simp
      ultimately show ?thesis using visit black [of ?g] c(3) uncoloured_eqD(1) [OF u] by auto
    qed
  qed
qed

section \<open>The whole search\<close>

lemma detect_cycles_found:
  assumes "searching g0 [] g dl" and "one_edge g0" and "length g0 < 50" and "\<And>i. i \<in> set is \<Longrightarrow> i < length g0"
  shows "\<exists>g' dl'. detect_cycles is (g, dl) = Some (g', dl') \<and> searching g0 [] g' dl' \<and> set is \<union> coloured 2 g \<subseteq> coloured 2 g'"
  using assms(1,4)
proof (induction "is" arbitrary: g dl)
  case (Cons i "is")
  have u: "uncoloured g = uncoloured g0" and grey: "coloured 1 g = {}" and t: "three_colours g" and l: "length dl \<le> card (coloured 2 g)"
    using Cons.prems(1) by (auto simp: searching_def)
  have il: "i < length g" using Cons.prems(2) uncoloured_eqD(1) [OF u] by simp
  have "\<exists>g1 dl1. (if wg_visited (g ! i) = 0 then dfs_visit (length g) i (g, dl) else Some (g, dl)) = Some (g1, dl1) \<and>
     searching g0 [] g1 dl1 \<and> insert i (coloured 2 g) \<subseteq> coloured 2 g1"
  proof (cases "wg_visited (g ! i) = 0")
    case True
    then have "i \<in> coloured 0 g" using il by (simp add: coloured_def)
    moreover have "card (coloured 0 g) \<le> card {..<length g}" by (rule card_mono) (auto simp: coloured_def)
    ultimately show ?thesis using dfs_visit_found [OF Cons.prems(1) _ _ l _ assms(2,3), of i "length g"] True by auto
  next
    case False
    have "i \<in> coloured 0 g \<union> coloured 1 g \<union> coloured 2 g" using t il by (auto simp: three_colours_def)
    then have "i \<in> coloured 2 g" using False grey by (auto simp: coloured_def)
    then show ?thesis using False Cons.prems(1) by simp
  qed
  then obtain g1 dl1 where r: "(if wg_visited (g ! i) = 0 then dfs_visit (length g) i (g, dl) else Some (g, dl)) = Some (g1, dl1)"
      "searching g0 [] g1 dl1" "insert i (coloured 2 g) \<subseteq> coloured 2 g1" by blast
  obtain g' dl' where "detect_cycles is (g1, dl1) = Some (g', dl')" "searching g0 [] g' dl'" "set is \<union> coloured 2 g1 \<subseteq> coloured 2 g'"
    using Cons.IH [OF r(2)] Cons.prems(2) by auto
  then show ?case using r by auto
qed simp

lemma search_complete:
  assumes "one_edge g" and "length g < 50" and "\<And>i. i < length g \<Longrightarrow> wg_visited (g ! i) = 0"
  shows "\<exists>g' dl. detect_cycles [0..<length g] (g, []) = Some (g', dl) \<and> (dl = [] \<longrightarrow> (\<forall>i. (i, i) \<notin> (wg_arcs g)\<^sup>+))"
proof -
  have "coloured 0 g = {..<length g}" "coloured 1 g = {}" "coloured 2 g = {}" using assms(3) by (auto simp: coloured_def)
  then have "searching g [] g []" by (auto simp: searching_def three_colours_def closed_acyclic_def)
  then obtain g' dl where r: "detect_cycles [0..<length g] (g, []) = Some (g', dl)" "searching g [] g' dl" "{0..<length g} \<subseteq> coloured 2 g'"
    using detect_cycles_found [OF _ assms(1,2), of g "[]" "[0..<length g]"] by auto
  have "(i, i) \<notin> (wg_arcs g)\<^sup>+" if "dl = []" for i
  proof
    assume c: "(i, i) \<in> (wg_arcs g)\<^sup>+"
    then have "i < length g" by (auto simp: wg_arcs_def dest: tranclD)
    then have "i \<in> coloured 2 g'" using r(3) by auto
    then show False using c r(2) that by (auto simp: searching_def closed_acyclic_def)
  qed
  then show ?thesis using r(1) by auto
qed

section \<open>Exclusive locks\<close>

lemma link_edges_exclusive:
  "fl_heap m a = Some n \<Longrightarrow> fl_file_mode n \<noteq> 0 \<Longrightarrow> j \<le> stop \<Longrightarrow> stop - j < k \<Longrightarrow>
   link_edges k m ids start stop j a es = Some (es @ filter (\<lambda>j. ids ! j = fl_parent_txn n) [j..<stop], a)"
proof (induction k arbitrary: j es)
  case (Suc k)
  show ?case
  proof (cases "j = stop")
    case False
    then have j: "j < stop" "Suc j \<le> stop" "stop - Suc j < k" using Suc.prems(3,4) by simp_all
    then show ?thesis using Suc.prems(1,2) Suc.IH [OF Suc.prems(1,2) j(2,3)] by (simp add: upt_conv_Cons)
  qed simp
qed simp

lemma fl_find_ex:
  assumes "lock_list m xs" and "b \<in> set xs" and "fl_heap m b = Some n" and "P n"
  shows "\<exists>a. fl_find P m = Some a"
proof -
  let ?Q = "\<lambda>b. case fl_heap m b of None \<Rightarrow> False | Some n \<Rightarrow> P n"
  have "\<exists>b \<in> set xs. ?Q b" using assms(2,3,4) by (intro bexI [of _ b]) simp_all
  then obtain us a vs where xs: "xs = us @ a # vs" "?Q a" "\<forall>u \<in> set us. \<not> ?Q u" using split_list_first_prop [of xs ?Q] by blast
  obtain k where k: "fl_heap m a = Some k" "P k" using xs(2) by (auto split: option.splits)
  have "\<not> P m'" if "u \<in> set us" "fl_heap m u = Some m'" for u m' using xs(3) that by fastforce
  then have "walk_find (fl_heap m) fl_next P (Suc (brk m)) (head_lock_list m) = Some a"
    using walk_find_path [of "fl_heap m" fl_next "head_lock_list m" us a vs k P] k lock_list_path [OF assms(1)] lock_list_length [OF assms(1)] xs(1)
    by (simp del: walk_find.simps)
  then show ?thesis unfolding fl_find_def by blast
qed

lemma node_edges_exclusive:
  assumes inv: "lock_inv s xs" and h: "(u, f, m) \<in> held s" "m \<noteq> 0" and i: "i < length ids"
  shows "node_edges (lk s) ids i f = Some (filter (\<lambda>j. ids ! j = u) ([Suc i..<length ids] @ [0..<i]))"
proof -
  have ll: "lock_list (lk s) xs" and cm: "compatible (lk s) xs" using inv by (simp_all add: lock_inv_def table_ok_def)
  obtain b where b: "b \<in> set xs" "parent_of (lk s) b = u" "ino (lk s) b = f" "mode_of (lk s) b = m"
    using h(1) by (auto simp: held_grants [OF inv] grants_def grant_at_def)
  obtain nb where nb: "fl_heap (lk s) b = Some nb" using lock_list_alloc [OF ll b(1)] by blast
  obtain a where a: "fl_find (\<lambda>n. fl_file_inode n = f) (lk s) = Some a"
    using fl_find_ex [OF ll b(1) nb, of "\<lambda>n. fl_file_inode n = f"] b(3) nb by (auto simp: ino_def)
  obtain n where n: "a \<in> set xs" "fl_heap (lk s) a = Some n" "fl_file_inode n = f" using fl_find_member [OF ll a] by blast
  have "a = b"
  proof (rule ccontr)
    assume "a \<noteq> b"
    moreover have "ino (lk s) a = ino (lk s) b" using n b(3) by (simp add: ino_def)
    ultimately have "mode_of (lk s) b = 0" using cm n(1) b(1) unfolding compatible_def by metis
    then show False using b(4) h(2) by simp
  qed
  then have pn: "fl_parent_txn n = u" "fl_file_mode n \<noteq> 0" using n b(2,4) h(2) by (simp_all add: parent_of_def mode_of_def)
  have "link_edges (Suc (length ids) * Suc (Suc (brk (lk s)))) (lk s) ids (Suc i) (length ids) (Suc i) a [] =
      Some (filter (\<lambda>j. ids ! j = u) [Suc i..<length ids], a)"
    using link_edges_exclusive [OF n(2) pn(2), of "Suc i" "length ids" "Suc (length ids) * Suc (Suc (brk (lk s)))" ids "Suc i" "[]"] i pn(1)
    by (simp del: link_edges.simps)
  moreover have "link_edges (Suc (length ids) * Suc (Suc (brk (lk s)))) (lk s) ids 0 i 0 a es = Some (es @ filter (\<lambda>j. ids ! j = u) [0..<i], a)" for es
    using link_edges_exclusive [OF n(2) pn(2), of 0 i "Suc (length ids) * Suc (Suc (brk (lk s)))" ids 0 es] i pn(1)
    by (simp del: link_edges.simps)
  ultimately show ?thesis using a by (simp add: node_edges_def Let_def del: link_edges.simps)
qed

lemma filter_one:
  assumes "distinct js" and "\<And>j j'. j \<in> set js \<Longrightarrow> j' \<in> set js \<Longrightarrow> P j \<Longrightarrow> P j' \<Longrightarrow> j = j'"
  shows "filter P js = [] \<or> (\<exists>j \<in> set js. filter P js = [j])"
proof (cases "filter P js")
  case (Cons j ks)
  have d: "distinct (j # ks)" using assms(1) distinct_filter [of js P] Cons by simp
  have m: "set (j # ks) = {j \<in> set js. P j}" using arg_cong [OF Cons, of set] by simp
  have "ks = []"
  proof (cases ks)
    case (Cons k ls)
    then have "k \<in> {j \<in> set js. P j}" "j \<in> {j \<in> set js. P j}" using m by auto
    then have "j = k" using assms(2) by blast
    then show ?thesis using d Cons by simp
  qed simp
  then show ?thesis using Cons m by auto
qed simp

lemma those_ex: "(\<And>x. x \<in> set xs \<Longrightarrow> x \<noteq> None) \<Longrightarrow> \<exists>ys. those xs = Some ys"
  using those_total by blast

text \<open>Every file that is waited for is locked exclusively.\<close>

definition exclusive_waits :: "server \<Rightarrow> bool" where
  "exclusive_waits s \<longleftrightarrow> (\<forall>t f. waiter s t f \<longrightarrow> (\<exists>u m. (u, f, m) \<in> held s \<and> m \<noteq> 0))"

lemma node_edges_waits:
  assumes inv: "lock_inv s xs" and ex: "exclusive_waits s" and i: "i < length (waiting_nodes (head_txn_list s))"
  defines "ns \<equiv> waiting_nodes (head_txn_list s)" and "ids \<equiv> map wg_txn_id (waiting_nodes (head_txn_list s))"
  shows "\<exists>u m. (u, wg_inode (ns ! i), m) \<in> held s \<and> m \<noteq> 0 \<and> (\<forall>v n. (v, wg_inode (ns ! i), n) \<in> held s \<longrightarrow> v = u) \<and>
     node_edges (lk s) ids i (wg_inode (ns ! i)) = Some (filter (\<lambda>j. ids ! j = u) ([Suc i..<length ids] @ [0..<i]))"
proof -
  have ok: "txns_ok (head_txn_list s)" using inv txn_view_sorted by (auto simp: lock_inv_def owner_ok_def)
  have "waiter s (wg_txn_id (ns ! i)) (wg_inode (ns ! i))" using waiting_nodes_nth [OF ok] i by (simp add: ns_def)
  then obtain u m where h: "(u, wg_inode (ns ! i), m) \<in> held s" "m \<noteq> 0" using ex unfolding exclusive_waits_def by blast
  have "v = u" if hb: "(v, wg_inode (ns ! i), n) \<in> held s" for v n
  proof (rule ccontr)
    assume "v \<noteq> u"
    obtain a where a: "a \<in> set xs" "parent_of (lk s) a = u" "ino (lk s) a = wg_inode (ns ! i)" "mode_of (lk s) a = m"
      using h(1) by (auto simp: held_grants [OF inv] grants_def grant_at_def)
    obtain b where b: "b \<in> set xs" "parent_of (lk s) b = v" "ino (lk s) b = wg_inode (ns ! i)"
      using hb by (auto simp: held_grants [OF inv] grants_def grant_at_def)
    have "compatible (lk s) xs" using inv by (simp add: lock_inv_def table_ok_def)
    then have "mode_of (lk s) a = 0" using a b \<open>v \<noteq> u\<close> unfolding compatible_def by metis
    then show False using a(4) h(2) by simp
  qed
  moreover have "node_edges (lk s) ids i (wg_inode (ns ! i)) = Some (filter (\<lambda>j. ids ! j = u) ([Suc i..<length ids] @ [0..<i]))"
    using node_edges_exclusive [OF inv h] i by (simp add: ids_def)
  ultimately show ?thesis using h by blast
qed

lemma graph_exclusive:
  assumes inv: "lock_inv s xs" and ex: "exclusive_waits s"
  shows "\<exists>g. construct_wait_for_graph s = Some g \<and> one_edge g \<and>
     (\<forall>t u. (t, u) \<in> waits_for s \<longrightarrow> (\<exists>i j. (i, j) \<in> wg_arcs g \<and> wg_txn_id (g ! i) = t \<and> wg_txn_id (g ! j) = u))"
proof -
  let ?ns = "waiting_nodes (head_txn_list s)" and ?ids = "map wg_txn_id (waiting_nodes (head_txn_list s))"
  have ok: "txns_ok (head_txn_list s)" using inv txn_view_sorted by (auto simp: lock_inv_def owner_ok_def)
  note edges = node_edges_waits [OF inv ex]
  have "\<exists>g. construct_wait_for_graph s = Some g"
    unfolding construct_wait_for_graph_def Let_def
  proof (rule those_ex)
    fix x
    assume "x \<in> set (map (\<lambda>(i, n). map_option (\<lambda>es. n\<lparr>wg_edge := es\<rparr>) (node_edges (lk s) ?ids i (wg_inode n))) (enumerate 0 ?ns))"
    then obtain i where "i < length ?ns" "x = map_option (\<lambda>es. (?ns ! i)\<lparr>wg_edge := es\<rparr>) (node_edges (lk s) ?ids i (wg_inode (?ns ! i)))"
      by (auto simp: in_set_conv_nth nth_enumerate_eq)
    then show "x \<noteq> None" using edges [of i] by auto
  qed
  then obtain g where g: "construct_wait_for_graph s = Some g" by blast
  note c = construct_nth [OF g refl]
  have len: "length ?ids = length g" using c(1) by simp
  have id: "wg_txn_id (g ! i) = ?ids ! i" if "i < length g" for i using c(2) [OF that] c(1) that by (simp add: wg_info_def)
  have same: "i = j" if "i < length g" "j < length g" "?ids ! i = ?ids ! j" for i j
    using nth_eq_iff_index_eq [OF waiting_ids_distinct [OF ok], of i j] that len by simp
  have e: "\<exists>u. wg_edge (g ! i) = filter (\<lambda>j. ?ids ! j = u) ([Suc i..<length g] @ [0..<i]) \<and>
      (\<forall>v n. (v, wg_inode (?ns ! i), n) \<in> held s \<longrightarrow> v = u)" if "i < length g" for i
    using edges [of i] c that len by auto
  have "one_edge g" unfolding one_edge_def
  proof (intro allI impI)
    fix i
    assume i: "i < length g"
    obtain u where u: "wg_edge (g ! i) = filter (\<lambda>j. ?ids ! j = u) ([Suc i..<length g] @ [0..<i])" using e [OF i] by blast
    have "filter (\<lambda>j. ?ids ! j = u) ([Suc i..<length g] @ [0..<i]) = [] \<or>
       (\<exists>j \<in> set ([Suc i..<length g] @ [0..<i]). filter (\<lambda>j. ?ids ! j = u) ([Suc i..<length g] @ [0..<i]) = [j])"
      using i by (intro filter_one) (auto intro: same)
    then show "wg_edge (g ! i) = [] \<or> (\<exists>j < length g. j \<noteq> i \<and> wg_edge (g ! i) = [j])" using u i by auto
  qed
  moreover have "\<exists>i j. (i, j) \<in> wg_arcs g \<and> wg_txn_id (g ! i) = t \<and> wg_txn_id (g ! j) = u" if w: "(t, u) \<in> waits_for s" for t u
  proof -
    obtain f m f' where f: "t \<noteq> u" "waiter s t f" "(u, f, m) \<in> held s" "waiter s u f'" using w by (auto simp: waits_for_def)
    obtain i where i: "i < length ?ns" "wg_txn_id (?ns ! i) = t" "wg_inode (?ns ! i) = f" using waiter_node [OF f(2)] by blast
    obtain j where j: "j < length ?ns" "wg_txn_id (?ns ! j) = u" using waiter_node [OF f(4)] by blast
    have ij: "i < length g" "j < length g" "i \<noteq> j" using i j c(1) f(1) by auto
    obtain v where v: "wg_edge (g ! i) = filter (\<lambda>j. ?ids ! j = v) ([Suc i..<length g] @ [0..<i])"
        "\<forall>v' n. (v', wg_inode (?ns ! i), n) \<in> held s \<longrightarrow> v' = v" using e [OF ij(1)] by blast
    have "u = v" using v(2) f(3) i(3) by blast
    then have "j \<in> set (wg_edge (g ! i))" using ij j by (auto simp: v(1))
    then have "(i, j) \<in> wg_arcs g" using ij(1) by (simp add: wg_arcs_def)
    moreover have "wg_txn_id (g ! i) = t" using id [OF ij(1)] i(1,2) by simp
    moreover have "wg_txn_id (g ! j) = u" using id [OF ij(2)] j by simp
    ultimately show ?thesis by blast
  qed
  ultimately show ?thesis using g by blast
qed

lemma waits_arcs:
  assumes g: "construct_wait_for_graph s = Some g" and ok: "txns_ok (head_txn_list s)"
    and arcs: "\<And>t u. (t, u) \<in> waits_for s \<Longrightarrow> \<exists>i j. (i, j) \<in> wg_arcs g \<and> wg_txn_id (g ! i) = t \<and> wg_txn_id (g ! j) = u"
    and inside: "arcs_inside g" and c: "(t, u) \<in> (waits_for s)\<^sup>+"
  shows "\<exists>i j. i < length g \<and> j < length g \<and> (i, j) \<in> (wg_arcs g)\<^sup>+ \<and> wg_txn_id (g ! i) = t \<and> wg_txn_id (g ! j) = u"
  using c
proof (induction rule: trancl_induct)
  case (base u)
  then show ?case using arcs [OF base] inside unfolding arcs_inside_def wg_arcs_def by blast
next
  case (step u v)
  obtain i j where i: "i < length g" "j < length g" "(i, j) \<in> (wg_arcs g)\<^sup>+" "wg_txn_id (g ! i) = t" "wg_txn_id (g ! j) = u" using step.IH by blast
  obtain k l where k: "(k, l) \<in> wg_arcs g" "wg_txn_id (g ! k) = u" "wg_txn_id (g ! l) = v" using arcs [OF step.hyps(2)] by blast
  have kl: "k < length g" "l < length g" using k(1) inside by (auto simp: wg_arcs_def arcs_inside_def)
  note n = construct_nth [OF g refl]
  have "wg_txn_id (waiting_nodes (head_txn_list s) ! j) = wg_txn_id (waiting_nodes (head_txn_list s) ! k)"
    using n(2) [OF i(2)] n(2) [OF kl(1)] i(5) k(2) by (simp add: wg_info_def)
  then have "j = k" using waiting_ids_distinct [OF ok] i(2) kl(1) n(1) nth_eq_iff_index_eq [of "map wg_txn_id (waiting_nodes (head_txn_list s))" j k] by simp
  then show ?case using i k kl by (blast intro: trancl_into_trancl)
qed

lemma in_deadlock_exclusive:
  assumes inv: "lock_inv s xs" and ex: "exclusive_waits s" and few: "length (waiting_nodes (head_txn_list s)) < 50"
  shows "\<exists>dl. in_deadlock s = Some dl \<and> (dl = [] \<longleftrightarrow> (\<forall>t. (t, t) \<notin> (waits_for s)\<^sup>+))"
proof -
  obtain g where g: "construct_wait_for_graph s = Some g" "one_edge g"
      "\<And>t u. (t, u) \<in> waits_for s \<Longrightarrow> \<exists>i j. (i, j) \<in> wg_arcs g \<and> wg_txn_id (g ! i) = t \<and> wg_txn_id (g ! j) = u"
    using graph_exclusive [OF inv ex] by blast
  note n = construct_nth [OF g(1) refl]
  have ok: "txns_ok (head_txn_list s)" using inv txn_view_sorted by (auto simp: lock_inv_def owner_ok_def)
  have inside: "arcs_inside g" using graph_arcs(2) [OF inv g(1)] by (auto simp: arcs_inside_def)
  obtain g' dl where r: "detect_cycles [0..<length g] (g, []) = Some (g', dl)" "dl = [] \<longrightarrow> (\<forall>i. (i, i) \<notin> (wg_arcs g)\<^sup>+)"
    using search_complete [OF g(2)] n few by auto
  then have d: "in_deadlock s = Some dl" using g(1) by (simp add: in_deadlock_def)
  have "(t, t) \<notin> (waits_for s)\<^sup>+" if "dl = []" for t
  proof
    assume "(t, t) \<in> (waits_for s)\<^sup>+"
    then obtain i j where i: "i < length g" "j < length g" "(i, j) \<in> (wg_arcs g)\<^sup>+" "wg_txn_id (g ! i) = t" "wg_txn_id (g ! j) = t"
      using waits_arcs [OF g(1) ok g(3) inside] by blast
    then have "i = j" using waiting_ids_distinct [OF ok] n(1) n(2) [OF i(1)] n(2) [OF i(2)]
        nth_eq_iff_index_eq [of "map wg_txn_id (waiting_nodes (head_txn_list s))" i j] by (simp add: wg_info_def)
    then show False using i(3) r(2) that by blast
  qed
  moreover have "\<exists>t. (t, t) \<in> (waits_for s)\<^sup>+" if "dl \<noteq> []"
  proof -
    obtain v f rest where "dl = (v, f) # rest" using \<open>dl \<noteq> []\<close> by (cases dl) auto
    then show ?thesis using in_deadlock_sound [OF inv] d by blast
  qed
  ultimately show ?thesis using d by blast
qed

end
