(* ===== verification/DeadlockProps.thy ===== *)
theory DeadlockProps
  imports DeadlockFound
begin

text \<open>
  What the detector of deadlocks does in the reachable states of the server: whom it names is in a
  deadlock; where every lock waited for is exclusive it finds a deadlock if there is one; behind a
  shared lock it can miss one, and after a release it can fault.  Runs of the server with named files
  show that each of these happens.
\<close>

section \<open>Runs\<close>

text \<open>A file system in which the number of a file is the length of its name.\<close>

definition names_env :: fs_env where
  "names_env = demo_env\<lparr>env_object_id := (\<lambda>p. int (length p)), env_stat := (\<lambda>p. Some (int (length p), False)),
     env_yaffs_stat := (\<lambda>p. Some (int (length p)))\<rparr>"

fun run_calls :: "(int \<times> call) list \<Rightarrow> system \<Rightarrow> system option" where
  "run_calls [] S = Some S"
| "run_calls ((t, c) # cs) S = do { S \<leftarrow> call_step names_env c t S; run_calls cs S }"

fun run_begins :: "int list \<Rightarrow> system \<Rightarrow> system option" where
  "run_begins [] S = Some S"
| "run_begins (t # ts) S = do { S \<leftarrow> begin_step t S; run_begins ts S }"

definition demo_run :: "int list \<Rightarrow> (int \<times> call) list \<Rightarrow> system option" where
  "demo_run ts cs = Option.bind (run_begins ts (sys_init [])) (run_calls cs)"

lemma run_calls_reachable: "run_calls cs S = Some S' \<Longrightarrow> reachable S \<Longrightarrow> reachable S'"
proof (induction cs arbitrary: S)
  case (Cons c cs)
  then obtain S1 where "call_step names_env (snd c) (fst c) S = Some S1" "run_calls cs S1 = Some S'"
    by (cases c) (auto simp: Option.bind_eq_Some_conv)
  then show ?case using Cons run_reachable(2) by blast
qed simp

lemma run_begins_reachable: "run_begins ts S = Some S' \<Longrightarrow> reachable S \<Longrightarrow> reachable S'"
  by (induction ts arbitrary: S) (auto simp: Option.bind_eq_Some_conv dest: run_reachable(1))

lemma demo_run_reachable: "demo_run ts cs = Some S \<Longrightarrow> reachable S"
  unfolding demo_run_def
  by (auto simp: Option.bind_eq_Some_conv dest!: run_calls_reachable intro: run_begins_reachable [OF _ reachable.init])

definition waiting_list :: "server \<Rightarrow> (int \<times> int) list" where
  "waiting_list s = map (\<lambda>n. (wg_txn_id n, wg_inode n)) (waiting_nodes (head_txn_list s))"

lemma waiter_waiting_list: "waiter s t f \<Longrightarrow> (t, f) \<in> set (waiting_list s)"
  using waiter_node [of s t f] by (force simp: waiting_list_def)

lemma waiting_list_waiter:
  assumes "txns_ok (head_txn_list s)" and "(t, f) \<in> set (waiting_list s)"
  shows "waiter s t f"
  using assms(2) waiting_nodes_nth [OF assms(1)] by (auto simp: waiting_list_def in_set_conv_nth)

lemma reachable_lock_inv: "reachable S \<Longrightarrow> \<exists>xs. lock_inv (srv S) xs"
  using reachable_inv [of S] by (auto simp: sys_inv_def)

lemma reachable_waiter: "reachable S \<Longrightarrow> waiter (srv S) t f \<longleftrightarrow> (t, f) \<in> set (waiting_list (srv S))"
  using reachable_lock_inv [of S] txn_view_sorted waiter_waiting_list waiting_list_waiter
  by (fastforce simp: lock_inv_def owner_ok_def)

section \<open>Properties\<close>

text \<open>C5: Whom the detector names is in a deadlock.  In every reachable state, if a round of the detector
  notes any transaction, the first one, which is the victim, is waiting for the file noted with it
  and lies on a cycle of transactions each of which waits for a file the next one has locked.\<close>

theorem victim_in_deadlock:
  assumes "reachable S" and "in_deadlock (srv S) = Some ((v, f) # rest)"
  shows "waiter (srv S) v f \<and> (v, v) \<in> (waits_for (srv S))\<^sup>+"
proof -
  obtain xs where "lock_inv (srv S) xs" using reachable_lock_inv [OF assms(1)] by blast
  then show ?thesis using in_deadlock_sound [OF _ assms(2)] by blast
qed

definition crossed :: "system option" where
  "crossed = demo_run [1, 2] [(1, Open ''/a'' ''2''), (2, Open ''/bb'' ''2''), (1, Open ''/bb'' ''2''), (2, Open ''/a'' ''2'')]"

lemma crossed_run: "map_option (\<lambda>S. (held_list (srv S), waiting_list (srv S), in_deadlock (srv S))) crossed =
    Some ([(1, 2, 1), (2, 3, 1)], [(1, 3), (2, 2)], Some [(1, 3), (2, 2)])"
  by code_simp

theorem victim_in_deadlock_witness:
  "\<exists>S. crossed = Some S \<and> in_deadlock (srv S) = Some [(1, 3), (2, 2)] \<and> waiter (srv S) 1 3 \<and> (1, 1) \<in> (waits_for (srv S))\<^sup>+"
proof -
  obtain S where S: "crossed = Some S" "in_deadlock (srv S) = Some [(1, 3), (2, 2)]" using crossed_run by auto
  have "reachable S" using S(1) demo_run_reachable by (simp add: crossed_def)
  then show ?thesis using victim_in_deadlock [OF _ S(2)] S by blast
qed

text \<open>C4: Where every file that is waited for is locked exclusively, and fewer than fifty transactions wait,
  a round of the detector always ends without a fault, and it notes a victim exactly if some
  transaction is in a deadlock.\<close>

theorem exclusive_deadlock_found:
  assumes "reachable S" and "\<forall>t f. waiter (srv S) t f \<longrightarrow> (\<exists>u m. (u, f, m) \<in> held (srv S) \<and> m \<noteq> 0)"
    and "length (waiting_nodes (head_txn_list (srv S))) < 50"
  shows "\<exists>dl. in_deadlock (srv S) = Some dl \<and> (dl = [] \<longleftrightarrow> (\<forall>t. (t, t) \<notin> (waits_for (srv S))\<^sup>+))"
proof -
  obtain xs where "lock_inv (srv S) xs" using reachable_lock_inv [OF assms(1)] by blast
  then show ?thesis using in_deadlock_exclusive [OF _ _ assms(3)] assms(2) by (simp add: exclusive_waits_def)
qed

theorem exclusive_deadlock_found_witness:
  "\<exists>S dl. crossed = Some S \<and> in_deadlock (srv S) = Some dl \<and> dl = [(1, 3), (2, 2)] \<and> (dl = [] \<longleftrightarrow> (\<forall>t. (t, t) \<notin> (waits_for (srv S))\<^sup>+))"
proof -
  obtain S where S: "crossed = Some S" "held_list (srv S) = [(1, 2, 1), (2, 3, 1)]" "waiting_list (srv S) = [(1, 3), (2, 2)]"
      "in_deadlock (srv S) = Some [(1, 3), (2, 2)]" using crossed_run by auto
  have r: "reachable S" using S(1) demo_run_reachable by (simp add: crossed_def)
  have e: "\<forall>t f. waiter (srv S) t f \<longrightarrow> (\<exists>u m. (u, f, m) \<in> held (srv S) \<and> m \<noteq> 0)"
    using S(2,3) by (auto simp: reachable_waiter [OF r] held_def)
  have "length (waiting_list (srv S)) = length (waiting_nodes (head_txn_list (srv S)))" by (simp add: waiting_list_def)
  then have "length (waiting_nodes (head_txn_list (srv S))) < 50" using S(3) by simp
  then show ?thesis using exclusive_deadlock_found [OF r e] S(1,4) by auto
qed

section \<open>What it misses\<close>

text \<open>Where no waiter is the owner of the record at hand, the loop ends where it began.\<close>

lemma link_edges_none:
  assumes "fl_heap m a = Some n" and "fl_parent_txn n \<notin> set ids" and "stop \<le> length ids"
  shows "j \<le> stop \<Longrightarrow> stop - j < k \<Longrightarrow> link_edges k m ids start stop j a es = Some (es, a)"
proof (induction k arbitrary: j)
  case (Suc k)
  show ?case
  proof (cases "j = stop")
    case False
    then have "ids ! j \<noteq> fl_parent_txn n" using assms(2,3) Suc.prems(1) by (metis le_neq_implies_less less_le_trans nth_mem)
    moreover have "link_edges k m ids start stop (Suc j) a es = Some (es, a)" using False Suc.prems by (intro Suc.IH) simp_all
    ultimately show ?thesis using False assms(1) by simp
  qed simp
qed simp

lemma node_edges_none:
  assumes "fl_find (\<lambda>n. fl_file_inode n = f) m = Some a" and "fl_heap m a = Some n" and "fl_parent_txn n \<notin> set ids" and "i < length ids"
  shows "node_edges m ids i f = Some []"
proof -
  let ?k = "Suc (length ids) * Suc (Suc (brk m))"
  have "link_edges ?k m ids (Suc i) (length ids) (Suc i) a [] = Some ([], a)" "link_edges ?k m ids 0 i 0 a [] = Some ([], a)"
    using assms(4) by (intro link_edges_none [OF assms(2,3)]; simp)+
  then show ?thesis using assms(1) by (simp add: node_edges_def Let_def del: link_edges.simps mult_Suc mult_Suc_right)
qed

text \<open>C28: The detector misses deadlocks behind shared locks: it looks at further records of a file only
  after it has found the owner of the first one among the waiters.  If the owner of the first record
  of the file that a transaction waits for is not waiting itself, the transaction never becomes the
  victim, whatever other locks on the file may keep it waiting for ever.\<close>

theorem deadlock_missed:
  assumes "reachable S" and "waiter (srv S) t f"
    and "fl_find (\<lambda>n. fl_file_inode n = f) (lk (srv S)) = Some a" and "fl_heap (lk (srv S)) a = Some n"
    and "\<forall>f'. \<not> waiter (srv S) (fl_parent_txn n) f'"
  shows "\<nexists>f' rest. in_deadlock (srv S) = Some ((t, f') # rest)"
proof (intro notI, elim exE)
  fix f' rest
  let ?ns = "waiting_nodes (head_txn_list (srv S))"
  assume "in_deadlock (srv S) = Some ((t, f') # rest)"
  then obtain g g' where g: "construct_wait_for_graph (srv S) = Some g" and r: "detect_cycles [0..<length g] (g, []) = Some (g', (t, f') # rest)"
    by (auto simp: in_deadlock_def Option.bind_eq_Some_conv)
  obtain xs where inv: "lock_inv (srv S) xs" using reachable_lock_inv [OF assms(1)] by blast
  then have ok: "txns_ok (head_txn_list (srv S))" using txn_view_sorted by (auto simp: lock_inv_def owner_ok_def)
  note c = construct_nth [OF g refl]
  have "arcs_inside g" using graph_arcs(2) [OF inv g] by (auto simp: arcs_inside_def)
  then have "search_ok g (g', (t, f') # rest)"
    by (rule detect_cycles_sound [OF _ r]) (simp_all add: search_ok_def first_on_cycle_def)
  then obtain j where j: "j < length g" "(t, f') = wg_info g j" "(j, j) \<in> (wg_arcs g)\<^sup>+" by (auto simp: search_ok_def first_on_cycle_def)
  have w: "waiter (srv S) (wg_txn_id (?ns ! j)) (wg_inode (?ns ! j))" using j(1) c(1) by (intro waiting_nodes_nth [OF ok]) simp
  have "wg_txn_id (?ns ! j) = t" using j(2) c(2) [OF j(1)] by (simp add: wg_info_def)
  then have f: "wg_inode (?ns ! j) = f" using w assms(2) by (auto simp: waiter_def)
  have "fl_parent_txn n \<notin> set (map wg_txn_id ?ns)"
  proof
    assume "fl_parent_txn n \<in> set (map wg_txn_id ?ns)"
    then obtain i where i: "i < length ?ns" "wg_txn_id (?ns ! i) = fl_parent_txn n" by (metis in_set_conv_nth length_map nth_map)
    show False using waiting_nodes_nth [OF ok i(1)] assms(5) i(2) by auto
  qed
  then have "node_edges (lk (srv S)) (map wg_txn_id ?ns) j (wg_inode (?ns ! j)) = Some []"
    using assms(3,4) j(1) c(1) unfolding f by (intro node_edges_none) simp_all
  then have "wg_edge (g ! j) = []" using c(2) [OF j(1)] by simp
  moreover obtain k where "(j, k) \<in> wg_arcs g" using tranclD [OF j(3)] by blast
  ultimately show False by (simp add: wg_arcs_def)
qed

definition crossed_shared :: "system option" where
  "crossed_shared = demo_run [1, 2, 3] [(3, Stat ''/a''), (1, Stat ''/a''), (2, Open ''/bb'' ''2''), (2, Open ''/a'' ''2''), (1, Open ''/bb'' ''2'')]"

lemma crossed_shared_run: "map_option (\<lambda>S. (held_list (srv S), waiting_list (srv S), in_deadlock (srv S),
      map_option (\<lambda>a. (a, map_option fl_parent_txn (fl_heap (lk (srv S)) a))) (fl_find (\<lambda>n. fl_file_inode n = 2) (lk (srv S))))) crossed_shared =
    Some ([(3, 2, 0), (1, 2, 0), (2, 3, 1)], [(1, 3), (2, 2)], Some [], Some (0, Some 3))"
  by code_simp

theorem deadlock_missed_witness:
  "\<exists>S. crossed_shared = Some S \<and> (2, 2) \<in> (waits_for (srv S))\<^sup>+ \<and> in_deadlock (srv S) = Some [] \<and>
     (\<nexists>f' rest. in_deadlock (srv S) = Some ((2, f') # rest))"
proof -
  obtain S a n where S: "crossed_shared = Some S" "held_list (srv S) = [(3, 2, 0), (1, 2, 0), (2, 3, 1)]" "waiting_list (srv S) = [(1, 3), (2, 2)]"
      "in_deadlock (srv S) = Some []"
    and a: "fl_find (\<lambda>n. fl_file_inode n = 2) (lk (srv S)) = Some a" "fl_heap (lk (srv S)) a = Some n" "fl_parent_txn n = 3"
    using crossed_shared_run by (auto split: option.splits)
  have r: "reachable S" using S(1) demo_run_reachable by (simp add: crossed_shared_def)
  note w = reachable_waiter [OF r, unfolded S(3)]
  have "(1, 2) \<in> waits_for (srv S)" "(2, 1) \<in> waits_for (srv S)" using S(2) by (auto simp: waits_for_def w held_def)
  then have "(2, 2) \<in> (waits_for (srv S))\<^sup>+" by (meson r_into_trancl trancl_into_trancl)
  moreover have "waiter (srv S) 2 2" "\<forall>f'. \<not> waiter (srv S) (fl_parent_txn n) f'" by (simp_all add: w a(3))
  ultimately show ?thesis using deadlock_missed [OF r _ a(1,2)] S(1,4) by blast
qed

section \<open>Where it faults\<close>

text \<open>C29: A release leaves the waiters of the file marked as waiting until they have run again.  A round of
  the detector between the two looks for the lock on the file, finds none and dereferences NULL: it
  faults in every reachable state where a transaction waits for a file that nobody has locked.\<close>

theorem detector_faults_after_release:
  assumes "reachable S" and "waiter (srv S) t f" and "\<nexists>u m. (u, f, m) \<in> held (srv S)"
  shows "in_deadlock (srv S) = None"
proof -
  obtain xs where inv: "lock_inv (srv S) xs" using reachable_lock_inv [OF assms(1)] by blast
  have "fl_find (\<lambda>n. fl_file_inode n = f) (lk (srv S)) \<noteq> Some a" for a
  proof
    assume "fl_find (\<lambda>n. fl_file_inode n = f) (lk (srv S)) = Some a"
    then obtain n where "a \<in> set xs" "fl_heap (lk (srv S)) a = Some n" "fl_file_inode n = f"
      using fl_find_member [of "lk (srv S)" xs] inv unfolding lock_inv_def table_ok_def by blast
    then have "(parent_of (lk (srv S)) a, f, mode_of (lk (srv S)) a) \<in> held (srv S)"
      by (auto simp: held_grants [OF inv] grants_def grant_at_def ino_def)
    then show False using assms(3) by blast
  qed
  then have none: "fl_find (\<lambda>n. fl_file_inode n = f) (lk (srv S)) = None" by (metis option.exhaust)
  obtain i where i: "i < length (waiting_nodes (head_txn_list (srv S)))" "wg_inode (waiting_nodes (head_txn_list (srv S)) ! i) = f"
    using waiter_node [OF assms(2)] by blast
  have "construct_wait_for_graph (srv S) \<noteq> Some g" for g
  proof
    assume g: "construct_wait_for_graph (srv S) = Some g"
    have "node_edges (lk (srv S)) ids j f = None" for ids j using none by (simp add: node_edges_def)
    then show False using construct_nth(1) [OF g refl] construct_nth(2) [OF g refl, of i] i by simp
  qed
  then have "construct_wait_for_graph (srv S) = None" by (metis option.exhaust)
  then show ?thesis by (simp add: in_deadlock_def)
qed

definition released_early :: "system option" where
  "released_early = demo_run [1, 2] [(1, Open ''/a'' ''2''), (2, Open ''/a'' ''2''), (1, Commit)]"

lemma released_early_run: "map_option (\<lambda>S. (held_list (srv S), waiting_list (srv S))) released_early = Some ([], [(2, 2)])"
  by code_simp

theorem detector_faults_after_release_witness:
  "\<exists>S. released_early = Some S \<and> in_deadlock (srv S) = None"
proof -
  obtain S where S: "released_early = Some S" "held_list (srv S) = []" "waiting_list (srv S) = [(2, 2)]" using released_early_run by auto
  have r: "reachable S" using S(1) demo_run_reachable by (simp add: released_early_def)
  have "waiter (srv S) 2 2" using S(3) by (simp add: reachable_waiter [OF r])
  moreover have "\<nexists>u m. (u, 2, m) \<in> held (srv S)" using S(2) by (simp add: held_def)
  ultimately show ?thesis using detector_faults_after_release [OF r] S(1) by blast
qed

section \<open>A round is a step of the system\<close>

lemma deadlock_round_step:
  assumes "deadlock_round (srv S) = Some s"
  shows "s = srv S \<or> (\<exists>t. sys_step t S (S\<lparr>srv := s\<rparr>))"
proof -
  obtain dl where dl: "in_deadlock (srv S) = Some dl" using assms by (auto simp: deadlock_round_def Option.bind_eq_Some_conv)
  show ?thesis
  proof (cases dl)
    case (Cons x rest)
    then show ?thesis using assms dl by (cases x) (auto simp: deadlock_round_def intro!: sys_step.detects)
  qed (use assms dl in \<open>simp add: deadlock_round_def\<close>)
qed

section \<open>The state of the server\<close>

text \<open>C3: The data structures of the server stay well-formed.  In every reachable state the lock list is a
  proper doubly linked list, without repetition, of allocated records sorted by inode with modes 0 and
  1; the walk from its head yields exactly its records; the table of transactions is sorted with
  distinct numbers; and each transaction's own list of records consists of exactly the records of the
  lock list that name it as their owner, so that no record is without one.\<close>

theorem reachable_well_formed:
  assumes "reachable S"
  defines "m \<equiv> lk (srv S)" and "xs \<equiv> walk_list (fl_heap (lk (srv S))) fl_next (brk (lk (srv S))) (head_lock_list (lk (srv S)))"
  shows "lock_list m xs \<and> distinct xs \<and> sorted (map (ino m) xs) \<and> (\<forall>a \<in> set xs. fl_heap m a \<noteq> None \<and> (mode_of m a = 0 \<or> mode_of m a = 1)) \<and>
     sorted_wrt (<) (txn_ids (head_txn_list (srv S))) \<and>
     (\<forall>n \<in> set (head_txn_list (srv S)). \<exists>as. lpath (fl_heap m) fl_next_txn (tn_file_rec_no n) as None \<and> set as = {a \<in> set xs. parent_of m a = tn_txn_id n}) \<and>
     (\<forall>a \<in> set xs. parent_of m a \<in> set (txn_ids (head_txn_list (srv S))))"
proof -
  obtain ys where inv: "lock_inv (srv S) ys" using reachable_lock_inv [OF assms(1)] by blast
  then have l: "lock_list m ys" and t: "table_ok m ys" and o: "owner_ok m (txn_view (head_txn_list (srv S))) ys"
    by (simp_all add: lock_inv_def table_ok_def m_def)
  have x: "xs = ys" using lock_list_path [OF l] lock_list_length [OF l] unfolding xs_def m_def by (intro walk_list_path)
  have ids: "map fst (txn_view ts) = txn_ids ts" for ts by (simp add: txn_view_def o_def)
  have "fst ` set (txn_view ts) = set (txn_ids ts)" for ts unfolding ids [symmetric] by simp
  then have "sorted_wrt (<) (txn_ids (head_txn_list (srv S)))" "\<forall>a \<in> set ys. parent_of m a \<in> set (txn_ids (head_txn_list (srv S)))"
    using o by (simp_all add: owner_ok_def ids)
  moreover have "\<forall>n \<in> set (head_txn_list (srv S)). \<exists>as. lpath (fl_heap m) fl_next_txn (tn_file_rec_no n) as None \<and> set as = {a \<in> set ys. parent_of m a = tn_txn_id n}"
    using o by (auto simp: owner_ok_def owned_def txn_view_def)
  ultimately show ?thesis unfolding x
    using l t lock_list_distinct [OF l] lock_list_alloc [OF l] by (auto simp: table_ok_def inodes_sorted_def compatible_def)
qed

theorem reachable_well_formed_witness:
  "\<exists>S xs. crossed = Some S \<and> xs = walk_list (fl_heap (lk (srv S))) fl_next (brk (lk (srv S))) (head_lock_list (lk (srv S))) \<and>
     map (grant_at (lk (srv S))) xs = [(1, 2, 1), (2, 3, 1)] \<and> lock_list (lk (srv S)) xs \<and> distinct xs \<and> sorted (map (ino (lk (srv S))) xs)"
proof -
  obtain S where S: "crossed = Some S" "held_list (srv S) = [(1, 2, 1), (2, 3, 1)]" using crossed_run by auto
  have "reachable S" using S(1) demo_run_reachable by (simp add: crossed_def)
  note w = reachable_well_formed [OF this]
  show ?thesis using S(2) w [THEN conjunct1] w [THEN conjunct2, THEN conjunct1] w [THEN conjunct2, THEN conjunct2, THEN conjunct1]
    unfolding held_list_def by (intro exI conjI refl) (rule S(1) refl | assumption)+
qed

end
