(* ===== verification/WaitCount.thy ===== *)
theory WaitCount
  imports BackupSafe
begin

text \<open>
  Who counts the waiters.  No operation of the server touches a counter of the wait list but those that make a
  thread wait or let a waiting thread go on; so whatever a call does, on its way or up to the place where it
  stops, the counters are right for the threads that wait.  The handlers get this from \<open>lock_service\<close>.
\<close>

section \<open>Operations that leave the counters alone\<close>

definition same_waits :: "server \<Rightarrow> server \<Rightarrow> bool" where
  "same_waits s s' \<longleftrightarrow> waits_view s' = waits_view s"

lemma same_waits_refl [simp]: "same_waits s s"
  by (simp add: same_waits_def)

lemma same_waits_list: "head_wait_list s' = head_wait_list s \<Longrightarrow> same_waits s s'"
  by (simp add: same_waits_def waits_view_def)

lemma same_waits_head [simp]:
  "same_waits s (s'\<lparr>lk := m\<rparr>) = same_waits s s'" "same_waits s (s'\<lparr>head_txn_list := ts\<rparr>) = same_waits s s'"
  "same_waits s (s'\<lparr>st := z\<rparr>) = same_waits s s'" "same_waits s (s'\<lparr>pz := p\<rparr>) = same_waits s s'"
  "same_waits s (s'\<lparr>BACKUP := b\<rparr>) = same_waits s s'" "same_waits s (emit c s') = same_waits s s'"
  "same_waits s (close_if P g fd s') = same_waits s s'" "same_waits s (flush_log s') = same_waits s s'"
  by (simp_all add: same_waits_def waits_view_def emit_def close_if_def flush_log_def)

lemma counted_same: "same_waits s s' \<Longrightarrow> counted C s \<Longrightarrow> counted C s'"
  using counted_view [of s' s C] by (simp add: same_waits_def)

lemma same_waits_trans: "same_waits s1 s2 \<Longrightarrow> same_waits s2 s3 \<Longrightarrow> same_waits s1 s3"
  by (simp add: same_waits_def)

lemma post_waits:
  assumes "same_waits s s1" and "post m (same_waits s1)" and "\<And>s2. same_waits s s2 \<Longrightarrow> post (k s2) P"
  shows "post (Option.bind m k) P"
  by (rule post_bind, rule assms(3), rule same_waits_trans [OF assms(1)], rule postD [OF assms(2)])

lemma post_waits_snd:
  assumes "same_waits s s1" and "post m (\<lambda>(_, s2). same_waits s1 s2)" and "\<And>r s2. same_waits s s2 \<Longrightarrow> post (k r s2) P"
  shows "post (do { (r, s2) \<leftarrow> m; k r s2 }) P"
proof (rule post_bind, rule post_prod)
  fix x r s2
  assume "m = Some x" "x = (r, s2)"
  then have "same_waits s1 s2" using postD [OF assms(2)] by fastforce
  then show "post (k r s2) P" using same_waits_trans [OF assms(1)] assms(3) by blast
qed

lemma waits_step: "same_waits s s1 \<Longrightarrow> post m (same_waits s1) \<Longrightarrow> post m (same_waits s)"
  by (erule post_weaken) (simp add: same_waits_def)

lemma set_txn_waits: "post (set_txn t g s) (same_waits s)"
  unfolding set_txn_def by (intro post_intros) simp

lemma wake_up_waits: "post (wake_up f s) (same_waits s)"
  using wakers_view(1) by (auto simp: post_def same_waits_def)

lemma log_waits: "post m (\<lambda>(_, s'). log_only s s') \<Longrightarrow> post m (\<lambda>(_, s'). same_waits s s')"
  by (erule post_weaken) (auto simp: log_only_def intro: same_waits_list)

lemma perform_delayed_waits: "post (perform_delayed a s) (same_waits s)"
  using perform_delayed_calm by (auto simp: post_def calm_def intro: same_waits_list)

lemma release_node_waits:
  assumes "\<And>fd s'. same_waits s (cl0 fd s') = same_waits s s'" and "\<And>fd s'. same_waits s (cl1 fd s') = same_waits s s'"
  shows "post (release_node cl0 cl1 a s) (same_waits s)"
  unfolding release_node_def Let_def
  by (intro post_intros waits_step [OF _ wake_up_waits]) (simp_all add: assms)

lemma release_success_waits: "same_waits s0 s \<Longrightarrow> post (release_success_loop k t p s) (same_waits s0)"
proof (induction k arbitrary: p s)
  case 0
  then show ?case by (simp add: post_None)
next
  case (Suc k)
  show ?case unfolding release_success_loop.simps
    by (rule post_option, rule post_Some, rule Suc.prems, rule post_waits [OF Suc.prems perform_delayed_waits], rule post_bind,
      erule post_waits, rule release_node_waits, simp, simp, rule Suc.IH)
qed

lemma release_abort_waits: "same_waits s0 s \<Longrightarrow> post (release_abort_loop k t p s) (same_waits s0)"
proof (induction k arbitrary: p s)
  case 0
  then show ?case by (simp add: post_None)
next
  case (Suc k)
  have r: "post (release_node (close_if P f) (close_if Q g) a s) (same_waits s)" for P Q f g a s
    by (rule release_node_waits) simp_all
  show ?case unfolding release_abort_loop.simps
    by (intro post_intros post_waits [OF _ r] Suc.IH) (use Suc.prems in simp_all)
qed

lemma txn_delete_waits: "post (txn_delete t s) (same_waits s)"
  unfolding txn_delete_def by (intro post_intros) simp

lemma release_locks_waits:
  "post (release_locks_on_abort t s) (same_waits s)" "post (release_locks_on_success t s) (same_waits s)"
  unfolding release_locks_on_abort_def release_locks_on_success_def
  by (rule post_bind, rule post_waits [OF same_waits_refl set_txn_waits], rule release_abort_waits, simp)
    (rule post_bind, rule post_waits [OF same_waits_refl set_txn_waits], rule release_success_waits, simp)

lemma finish_waits: "post (on_txn_abort t s) (\<lambda>(_, s'). same_waits s s')" "post (on_txn_commit t s) (\<lambda>(_, s'). same_waits s s')"
proof -
  have e: "post (do { p \<leftarrow> get_prev_log_LRN t s1; s2 \<leftarrow> txn_delete t s1; (_, s3) \<leftarrow> log_txn_end t p s2; Some (t, s3) }) (\<lambda>(_, s'). same_waits s s')"
    if "same_waits s s1" for s1
    by (rule post_bind, rule post_waits [OF that txn_delete_waits], erule post_waits_snd, rule log_waits, rule log_call_only(3), simp add: post_Some)
  show "post (on_txn_abort t s) (\<lambda>(_, s'). same_waits s s')"
    unfolding on_txn_abort_def
    by (rule post_waits_snd [OF same_waits_refl log_waits [OF log_call_only(1)]], erule post_waits, rule release_locks_waits, erule e)
  show "post (on_txn_commit t s) (\<lambda>(_, s'). same_waits s s')"
    unfolding on_txn_commit_def
    by (rule post_waits_snd [OF same_waits_refl log_waits [OF log_call_only(2)]], erule post_waits, rule release_locks_waits, erule e)
qed

section \<open>A request for a lock\<close>

lemma mutually_serializable_waits: "post (mutually_serializable t rb s) (\<lambda>(_, s'). same_waits s s')"
proof -
  have a: "post (do { (_, s') \<leftarrow> on_txn_abort t s0; Some (Aborted, s') }) (\<lambda>(_, s'). same_waits s s')" if "same_waits s s0" for s0
    by (rule post_waits_snd [OF that finish_waits(1)], simp add: post_Some)
  show ?thesis unfolding mutually_serializable_def Let_def
    by (intro post_intros a) (auto simp: same_waits_def waits_view_def)
qed

lemma insert_same_txn_waits: "post (insert_same_txn_list t rb a s) (same_waits s)"
  unfolding insert_same_txn_list_def
  by (rule post_bind, rule post_option, rule set_txn_waits, intro post_intros) simp

lemma post_ms:
  "(r = Serializable \<Longrightarrow> post a P) \<Longrightarrow> (r = Pausing \<Longrightarrow> post b P) \<Longrightarrow> (r = Aborted \<Longrightarrow> post c P) \<Longrightarrow>
   post (case r of Serializable \<Rightarrow> a | Pausing \<Rightarrow> b | Aborted \<Rightarrow> c) P"
  by (cases r) simp_all

lemma grant_waits:
  "post (grant_unlocked f t rb a loc s) (\<lambda>(out, s'). same_waits s s' \<and> out \<notin> {Asleep, Awaiting})"
  "post (grant_shared t rb a b s) (\<lambda>(out, s'). same_waits s s' \<and> out \<notin> {Asleep, Awaiting})"
proof -
  have c: "post (if t \<noteq> 0 then if BACKUP s = INACTIVE then Some (Serializable, s) else mutually_serializable t rb s else Some (Serializable, s)) (\<lambda>(_, s'). same_waits s s')"
      "post (if t \<noteq> 0 then mutually_serializable t rb s else Some (Serializable, s)) (\<lambda>(_, s'). same_waits s s')"
    using mutually_serializable_waits by (simp_all add: post_Some)
  have g: "post (do { s2 \<leftarrow> insert_same_txn_list t rb a s1; Some (Got a, s2) }) (\<lambda>(out, s'). same_waits s s' \<and> out \<notin> {Asleep, Awaiting})"
    if "same_waits s s1" for s1
    by (rule post_waits [OF that insert_same_txn_waits], simp add: post_Some)
  show "post (grant_unlocked f t rb a loc s) (\<lambda>(out, s'). same_waits s s' \<and> out \<notin> {Asleep, Awaiting})"
    unfolding grant_unlocked_def
    by (rule post_waits_snd [OF same_waits_refl c(1)], rule post_ms, rule post_bind, rule g, simp,
      simp add: post_Some, rule post_bind, simp add: post_Some)
  show "post (grant_shared t rb a b s) (\<lambda>(out, s'). same_waits s s' \<and> out \<notin> {Asleep, Awaiting})"
    unfolding grant_shared_def
    by (rule post_waits_snd [OF same_waits_refl c(2)], rule post_ms, rule post_bind, rule post_bind, rule g, simp, simp_all add: post_Some)
qed

text \<open>The counters where a thread stops: it is counted if it waits for the file.\<close>

definition waiting :: "(int \<Rightarrow> nat) \<Rightarrow> int \<Rightarrow> lock_out \<Rightarrow> server \<Rightarrow> bool" where
  "waiting C f out s \<longleftrightarrow> counted (if out \<in> {Asleep, Awaiting} then one_more C f else C) s"

lemma waiting_same: "counted C s \<Longrightarrow> post m (\<lambda>(out, s'). same_waits s s' \<and> out \<notin> {Asleep, Awaiting}) \<Longrightarrow> post m (\<lambda>(out, s'). waiting C f out s')"
  by (erule post_weaken) (auto simp: waiting_def dest: counted_same)

lemma block_request_counts:
  assumes "counted C s"
  shows "post (block_request f fl t a s) (\<lambda>(out, s'). waiting C f out s')"
  unfolding block_request_def Let_def start_waiting_def
proof (rule post_waits [OF same_waits_refl set_txn_waits], rule post_bind)
  fix s1 m
  assume s1: "same_waits s s1"
  let ?s = "s1\<lparr>lk := m\<rparr>"
  have c: "counted C ?s" by (rule counted_same [OF _ assms]) (simp add: s1)
  have f: "map_option wn_in_wait (wmap ?s f) = map_option wn_in_wait (wmap s f)"
    using s1 by (simp add: wmap_def search_waits_view same_waits_def waits_view_def)
  show "post (do { s2 \<leftarrow> (case search_wait_list f (head_wait_list s) of None \<Rightarrow> insert_wait_list f t ?s
       | Some w \<Rightarrow> update_wait_list (wn_file_inode w) t ?s); Some (Asleep, s2) }) (\<lambda>(out, s'). waiting C f out s')"
  proof (rule post_bind, rule post_Some, rule case_prodI)
    fix s2
    assume s2: "(case search_wait_list f (head_wait_list s) of None \<Rightarrow> insert_wait_list f t ?s
       | Some w \<Rightarrow> update_wait_list (wn_file_inode w) t ?s) = Some s2"
    have "counted (one_more C f) s2"
    proof (cases "wmap s f")
      case None
      then have "wmap ?s f = None" using f by simp
      moreover have "insert_wait_list f t ?s = Some s2" using s2 None by (simp add: wmap_def)
      ultimately show ?thesis by (rule counted_blocks(1) [OF c])
    next
      case (Some w)
      then obtain w' where "wmap ?s f = Some w'" using f by auto
      moreover have "update_wait_list f t ?s = Some s2" using s2 Some wmap_inode [OF Some] by (simp add: wmap_def)
      ultimately show ?thesis by (rule counted_blocks(2) [OF c])
    qed
    then show "waiting C f Asleep s2" by (simp add: waiting_def)
  qed
qed

lemma request_counts:
  assumes "counted C s"
  shows "post (resume f fl t rb s) (\<lambda>(out, s'). waiting C f out s')"
proof -
  have c: "counted C (s\<lparr>lk := m\<rparr>)" for m by (rule counted_same [OF _ assms]) simp
  note b = block_request_counts [OF c] and g = waiting_same [OF c grant_waits(1)] waiting_same [OF c grant_waits(2)]
  have got: "waiting C f (Got a) (s\<lparr>lk := m\<rparr>)" for a m using c by (simp add: waiting_def)
  show ?thesis unfolding resume_def insert_file_list_def Let_def
    by (intro post_intros b g) (simp_all add: got)
qed

section \<open>The handlers and the threads that run again\<close>

interpretation counts: lock_service "counted C" t "waiting C" for C t
proof
  show "counted C s'" if "counted C s" "io_step s s'" for s s'
    using that by (auto simp: io_step_def intro: counted_same same_waits_list)
  show "post (on_txn_abort t s) (\<lambda>(_, s'). counted C s')" if "counted C s" for s
    by (rule post_weaken [OF finish_waits(1)]) (use that counted_same in auto)
  show "post (resume f fl t rb s) (\<lambda>(out, s'). case out of Got a \<Rightarrow> counted C s' | _ \<Rightarrow> waiting C f out s')" if "counted C s" for f fl rb s
    by (rule post_weaken [OF request_counts [OF that]]) (auto simp: waiting_def split: lock_out.splits)
  show "counted C s" if "waiting C f Refused s" for f s
    using that by (simp add: waiting_def)
qed

lemma refuse_counts: "counted C s \<Longrightarrow> post (refuse_victim t s) (\<lambda>(out, s'). waiting C f out s')"
  unfolding refuse_victim_def by (rule post_waits_snd [OF same_waits_refl finish_waits(1)]) (auto simp: post_Some waiting_def dest: counted_same)

lemma try_again_counts: "counted C s \<Longrightarrow> post (try_again f fl t rb s) (\<lambda>(out, s'). waiting C f out s')"
  unfolding try_again_def stop_waiting_def
  by (rule post_waits [OF same_waits_refl set_txn_waits]) (auto intro: request_counts counted_same)

lemma woken_counts:
  assumes "counted (one_more C f) s"
  shows "post (woken_lock f t s) (\<lambda>(out, s'). waiting C f out s')"
    "post (victim_lock f t s) (\<lambda>(out, s'). waiting C f out s')" "post (victim_woken f t s) (\<lambda>(out, s'). waiting C f out s')"
proof -
  obtain out s1 where s1: "after_wake f t s = Some (out, s1)" "counted (if out \<in> {Resume, Abort_now} then C else one_more C f) s1"
    using counted_after_wake [OF assms, of t] by blast
  show "post (woken_lock f t s) (\<lambda>(out, s'). waiting C f out s')"
    using s1(2) by (cases out) (simp_all add: woken_lock_def s1(1) waiting_def post_Some)
  have a: "post (do { s2 \<leftarrow> abort_after_wake f s0; Some (Doomed, s2) }) (\<lambda>(out, s'). waiting C f out s')" if "counted (one_more C f) s0" for s0
    using counted_abort_after_wake [OF that] by (auto simp: waiting_def post_Some)
  show "post (victim_lock f t s) (\<lambda>(out, s'). waiting C f out s')"
    unfolding victim_lock_def
  proof (rule post_bind, rule post_prod)
    fix x b s0
    assume "await_wake f t s = Some x" "x = (b, s0)"
    then have "counted (one_more C f) s0" using wakers_view(4) counted_view assms by blast
    then show "post (if b then Some (Awaiting, s0) else do { s2 \<leftarrow> abort_after_wake f s0; Some (Doomed, s2) }) (\<lambda>(out, s'). waiting C f out s')"
      using a by (simp add: post_Some waiting_def)
  qed
  show "post (victim_woken f t s) (\<lambda>(out, s'). waiting C f out s')"
    unfolding victim_woken_def
  proof (rule post_bind)
    fix s0
    assume "leave_wake_cond f t s = Some s0"
    then have "counted (one_more C f) s0" using wakers_view(3) counted_view assms by blast
    then show "post (do { s2 \<leftarrow> abort_after_wake f s0; Some (Doomed, s2) }) (\<lambda>(out, s'). waiting C f out s')" by (rule a)
  qed
qed

lemma unpaused_counts:
  assumes "counted C s"
  shows "post (unpaused_lock f fl t rb p s) (\<lambda>(out, s'). waiting C f out s')"
proof -
  have "post (after_pause t s) (same_waits s)" unfolding after_pause_def
    by (rule post_waits [OF same_waits_refl set_txn_waits]) (simp add: post_Some)
  then show ?thesis unfolding unpaused_lock_def
    by (rule post_waits [OF same_waits_refl], intro post_bind request_counts) (rule counted_same [OF _ assms], simp)
qed

section \<open>The backup\<close>

definition backup_counts :: "(int \<Rightarrow> nat) \<Rightarrow> bck_out \<times> server \<Rightarrow> bool" where
  "backup_counts C r \<longleftrightarrow> (case r of (Turn_done b, s) \<Rightarrow> counted C s | (Bck_wait f out path b, s) \<Rightarrow> waiting C f out s)"

lemma counted_emit [simp]: "counted C (emit c s) = counted C s"
  by (rule counted_view) (simp add: waits_view_def emit_def)

lemma release_by_backup_waits: "post (release_locks_by_backup t f s) (same_waits s)"
proof -
  have "post (release_node (\<lambda>fd s. s) (\<lambda>fd s. s) a s1) (same_waits s)" if "same_waits s s1" for a s1
    by (rule waits_step [OF that release_node_waits]) simp_all
  then show ?thesis unfolding release_locks_by_backup_def
    by (intro post_bind post_prod) (auto split: option.splits dest!: postD [OF set_txn_waits] simp: Option.bind_eq_Some_conv)
qed

lemma post_counted: "counted C s \<Longrightarrow> post m (same_waits s) \<Longrightarrow> (\<And>s'. counted C s' \<Longrightarrow> post (k s') P) \<Longrightarrow> post (Option.bind m k) P"
  by (rule post_bind) (auto dest: postD intro: counted_same)

lemma io_waits: "post m (io_step s) \<Longrightarrow> post m (same_waits s)"
  by (erule post_weaken) (auto simp: io_step_def intro: same_waits_list)

lemma locked_counts:
  assumes "counted C s"
  shows "post (locked env path b a s) (backup_counts C)"
proof -
  have e: "counted C (copy_inode b s)" "counted C (mark_as_read b path s') = counted C s'" for s'
    using assms by (simp_all add: copy_inode_def mark_as_read_def)
  have d: "post (copy_locked_dir env path b a s) (\<lambda>(_, s'). counted C s')"
    unfolding copy_locked_dir_def Let_def
    by (rule post_counted [OF e(1)], rule io_waits, rule set_offset_io, simp, erule post_counted, rule io_waits, rule copy_io(3),
      intro post_bind, rule post_Some) (use e(2) release_by_backup_waits counted_same in \<open>auto dest!: postD [OF release_by_backup_waits]\<close>)
  have f: "post (copy_locked_file env path b a s) (\<lambda>(_, s'). counted C s')"
    unfolding copy_locked_file_def Let_def
    by (rule post_counted [OF e(1)], rule io_waits, rule set_offset_io, simp add: no_io_def, erule post_counted, rule io_waits, rule copy_io(4),
      intro post_bind, rule post_Some) (use e(2) release_by_backup_waits counted_same in \<open>auto dest!: postD [OF release_by_backup_waits]\<close>)
  show ?thesis unfolding locked_def
    by (rule post_bind, rule post_prod, rule post_Some) (use d f in \<open>auto simp: backup_counts_def split: if_splits dest: postD\<close>)
qed

lemma bck_deliver_counts: "waiting C f (fst r) (snd r) \<Longrightarrow> post (bck_deliver env f path b r) (backup_counts C)"
  by (cases r; cases "fst r") (auto simp: bck_deliver_def waiting_def backup_counts_def post_Some post_None intro: locked_counts)

lemma bck_turn_counts:
  assumes "counted C s"
  shows "post (bck_turn env rb b s) (backup_counts C)"
proof -
  have r: "post (lock_file env path rb s) (\<lambda>(f, out, s'). waiting C f out s')" for path
    using request_counts [OF assms] by (fastforce simp: lock_file_def resume_def post_def Option.bind_eq_Some_conv)
  have "post (do { (f, r) \<leftarrow> lock_file env path rb s; bck_deliver env f path b' r }) (backup_counts C)" for path b'
    by (rule post_bind, rule post_prod, rule bck_deliver_counts) (auto dest!: postD [OF r])
  note lf = this
  show ?thesis unfolding bck_turn_def Let_def lock_directory_def
    by (rule post_bind, rule post_prod, rule post_option, simp add: post_Some backup_counts_def assms, rule post_if,
      simp add: post_Some backup_counts_def assms, simp, rule lf)
qed

end
