(* ===== verification/WaitSystem.thy ===== *)
theory WaitSystem
  imports System WaitCount
begin

text \<open>
  The counters of the wait list in the server as a whole: in every state the threads can reach together, \<open>in_wait\<close>
  of a wait node is the number of threads that wait for its file.
\<close>

section \<open>Who waits\<close>

definition waiters :: "system \<Rightarrow> int \<Rightarrow> int set" where
  "waiters S f = {t. \<exists>fl how stg. client S t = Parked f fl how stg \<and> how \<in> {Asleep, Awaiting}} \<union>
     {t. t = 0 \<and> (\<exists>how path b. backup S = Bck_parked f how path b \<and> how \<in> {Asleep, Awaiting})}"

definition wait_inv :: "system \<Rightarrow> bool" where
  "wait_inv S \<longleftrightarrow> finite {t. client S t \<noteq> Idle} \<and> client S 0 = Idle \<and> counted (\<lambda>f. card (waiters S f)) (srv S)"

definition others :: "int \<Rightarrow> system \<Rightarrow> int \<Rightarrow> nat" where
  "others t S f = card (waiters S f - {t})"

lemma waiters_finite: "wait_inv S \<Longrightarrow> finite (waiters S f)"
proof -
  assume "wait_inv S"
  then have "finite (insert 0 {t. client S t \<noteq> Idle})" by (simp add: wait_inv_def)
  then show ?thesis by (rule rev_finite_subset) (auto simp: waiters_def)
qed

lemma card_others: "finite (waiters S f) \<Longrightarrow> card (waiters S f) = (if t \<in> waiters S f then Suc (others t S f) else others t S f)"
  using card.remove [of "waiters S f" t] by (simp add: others_def)

lemma wait_inv_client: "wait_inv S \<Longrightarrow> client S t = Parked f fl how stg \<Longrightarrow> t \<noteq> 0"
  by (auto simp: wait_inv_def)

text \<open>The counters in the view of one thread: the others', and its own if it waits.\<close>

lemma client_view:
  assumes inv: "wait_inv S" and t: "t \<noteq> 0"
  shows "client S t = Idle \<Longrightarrow> counted (others t S) (srv S)"
    "client S t = Parked f fl how stg \<Longrightarrow> waiting (others t S) f how (srv S)"
proof -
  have c: "counted (\<lambda>f. card (waiters S f)) (srv S)" using inv by (simp add: wait_inv_def)
  show "counted (others t S) (srv S)" if "client S t = Idle"
  proof -
    have "t \<notin> waiters S g" for g using that t by (simp add: waiters_def)
    then have "(\<lambda>g. card (waiters S g)) = others t S" using card_others [OF waiters_finite [OF inv], of _ t] by (simp add: fun_eq_iff)
    then show ?thesis using c by simp
  qed
  show "waiting (others t S) f how (srv S)" if "client S t = Parked f fl how stg"
  proof -
    have "t \<in> waiters S g \<longleftrightarrow> g = f \<and> how \<in> {Asleep, Awaiting}" for g using that t by (auto simp: waiters_def)
    then have "(\<lambda>g. card (waiters S g)) = (if how \<in> {Asleep, Awaiting} then one_more (others t S) f else others t S)"
      using card_others [OF waiters_finite [OF inv], of _ t] by (auto simp: fun_eq_iff)
    then show ?thesis using c by (simp add: waiting_def)
  qed
qed

lemma backup_view:
  assumes inv: "wait_inv S"
  shows "\<not> (\<exists>f how path b. backup S = Bck_parked f how path b) \<Longrightarrow> counted (others 0 S) (srv S)"
    "backup S = Bck_parked f how path b \<Longrightarrow> waiting (others 0 S) f how (srv S)"
proof -
  have c: "counted (\<lambda>f. card (waiters S f)) (srv S)" and i: "client S 0 = Idle" using inv by (simp_all add: wait_inv_def)
  show "counted (others 0 S) (srv S)" if "\<not> (\<exists>f how path b. backup S = Bck_parked f how path b)"
  proof -
    have "0 \<notin> waiters S g" for g using that i by (auto simp: waiters_def)
    then have "(\<lambda>g. card (waiters S g)) = others 0 S" using card_others [OF waiters_finite [OF inv], of _ 0] by (simp add: fun_eq_iff)
    then show ?thesis using c by simp
  qed
  show "waiting (others 0 S) f how (srv S)" if "backup S = Bck_parked f how path b"
  proof -
    have "0 \<in> waiters S g \<longleftrightarrow> g = f \<and> how \<in> {Asleep, Awaiting}" for g using that i by (auto simp: waiters_def)
    then have "(\<lambda>g. card (waiters S g)) = (if how \<in> {Asleep, Awaiting} then one_more (others 0 S) f else others 0 S)"
      using card_others [OF waiters_finite [OF inv], of _ 0] by (auto simp: fun_eq_iff)
    then show ?thesis using c by (simp add: waiting_def)
  qed
qed

text \<open>And back: a thread that stops as its view says leaves the counters right.\<close>

lemma client_stops:
  assumes inv: "wait_inv S" and t: "t \<noteq> 0" and out: "counts.out_ok (others t S) (out, s)"
  shows "wait_inv (S\<lparr>srv := s, client := (client S)(t := progress_of out)\<rparr>)"
proof -
  let ?S = "S\<lparr>srv := s, client := (client S)(t := progress_of out)\<rparr>"
  have fin: "finite {u. client ?S u \<noteq> Idle}"
  proof -
    have "finite (insert t {u. client S u \<noteq> Idle})" using inv by (simp add: wait_inv_def)
    then show ?thesis by (rule rev_finite_subset) auto
  qed
  have o: "others t ?S = others t S" using t by (auto simp: others_def waiters_def fun_eq_iff intro!: arg_cong [of _ _ card])
  have "finite (waiters ?S g)" for g
    by (rule finite_subset [of _ "insert 0 {u. client ?S u \<noteq> Idle}"]) (use fin in \<open>auto simp: waiters_def\<close>)
  then have k: "card (waiters ?S g) = (if t \<in> waiters ?S g then Suc (others t S g) else others t S g)" for g
    using card_others [of ?S g t] o by simp
  have "counted (\<lambda>g. card (waiters ?S g)) s"
  proof (cases out)
    case (Done r)
    then have "t \<notin> waiters ?S g" for g using t by (simp add: waiters_def)
    then show ?thesis using k out Done by (simp add: counts.out_ok_def)
  next
    case (Wait f fl how stg)
    then have "t \<in> waiters ?S g \<longleftrightarrow> g = f \<and> how \<in> {Asleep, Awaiting}" for g using t by (auto simp: waiters_def)
    then have "(\<lambda>g. card (waiters ?S g)) = (if how \<in> {Asleep, Awaiting} then one_more (others t S) f else others t S)"
      using k by (auto simp: fun_eq_iff)
    then show ?thesis using out Wait by (simp add: counts.out_ok_def waiting_def)
  qed
  then show ?thesis using fin inv t by (simp add: wait_inv_def)
qed

lemma backup_stops:
  assumes inv: "wait_inv S" and out: "case p of Bck_parked f how path b \<Rightarrow> waiting (others 0 S) f how s | _ \<Rightarrow> counted (others 0 S) s"
  shows "wait_inv (S\<lparr>srv := s, backup := p\<rparr>)"
proof -
  let ?S = "S\<lparr>srv := s, backup := p\<rparr>"
  have i: "finite {u. client S u \<noteq> Idle}" "client S 0 = Idle" using inv by (simp_all add: wait_inv_def)
  have o: "others 0 ?S = others 0 S" by (auto simp: others_def waiters_def fun_eq_iff intro!: arg_cong [of _ _ card])
  have "finite (waiters ?S g)" for g
    by (rule finite_subset [of _ "insert 0 {u. client S u \<noteq> Idle}"]) (use i in \<open>auto simp: waiters_def\<close>)
  then have k: "card (waiters ?S g) = (if 0 \<in> waiters ?S g then Suc (others 0 S g) else others 0 S g)" for g
    using card_others [of ?S g 0] o by simp
  have "counted (\<lambda>g. card (waiters ?S g)) s"
  proof (cases "\<exists>f how path b. p = Bck_parked f how path b")
    case False
    then have "0 \<notin> waiters ?S g" for g using i by (auto simp: waiters_def)
    then show ?thesis using k out False by (cases p) auto
  next
    case True
    then obtain f how path b where p: "p = Bck_parked f how path b" by blast
    then have "0 \<in> waiters ?S g \<longleftrightarrow> g = f \<and> how \<in> {Asleep, Awaiting}" for g using i by (auto simp: waiters_def)
    then have "(\<lambda>g. card (waiters ?S g)) = (if how \<in> {Asleep, Awaiting} then one_more (others 0 S) f else others 0 S)"
      using k by (auto simp: fun_eq_iff)
    then show ?thesis using out p by (simp add: waiting_def)
  qed
  then show ?thesis using i by (simp add: wait_inv_def)
qed

section \<open>Every step keeps it\<close>

interpretation wait_calls: call_service "counted C" t "waiting C" for C t
proof
  show "post (on_txn_commit t s) (\<lambda>(_, s'). counted C s')" if "counted C s" for s
    by (rule post_weaken [OF finish_waits(2)]) (use that counted_same in auto)
qed

lemma unparks_counts:
  assumes "unparks f fl t rb how s m" and "waiting C f how s"
  shows "post m (\<lambda>(out, s'). waiting C f out s')"
  using assms by (cases rule: unparksE) (auto simp: waiting_def [of _ _ Asleep] waiting_def [of _ _ Awaiting] waiting_def [of _ _ "Paused _"] waiting_def [of _ _ Woken] waiting_def [of _ _ Doomed]
      intro: woken_counts unpaused_counts try_again_counts refuse_counts)

lemma waiting_answer: "waiting C f (fst r) (snd r) \<Longrightarrow> counts.answer_ok C f r"
  by (cases r; cases "fst r") (auto simp: counts.answer_ok_def waiting_def)

lemma beg_waits: "post (log_txn_beg t s) (\<lambda>(_, s'). same_waits s s')"
  by (rule log_waits [OF log_txn_beg_only])

lemma wait_step:
  assumes "sys_step t S S'" and inv: "wait_inv S"
  shows "wait_inv S'"
  using assms(1)
proof cases
  have c: "counted (\<lambda>f. card (waiters S f)) (srv S)" using inv by (simp add: wait_inv_def)
  have srv: "wait_inv (S\<lparr>srv := s\<rparr>)" if "same_waits (srv S) s" for s
    using inv counted_same [OF that c] by (simp add: wait_inv_def waiters_def)
  {
    case (begins r s)
    then obtain l0 s1 where s1: "log_txn_beg t (srv S) = Some (l0, s1)" "s = new_txn_insert t l0 s1"
      by (auto simp: on_txn_beg_def Option.bind_eq_Some_conv)
    have "same_waits (srv S) s" using postD [OF beg_waits s1(1)] by (simp add: s1(2) new_txn_insert_def)
    then show ?thesis using srv begins(1) by simp
  next
    case (calls env call out s)
    have "counts.out_ok (others t S) (out, s)"
      using postD [OF wait_calls.call_starts [OF client_view(1) [OF inv calls(2,3)]] calls(4)] .
    then show ?thesis using client_stops [OF inv calls(2)] calls(1) by simp
  next
    case (continues f fl how stg rb m env out s)
    have "post m (\<lambda>(out, s'). waiting (others t S) f out s')"
      using unparks_counts [OF continues(4) client_view(2) [OF inv continues(2,3)]] .
    then have "post m (counts.answer_ok (others t S) f)" by (rule post_weaken) (auto intro: waiting_answer)
    then have "counts.out_ok (others t S) (out, s)" using postD [OF wait_calls.call_resumes continues(5)] by blast
    then show ?thesis using client_stops [OF inv continues(2)] continues(1) by simp
  next
    case (detects f s)
    have "same_waits (srv S) s" using wakers_view(2) [OF detects(2)] by (simp add: same_waits_def waits_view_def)
    then show ?thesis using srv detects(1) by simp
  next
    case (backup_begins benv root old b s)
    obtain l0 s1 where s1: "log_txn_beg 0 ((srv S)\<lparr>BACKUP := ACTIVE\<rparr>) = Some (l0, s1)" "s = new_txn_insert 0 l0 s1"
      using backup_begins(5) by (auto simp: bck_beg_start_def Let_def Option.bind_eq_Some_conv)
    have "same_waits ((srv S)\<lparr>BACKUP := ACTIVE\<rparr>) s1" using postD [OF beg_waits s1(1)] by simp
    then have "same_waits (srv S) s" by (simp add: s1(2) new_txn_insert_def) (simp add: same_waits_def waits_view_def)
    then have "counted (others 0 S) s" using counted_same backup_view(1) [OF inv] backup_begins(4) by simp
    then show ?thesis using backup_stops [OF inv, where p = "Walking b" and s = s] backup_begins(1,2) by simp
  next
    case (backup_turns b benv rb bout s)
    have "counted (others 0 S) (srv S)" using backup_view(1) [OF inv] backup_turns(3) by simp
    then have "backup_counts (others 0 S) (bout, s)" using postD [OF bck_turn_counts backup_turns(5)] by blast
    then show ?thesis using backup_stops [OF inv, where p = "backup_of bout" and s = s] backup_turns(1,2)
      by (cases bout) (simp_all add: backup_counts_def)
  next
    case (backup_continues f how path b rb m benv bout s)
    obtain r where r: "m = Some r" "bck_deliver benv f path b r = Some (bout, s)"
      using backup_continues(5) by (auto simp: bck_resume_def Option.bind_eq_Some_conv)
    have "waiting (others 0 S) f (fst r) (snd r)"
      using postD [OF unparks_counts [OF backup_continues(4) backup_view(2) [OF inv backup_continues(3)]] r(1)] by (cases r) simp
    then have "backup_counts (others 0 S) (bout, s)" using postD [OF bck_deliver_counts r(2)] by blast
    then show ?thesis using backup_stops [OF inv, where p = "backup_of bout" and s = s] backup_continues(1,2)
      by (cases bout) (simp_all add: backup_counts_def)
  next
    case (backup_ends b s)
    obtain s1 p r s2 where d: "txn_delete 0 (srv S) = Some s1" "log_txn_end 0 p s1 = Some (r, s2)" "s = s2\<lparr>BACKUP := INACTIVE\<rparr>"
      using backup_ends(5) by (auto simp: bck_beg_finish_def Option.bind_eq_Some_conv)
    have "same_waits (srv S) s1" using postD [OF txn_delete_waits d(1)] .
    moreover have "same_waits s1 s2" using postD [OF log_waits [OF log_call_only(3)] d(2)] by simp
    ultimately have "same_waits (srv S) s" using same_waits_trans [of "srv S" s1 s2] by (simp add: d(3))
    then have "counted (others 0 S) s" using counted_same backup_view(1) [OF inv] backup_ends(3) by simp
    then show ?thesis using backup_stops [OF inv, where p = Off and s = s] backup_ends(1,2) by simp
  }
qed

lemma reachable_counts: "reachable S \<Longrightarrow> wait_inv S"
proof (induction rule: reachable.induct)
  case (init d)
  show ?case by (simp add: wait_inv_def sys_init_def waiters_def counted_def waits_sorted_def wmap_def node_ok_def global_init_def)
next
  case (step S t S')
  then show ?case using wait_step by blast
qed

text \<open>C16: The counter of waiters is exact, in every reachable state of the server, with any number of
  clients, the backup, the detector, and threads that wake up without a signal.  A file has a wait node exactly
  if some thread waits for it, asleep on its condition variable or, as a victim, waiting for the others to
  see the victim; \<open>in_wait\<close> of the node is the number of these threads.  So a thread that runs again
  always finds the node; and the node goes away just when the last of them goes on or aborts.\<close>

theorem waiters_counted:
  assumes "reachable S"
  shows "finite (waiters S f) \<and> (wmap (srv S) f = None \<longleftrightarrow> waiters S f = {}) \<and>
     (\<forall>w. wmap (srv S) f = Some w \<longrightarrow> wn_in_wait w = int (card (waiters S f))) \<and>
     (\<forall>t \<in> waiters S f. \<exists>out s'. after_wake f t (srv S) = Some (out, s') \<and>
        (wmap s' f = None \<longleftrightarrow> out \<in> {Resume, Abort_now} \<and> card (waiters S f) = 1))"
proof -
  have inv: "wait_inv S" using assms by (rule reachable_counts)
  have fin: "finite (waiters S f)" using inv by (rule waiters_finite)
  have c: "counted (\<lambda>f. card (waiters S f)) (srv S)" using inv by (simp add: wait_inv_def)
  have n: "node_ok (wmap (srv S) f) (card (waiters S f))" using counted_node [OF c, of f] .
  have "\<exists>out s'. after_wake f t (srv S) = Some (out, s') \<and>
        (wmap s' f = None \<longleftrightarrow> out \<in> {Resume, Abort_now} \<and> card (waiters S f) = 1)" if t: "t \<in> waiters S f" for t
  proof -
    let ?C = "\<lambda>g. if g = f then others t S f else card (waiters S g)"
    have k: "card (waiters S f) = Suc (others t S f)" using card_others [OF fin, of t] t by simp
    then have "one_more ?C f = (\<lambda>f. card (waiters S f))" by auto
    then obtain out s' where o: "after_wake f t (srv S) = Some (out, s')" "counted (if out \<in> {Resume, Abort_now} then ?C else one_more ?C f) s'"
      using counted_after_wake [of ?C f "srv S" t] c by auto
    have "node_ok (wmap s' f) (if out \<in> {Resume, Abort_now} then others t S f else Suc (others t S f))"
      using counted_node [OF o(2), of f] by (cases out) simp_all
    then have "wmap s' f = None \<longleftrightarrow> out \<in> {Resume, Abort_now} \<and> card (waiters S f) = 1"
      using k by (auto simp: node_ok_def split: option.splits if_splits)
    then show ?thesis using o(1) by (intro exI [of _ out] exI [of _ s'] conjI)
  qed
  then show ?thesis using n fin by (auto simp: node_ok_def split: option.splits)
qed

text \<open>Transaction 2 waits for the file that transaction 1 has open for writing.\<close>

definition demo_waiting :: "system option" where
  "demo_waiting = do { S \<leftarrow> demo_alone; call_step demo_env (Stat ''/f'') 2 S }"

lemma demo_waiting_run:
  "map_option (\<lambda>S. (case client S 2 of Parked f fl how stg \<Rightarrow> f = 7 \<and> how = Asleep | _ \<Rightarrow> False, map wn_in_wait (head_wait_list (srv S)))) demo_waiting = Some (True, [1])"
  by code_simp

theorem waiters_counted_witness:
  "\<exists>S w. reachable S \<and> wmap (srv S) 7 = Some w \<and> 2 \<in> waiters S 7 \<and> wn_in_wait w = int (card (waiters S 7))"
proof -
  obtain S where S: "demo_waiting = Some S" "case client S 2 of Parked f fl how stg \<Rightarrow> f = 7 \<and> how = Asleep | _ \<Rightarrow> False"
    using demo_waiting_run by auto
  have r: "reachable S" using S(1) unfolding demo_waiting_def demo_alone_def
    by (auto simp: Option.bind_eq_Some_conv intro: reachable.init elim!: run_reachable)
  have 2: "2 \<in> waiters S 7" using S(2) by (auto simp: waiters_def split: progress.splits)
  note c = waiters_counted [OF r, of 7]
  obtain w where "wmap (srv S) 7 = Some w" using c 2 by fastforce
  then show ?thesis using c r 2 by blast
qed

end
