(* ===== verification/Reader.thy ===== *)
theory Reader
  imports System
begin

text \<open>
  The thread of one connection (\<open>handler\<close> in Reader.c).  It reads the name of a call, then as many
  arguments as the call has, answering each message with \<open>Received\<close>, does the call, and sends the
  reply.  Between two messages the thread is a value of type \<open>conn\<close>; what a \<open>read\<close> on the socket
  returns is an argument, the \<open>write\<close>s are a list of byte strings.  \<open>None\<close> is an access to memory
  that is not the program's: a pointer that was never set or has been freed, or the end of an array.
\<close>

section \<open>The state of a connection\<close>

datatype conn_phase =
  Receiving nat        \<comment> \<open>waits for this message of the call\<close>
| Complete             \<comment> \<open>all messages of the call are there\<close>
| Busy call            \<comment> \<open>the call waits for a lock\<close>
| Backing_up
| Acking int           \<comment> \<open>has sent what it read, waits for the client's acknowledgement\<close>
| Closed

record conn =
  incall :: "cstring option list"
  no_of_arg :: nat
  cn_txnid :: int
  str_buf :: "char list"      \<comment> \<open>\<open>str\<close>, all its bytes\<close>
  phase :: conn_phase

definition conn_init :: "char list \<Rightarrow> conn" where
  "conn_init garbage = \<lparr>incall = replicate 10 None, no_of_arg = 0, cn_txnid = 0, str_buf = garbage, phase = Receiving 0\<rparr>"

section \<open>Receiving a call\<close>

text \<open>How many messages a call has, its name included.\<close>

definition arg_count :: "cstring \<Rightarrow> nat option" where
  "arg_count cmd =
     (if cmd \<in> {''txn_beg'', ''txn_commit'', ''txn_abort'', ''quit''} then Some 1
      else if cmd \<in> {''unlink'', ''stat'', ''inode_stat''} then Some 2
      else if cmd \<in> {''open'', ''rename'', ''creat'', ''bck_beg''} then Some 3
      else if cmd \<in> {''write'', ''lseek'', ''read''} then Some 4
      else None)"

text \<open>\<open>free\<close> of a pointer that is not live is a fault.\<close>

fun free_cells :: "nat \<Rightarrow> cstring option list \<Rightarrow> cstring option list option" where
  "free_cells 0 cs = Some cs"
| "free_cells (Suc k) cs = do {
     cs \<leftarrow> free_cells k cs;
     if k < length cs \<and> cs ! k \<noteq> None then Some (cs[k := None]) else None }"

definition free_args :: "conn \<Rightarrow> conn option" where
  "free_args c =
     (if no_of_arg c = 0 then Some c
      else do {
        cmd \<leftarrow> incall c ! 0;
        if cmd = ''quit'' then Some c
        else do { cs \<leftarrow> free_cells (no_of_arg c) (incall c); Some (c\<lparr>incall := cs\<rparr>) } })"

text \<open>One message: what \<open>read\<close> has put into the zeroed buffer, up to the first NUL.  A name that is
  no call leaves \<open>no_of_arg\<close> as it was; so does a connection that is gone, whose \<open>read\<close> returns 0.\<close>

definition after_message :: "nat \<Rightarrow> conn \<Rightarrow> conn" where
  "after_message i c = c\<lparr>phase := if i < no_of_arg c then Receiving i else Complete\<rparr>"

definition take_message :: "conn \<Rightarrow> char list \<Rightarrow> conn option" where
  "take_message c bytes =
     (case phase c of
        Receiving 0 \<Rightarrow> do {
          c \<leftarrow> free_args c;
          let cmd = c_string bytes;
          let c = c\<lparr>incall := (incall c)[0 := Some cmd], no_of_arg := (case arg_count cmd of None \<Rightarrow> no_of_arg c | Some n \<Rightarrow> n)\<rparr>;
          Some (after_message 1 c) }
      | Receiving i \<Rightarrow>
          if i < length (incall c) then Some (after_message (i + 1) (c\<lparr>incall := (incall c)[i := Some (c_string bytes)]\<rparr>))
          else None
      | _ \<Rightarrow> None)"

definition received :: "char list" where
  "received = ''Received''"

section \<open>Doing a call\<close>

datatype request =
  Begin_txn cstring
| Client_call call
| Read_file int int
| Quit
| Begin_backup cstring cstring
| No_call

text \<open>The comparisons with the names of the calls; each call uses its own arguments.\<close>

definition decode :: "conn \<Rightarrow> request option" where
  "decode c = do {
     cmd \<leftarrow> incall c ! 0;
     if cmd = ''txn_beg'' then do { a \<leftarrow> incall c ! 1; Some (Begin_txn a) }
     else if cmd = ''open'' then do { a \<leftarrow> incall c ! 1; b \<leftarrow> incall c ! 2; Some (Client_call (Open a b)) }
     else if cmd = ''txn_commit'' then Some (Client_call Commit)
     else if cmd = ''txn_abort'' then Some (Client_call Abort)
     else if cmd = ''quit'' then Some Quit
     else if cmd = ''write'' then do { a \<leftarrow> incall c ! 1; b \<leftarrow> incall c ! 2; d \<leftarrow> incall c ! 3; Some (Client_call (Write a b d)) }
     else if cmd = ''rename'' then do { a \<leftarrow> incall c ! 1; b \<leftarrow> incall c ! 2; Some (Client_call (Rename a b)) }
     else if cmd = ''creat'' then do { a \<leftarrow> incall c ! 1; b \<leftarrow> incall c ! 2; Some (Client_call (Creat a b)) }
     else if cmd = ''unlink'' then do { a \<leftarrow> incall c ! 1; Some (Client_call (Unlink a)) }
     else if cmd = ''stat'' then do { a \<leftarrow> incall c ! 1; Some (Client_call (Stat a)) }
     else if cmd = ''inode_stat'' then do { a \<leftarrow> incall c ! 1; Some (Client_call (Inode_stat a)) }
     else if cmd = ''lseek'' then do { a \<leftarrow> incall c ! 1; b \<leftarrow> incall c ! 2; d \<leftarrow> incall c ! 3; Some (Client_call (Lseek a b d)) }
     else if cmd = ''read'' then do { a \<leftarrow> incall c ! 1; d \<leftarrow> incall c ! 3; Some (Read_file (atoi a) (atoi d)) }
     else if cmd = ''bck_beg'' then do { a \<leftarrow> incall c ! 1; b \<leftarrow> incall c ! 2; Some (Begin_backup a b) }
     else Some No_call }"

text \<open>\<open>snprintf\<close> into \<open>str\<close> and \<open>strcpy\<close> into it.  What follows the terminator stays.\<close>

definition str_size :: nat where
  "str_size = 12"

definition print_str :: "cstring \<Rightarrow> conn \<Rightarrow> conn" where
  "print_str t c = (let t = take (str_size - 1) t in c\<lparr>str_buf := t @ CHR 0x00 # drop (Suc (length t)) (str_buf c)\<rparr>)"

definition copy_str :: "cstring \<Rightarrow> conn \<Rightarrow> conn option" where
  "copy_str t c = (if length t < str_size then Some (print_str t c) else None)"

text \<open>The reply is the whole of \<open>str\<close>.  Commit and abort reply with the number of the transaction,
  whatever became of it; a write replies with what \<open>str\<close> held.\<close>

definition reply_text :: "call \<Rightarrow> int \<Rightarrow> conn \<Rightarrow> conn" where
  "reply_text cl r c =
     (case cl of
        Write a b d \<Rightarrow> c
      | Commit \<Rightarrow> print_str (show_int (s32 (cn_txnid c))) c
      | Abort \<Rightarrow> print_str (show_int (s32 (cn_txnid c))) c
      | _ \<Rightarrow> print_str (show_int (s32 r)) c)"

definition finish_call :: "call \<Rightarrow> int \<Rightarrow> conn \<Rightarrow> conn \<times> char list list" where
  "finish_call cl r c = (let c = reply_text cl r c in (c\<lparr>phase := Receiving 0\<rparr>, [str_buf c]))"

text \<open>The bytes of a file: as many as were read, from a zeroed buffer; none where the read failed.  The
  file system returns -1 or a number up to the one asked for.\<close>

definition read_bytes :: "int \<Rightarrow> char list \<Rightarrow> char list" where
  "read_bytes r dat = (if r = - 1 then [] else take (nat r) (dat @ replicate (nat r) (CHR 0x00)))"

definition finish_ack :: "int \<Rightarrow> conn \<Rightarrow> conn \<times> char list list" where
  "finish_ack r c = (let c = print_str (show_int r) c in (c\<lparr>phase := Receiving 0\<rparr>, [str_buf c]))"

text \<open>A backup is done in this thread; what is read of the old copy is in \<open>old\<close>.\<close>

definition finish_backup :: "conn \<Rightarrow> conn \<times> char list list" where
  "finish_backup c = (let c = print_str ''Backup done'' c in (c\<lparr>phase := Receiving 0\<rparr>, [str_buf c]))"

definition serve :: "fs_env \<Rightarrow> bck_env \<Rightarrow> stat_buf \<Rightarrow> conn \<Rightarrow> server \<Rightarrow> (conn \<times> char list list \<times> server) option" where
  "serve env benv old c s = do {
     req \<leftarrow> decode c;
     case req of
       Begin_txn a \<Rightarrow> do {
         c \<leftarrow> copy_str a c;
         let c = c\<lparr>cn_txnid := atoi a\<rparr>;
         (_, s) \<leftarrow> on_txn_beg (cn_txnid c) s;
         Some (c\<lparr>phase := Receiving 0\<rparr>, [str_buf c], s) }
     | Client_call cl \<Rightarrow> do {
         (out, s) \<leftarrow> start_call env cl (cn_txnid c) s;
         case out of
           Done r \<Rightarrow> (let (c, ws) = finish_call cl r c in Some (c, ws, s))
         | Wait _ _ _ _ \<Rightarrow> Some (c\<lparr>phase := Busy cl\<rparr>, [], s) }
     | Read_file fd nbytes \<Rightarrow>
         if nbytes < 0 then None
         else do {
           ((r, dat), s) \<leftarrow> on_read env fd nbytes s;
           if r < - 1 \<or> nbytes < r then None else Some (c\<lparr>phase := Acking r\<rparr>, [read_bytes r dat], s) }
     | Quit \<Rightarrow> (let c = print_str (show_int (s32 (cn_txnid c))) c in Some (c\<lparr>phase := Closed\<rparr>, [str_buf c], s))
     | Begin_backup root file \<Rightarrow> do {
         (b, s) \<leftarrow> bck_beg_start benv root old s;
         Some (c\<lparr>phase := Backing_up\<rparr>, [], s) }
     | No_call \<Rightarrow> Some (c\<lparr>phase := Receiving 0\<rparr>, [], s) }"

section \<open>The reachable states of a connection\<close>

text \<open>Whatever the client sends, the file system answers and the other threads do.\<close>

inductive conn_reach :: "conn \<Rightarrow> bool" where
  start: "length garbage = str_size \<Longrightarrow> conn_reach (conn_init garbage)"
| message: "conn_reach c \<Longrightarrow> take_message c bytes = Some c' \<Longrightarrow> conn_reach c'"
| serves: "conn_reach c \<Longrightarrow> phase c = Complete \<Longrightarrow> serve env benv old c s = Some (c', ws, s') \<Longrightarrow> conn_reach c'"
| resumes: "conn_reach c \<Longrightarrow> phase c = Busy cl \<Longrightarrow> finish_call cl r c = (c', ws) \<Longrightarrow> conn_reach c'"
| acknowledged: "conn_reach c \<Longrightarrow> phase c = Acking r \<Longrightarrow> finish_ack r c = (c', ws) \<Longrightarrow> conn_reach c'"
| backed_up: "conn_reach c \<Longrightarrow> phase c = Backing_up \<Longrightarrow> finish_backup c = (c', ws) \<Longrightarrow> conn_reach c'"

definition cells_ok :: "conn \<Rightarrow> nat \<Rightarrow> bool" where
  "cells_ok c n \<longleftrightarrow> length (incall c) = 10 \<and> no_of_arg c \<le> 4 \<and> length (str_buf c) = str_size \<and>
     (\<forall>i < n. incall c ! i \<noteq> None) \<and> (\<forall>i. max 1 n \<le> i \<and> i < 10 \<longrightarrow> incall c ! i = None)"

definition cmd_ok :: "conn \<Rightarrow> bool" where
  "cmd_ok c \<longleftrightarrow> (\<exists>cmd. incall c ! 0 = Some cmd \<and> (\<forall>n. arg_count cmd = Some n \<longrightarrow> no_of_arg c = n))"

definition conn_ok :: "conn \<Rightarrow> bool" where
  "conn_ok c \<longleftrightarrow>
     (case phase c of
        Receiving 0 \<Rightarrow> cells_ok c (no_of_arg c) \<and> incall c ! 0 \<noteq> Some ''quit''
      | Receiving i \<Rightarrow> cells_ok c i \<and> i < no_of_arg c \<and> cmd_ok c
      | Closed \<Rightarrow> cells_ok c (no_of_arg c)
      | Complete \<Rightarrow> cells_ok c (no_of_arg c) \<and> cmd_ok c
      | _ \<Rightarrow> cells_ok c (no_of_arg c) \<and> incall c ! 0 \<noteq> Some ''quit'')"

lemma arg_count_bound: "arg_count cmd = Some n \<Longrightarrow> 0 < n \<and> n \<le> 4"
  by (auto simp: arg_count_def split: if_splits)

lemma free_cells_ok:
  "k \<le> length cs \<Longrightarrow> (\<forall>i < k. cs ! i \<noteq> None) \<Longrightarrow>
     \<exists>ds. free_cells k cs = Some ds \<and> length ds = length cs \<and> (\<forall>i < length cs. ds ! i = (if i < k then None else cs ! i))"
proof (induction k)
  case (Suc k)
  then obtain ds where ds: "free_cells k cs = Some ds" "length ds = length cs" "\<forall>i < length cs. ds ! i = (if i < k then None else cs ! i)"
    by auto
  moreover have "ds ! k \<noteq> None" using ds Suc.prems by simp
  ultimately show ?case using Suc.prems by (auto simp: nth_list_update)
qed simp

lemma print_str_length [simp]: "length (str_buf c) = str_size \<Longrightarrow> length (str_buf (print_str t c)) = str_size"
  by (simp add: print_str_def str_size_def Let_def)

lemma print_str_frame [simp]:
  "incall (print_str t c) = incall c" "no_of_arg (print_str t c) = no_of_arg c" "phase (print_str t c) = phase c" "cn_txnid (print_str t c) = cn_txnid c"
  by (simp_all add: print_str_def Let_def)

lemma reply_text_frame [simp]:
  "incall (reply_text cl r c) = incall c" "no_of_arg (reply_text cl r c) = no_of_arg c"
  "length (str_buf c) = str_size \<Longrightarrow> length (str_buf (reply_text cl r c)) = str_size" "cn_txnid (reply_text cl r c) = cn_txnid c"
  by (simp_all add: reply_text_def split: call.split)

lemma cells_ok_cong:
  "incall c' = incall c \<Longrightarrow> no_of_arg c' = no_of_arg c \<Longrightarrow> length (str_buf c') = length (str_buf c) \<Longrightarrow> cells_ok c' n \<longleftrightarrow> cells_ok c n"
  by (simp add: cells_ok_def)

text \<open>At the head of the loop exactly the arguments of the last call are live, so freeing them is sound.\<close>

lemma take_first:
  assumes ok: "cells_ok c (no_of_arg c)" "incall c ! 0 \<noteq> Some ''quit''" and p: "phase c = Receiving 0"
  shows "\<exists>c'. take_message c bytes = Some c' \<and> conn_ok c'"
proof -
  let ?cmd = "c_string bytes"
  have len: "length (incall c) = 10" using ok by (simp add: cells_ok_def)
  have "\<exists>cs. free_args c = Some (c\<lparr>incall := cs\<rparr>) \<and> length cs = 10 \<and> (\<forall>i. 1 \<le> i \<and> i < 10 \<longrightarrow> cs ! i = None)"
  proof (cases "no_of_arg c = 0")
    case True
    then show ?thesis using ok by (intro exI [of _ "incall c"]) (auto simp: free_args_def cells_ok_def)
  next
    case False
    have "no_of_arg c \<le> length (incall c)" "\<forall>i < no_of_arg c. incall c ! i \<noteq> None" using ok by (simp_all add: cells_ok_def)
    then obtain cs where cs: "free_cells (no_of_arg c) (incall c) = Some cs" "length cs = 10"
        "\<forall>i < 10. cs ! i = (if i < no_of_arg c then None else incall c ! i)"
      using free_cells_ok [of "no_of_arg c" "incall c"] len by auto
    obtain cmd where cmd: "incall c ! 0 = Some cmd" using ok False by (auto simp: cells_ok_def)
    have "cs ! i = None" if "1 \<le> i" "i < 10" for i using cs(3) ok that False by (auto simp: cells_ok_def)
    then show ?thesis using cs cmd ok(2) False by (intro exI [of _ cs]) (auto simp: free_args_def)
  qed
  then obtain cs where cs: "free_args c = Some (c\<lparr>incall := cs\<rparr>)" "length cs = 10" "\<forall>i. 1 \<le> i \<and> i < 10 \<longrightarrow> cs ! i = None" by blast
  define n where "n = (case arg_count ?cmd of None \<Rightarrow> no_of_arg c | Some n \<Rightarrow> n)"
  define c1 where "c1 = c\<lparr>incall := cs[0 := Some ?cmd], no_of_arg := n\<rparr>"
  have n: "n \<le> 4" using ok arg_count_bound by (auto simp: n_def cells_ok_def split: option.split)
  have "cells_ok c1 1" using cs ok n by (auto simp: cells_ok_def c1_def nth_list_update)
  moreover have "cmd_ok c1" using cs(2) by (auto simp: cmd_ok_def c1_def n_def split: option.splits)
  moreover have "cells_ok c1 n" if "n \<le> 1" using \<open>cells_ok c1 1\<close> that by (cases n) (auto simp: cells_ok_def)
  moreover have "cells_ok (after_message 1 c1) k = cells_ok c1 k" "cmd_ok (after_message 1 c1) = cmd_ok c1" for k
    by (simp_all add: after_message_def cells_ok_def cmd_ok_def)
  moreover have "no_of_arg c1 = n" by (simp add: c1_def)
  ultimately have "conn_ok (after_message 1 c1)" by (auto simp: conn_ok_def after_message_def)
  moreover have "take_message c bytes = Some (after_message 1 c1)"
    using cs(1) p by (simp add: take_message_def c1_def n_def Let_def split: option.split)
  ultimately show ?thesis by blast
qed

lemma take_further:
  assumes ok: "cells_ok c i" "i < no_of_arg c" "cmd_ok c" and p: "phase c = Receiving i" and i: "i \<noteq> 0"
  shows "\<exists>c'. take_message c bytes = Some c' \<and> conn_ok c'"
proof -
  let ?c = "c\<lparr>incall := (incall c)[i := Some (c_string bytes)]\<rparr>"
  have len: "length (incall c) = 10" "i < 4" using ok by (simp_all add: cells_ok_def)
  then have t: "take_message c bytes = Some (after_message (i + 1) ?c)" using p i by (simp add: take_message_def split: nat.split)
  have "cells_ok ?c (i + 1)" using ok len i by (auto simp: cells_ok_def nth_list_update less_Suc_eq)
  moreover have "cmd_ok ?c" using ok(3) i by (simp add: cmd_ok_def)
  moreover have "i + 1 = no_of_arg c" if "\<not> i + 1 < no_of_arg c" using that ok(2) by simp
  moreover have "cells_ok (after_message (i + 1) ?c) k = cells_ok ?c k" "cmd_ok (after_message (i + 1) ?c) = cmd_ok ?c" for k
    by (simp_all add: after_message_def cells_ok_def cmd_ok_def)
  ultimately have "conn_ok (after_message (i + 1) ?c)" by (auto simp: conn_ok_def after_message_def)
  then show ?thesis using t by blast
qed

lemma take_message_ok:
  "conn_ok c \<Longrightarrow> phase c = Receiving i \<Longrightarrow> \<exists>c'. take_message c bytes = Some c' \<and> conn_ok c'"
  using take_first [of c] take_further [of c i] by (cases i) (simp_all add: conn_ok_def)

lemma conn_ok_phase:
  "cells_ok c (no_of_arg c) \<Longrightarrow> incall c ! 0 \<noteq> Some ''quit'' \<Longrightarrow> p \<in> {Receiving 0, Busy cl, Backing_up, Acking r} \<Longrightarrow> conn_ok (c\<lparr>phase := p\<rparr>)"
  by (auto simp: conn_ok_def cells_ok_def)

lemma conn_ok_text:
  assumes "cells_ok c (no_of_arg c)" and "incall c ! 0 \<noteq> Some ''quit''"
  shows "conn_ok ((print_str t c)\<lparr>phase := Receiving 0\<rparr>)" "conn_ok ((reply_text cl r c)\<lparr>phase := Receiving 0\<rparr>)"
    "conn_ok ((print_str t c)\<lparr>cn_txnid := x, phase := Receiving 0\<rparr>)"
proof -
  have "length (str_buf c) = str_size" using assms by (simp add: cells_ok_def)
  then show "conn_ok ((print_str t c)\<lparr>phase := Receiving 0\<rparr>)" "conn_ok ((reply_text cl r c)\<lparr>phase := Receiving 0\<rparr>)"
      "conn_ok ((print_str t c)\<lparr>cn_txnid := x, phase := Receiving 0\<rparr>)"
    using assms by (simp_all add: conn_ok_def cells_ok_def)
qed

lemma serve_ok:
  assumes ok: "conn_ok c" and p: "phase c = Complete" and s: "serve env benv old c s = Some (c', ws, s')"
  shows "conn_ok c'"
proof -
  obtain req where req: "decode c = Some req" using s by (auto simp: serve_def Option.bind_eq_Some_conv)
  have cells: "cells_ok c (no_of_arg c)" using ok p by (simp add: conn_ok_def)
  show ?thesis
  proof (cases "req = Quit")
    case True
    then have "c' = (print_str (show_int (s32 (cn_txnid c))) c)\<lparr>phase := Closed\<rparr>" using s req by (simp add: serve_def Let_def)
    then show ?thesis using cells by (simp add: conn_ok_def cells_ok_def)
  next
    case False
    then have q: "incall c ! 0 \<noteq> Some ''quit''" using req by (auto simp: decode_def)
    note t = conn_ok_text [OF cells q] and ph = conn_ok_phase [OF cells q]
    show ?thesis
    proof (cases req)
      case (Begin_txn a)
      then show ?thesis using s req t(3) [of "atoi a" a]
        by (auto simp: serve_def copy_str_def Option.bind_eq_Some_conv Let_def split: if_splits)
    next
      case (Client_call cl)
      then obtain out s1 where o: "start_call env cl (cn_txnid c) s = Some (out, s1)"
        using s req by (auto simp: serve_def Option.bind_eq_Some_conv)
      then show ?thesis using s req Client_call t(2) ph [of "Busy cl" cl]
        by (cases out) (auto simp: serve_def finish_call_def Let_def)
    next
      case (Read_file fd nbytes)
      then show ?thesis using s req ph [of "Acking _"]
        by (auto simp: serve_def Option.bind_eq_Some_conv split: if_splits)
    next
      case (Begin_backup root dest)
      then show ?thesis using s req ph [of Backing_up] by (auto simp: serve_def Option.bind_eq_Some_conv)
    next
      case No_call
      then show ?thesis using s req ph [of "Receiving 0"] by (auto simp: serve_def)
    qed (use False in simp)
  qed
qed

lemma conn_reach_ok: "conn_reach c \<Longrightarrow> conn_ok c"
proof (induction rule: conn_reach.induct)
  case (start garbage)
  then show ?case by (simp add: conn_ok_def conn_init_def cells_ok_def)
next
  case (message c bytes c')
  then obtain i where "phase c = Receiving i" by (auto simp: take_message_def split: conn_phase.splits)
  then show ?case using take_message_ok [of c i bytes] message by auto
next
  case (serves c env benv old s c' ws s')
  then show ?case using serve_ok by blast
next
  case (resumes c cl r c' ws)
  then show ?case using conn_ok_text(2) [of c cl r] by (auto simp: conn_ok_def finish_call_def Let_def)
next
  case (acknowledged c r c' ws)
  then show ?case using conn_ok_text(1) [of c] by (auto simp: conn_ok_def finish_ack_def Let_def)
next
  case (backed_up c c' ws)
  then show ?case using conn_ok_text(1) [of c] by (auto simp: conn_ok_def finish_backup_def Let_def)
qed

section \<open>Properties\<close>

text \<open>A backup that meets no file, for the examples.\<close>

definition no_bck :: bck_env where
  "no_bck = \<lparr>be_stat = (\<lambda>h p. None), be_readdir = (\<lambda>p. None), be_open = (\<lambda>p. - 1), be_copying = True\<rparr>"

definition no_stat :: stat_buf where
  "no_stat = \<lparr>sb_ino = 0, sb_sticky = False, sb_kind = Other_kind\<rparr>"

lemma decode_None_iff:
  assumes "conn_ok c" and "phase c = Complete"
  shows "decode c = None \<longleftrightarrow> incall c ! 0 = Some ''txn_beg''"
proof -
  obtain cmd where cmd: "incall c ! 0 = Some cmd" "\<And>n. arg_count cmd = Some n \<Longrightarrow> no_of_arg c = n"
    using assms by (auto simp: conn_ok_def cmd_ok_def)
  have cells: "cells_ok c (no_of_arg c)" using assms by (simp add: conn_ok_def)
  then have live: "\<exists>a. incall c ! i = Some a" if "i < no_of_arg c" for i using that by (simp add: cells_ok_def)
  have dead: "incall c ! i = None" if "no_of_arg c \<le> i" "1 \<le> i" "i < 10" for i using cells that by (simp add: cells_ok_def)
  have kinds: "arg_count cmd \<in> {None, Some 1, Some 2, Some 3, Some 4}" by (simp add: arg_count_def)
  consider "arg_count cmd = None" | "arg_count cmd = Some 1" | "arg_count cmd = Some 2" | "arg_count cmd = Some 3" | "arg_count cmd = Some 4"
    using kinds by (elim insertE emptyE) simp_all
  then show ?thesis
  proof cases
    case 1
    then have "cmd \<noteq> x" if "arg_count x \<noteq> None" for x using that by blast
    then show ?thesis unfolding decode_def cmd(1) Option.bind.simps by (simp add: arg_count_def)
  next
    case 2
    then have "no_of_arg c = 1" using cmd(2) by simp
    then have a: "incall c ! 1 = None" using dead by simp
    have "cmd \<in> {''txn_beg'', ''txn_commit'', ''txn_abort'', ''quit''}" using 2 by (simp add: arg_count_def split: if_splits)
    then show ?thesis unfolding decode_def cmd(1) Option.bind.simps by (elim insertE emptyE) (simp_all add: a [unfolded One_nat_def])
  next
    case 3
    then obtain a where a: "incall c ! 1 = Some a" using live [of 1] cmd(2) by auto
    have "cmd \<noteq> ''txn_beg''" using 3 by (auto simp: arg_count_def)
    moreover have "cmd \<in> {''unlink'', ''stat'', ''inode_stat''}" using 3 by (simp add: arg_count_def split: if_splits)
    ultimately show ?thesis unfolding decode_def cmd(1) Option.bind.simps by (elim insertE emptyE) (simp_all add: a [unfolded One_nat_def])
  next
    case 4
    then obtain a b where a: "incall c ! 1 = Some a" "incall c ! 2 = Some b" using live [of 1] live [of 2] cmd(2) by auto
    have "cmd \<in> {''open'', ''rename'', ''creat'', ''bck_beg''}" using 4 by (simp add: arg_count_def split: if_splits)
    then show ?thesis unfolding decode_def cmd(1) Option.bind.simps by (elim insertE emptyE) (simp_all add: a [unfolded One_nat_def])
  next
    case 5
    then obtain a b d where a: "incall c ! 1 = Some a" "incall c ! 2 = Some b" "incall c ! 3 = Some d"
      using live [of 1] live [of 2] live [of 3] cmd(2) by auto
    have "cmd \<in> {''write'', ''lseek'', ''read''}" using 5 by (simp add: arg_count_def split: if_splits)
    then show ?thesis unfolding decode_def cmd(1) Option.bind.simps by (elim insertE emptyE) (simp_all add: a [unfolded One_nat_def])
  qed
qed

text \<open>C26: The bookkeeping of the messages is memory-safe.  In every reachable state of a connection, whatever
  the client sends next, the thread takes the message without a fault: it frees each argument of the
  last call exactly once, writes inside \<open>incall\<close>, and a call has all its arguments when it is done.\<close>

theorem messages_memory_safe:
  assumes "conn_reach c" and "phase c = Receiving i"
  shows "\<exists>c'. take_message c bytes = Some c' \<and>
     (phase c' = Complete \<longrightarrow> (\<forall>j < no_of_arg c'. incall c' ! j \<noteq> None) \<and> (\<forall>j. max 1 (no_of_arg c') \<le> j \<and> j < 10 \<longrightarrow> incall c' ! j = None))"
proof -
  obtain c' where "take_message c bytes = Some c'" "conn_ok c'" using take_message_ok [OF conn_reach_ok [OF assms(1)] assms(2)] by blast
  then show ?thesis by (auto simp: conn_ok_def cells_ok_def)
qed

fun take_messages :: "conn \<Rightarrow> char list list \<Rightarrow> conn option" where
  "take_messages c [] = Some c"
| "take_messages c (m # ms) = do { c \<leftarrow> take_message c m; take_messages c ms }"

lemma take_messages_reach: "take_messages c ms = Some c' \<Longrightarrow> conn_reach c \<Longrightarrow> conn_reach c'"
  by (induction ms arbitrary: c) (auto simp: Option.bind_eq_Some_conv intro: conn_reach.message)

definition fresh_conn :: conn where
  "fresh_conn = conn_init (replicate 12 (CHR 0x00))"

lemma fresh_conn_reach: "conn_reach fresh_conn"
  unfolding fresh_conn_def by (rule conn_reach.start) (simp add: str_size_def)

theorem messages_memory_safe_witness:
  "\<exists>c c'. take_messages fresh_conn [''open'', ''/f''] = Some c \<and> phase c = Receiving 2 \<and> take_message c ''2'' = Some c' \<and> phase c' = Complete \<and>
     \<not> (\<exists>j. j < no_of_arg c' \<and> incall c' ! j = None)"
proof -
  have "map_option phase (take_messages fresh_conn [''open'', ''/f'']) = Some (Receiving 2)"
    "map_option phase (take_messages fresh_conn [''open'', ''/f'', ''2'']) = Some Complete" by code_simp+
  then obtain c where c: "take_messages fresh_conn [''open'', ''/f''] = Some c" "phase c = Receiving 2" by auto
  moreover have r: "conn_reach c" using take_messages_reach [OF c(1) fresh_conn_reach] .
  moreover have "take_messages fresh_conn [''open'', ''/f'', ''2''] = take_message c ''2''"
    using c(1) by (simp add: Option.bind_eq_Some_conv) (auto simp: Option.bind_eq_Some_conv)
  ultimately show ?thesis using messages_memory_safe [OF r c(2), of "''2''"]
    \<open>map_option phase (take_messages fresh_conn [''open'', ''/f'', ''2'']) = Some Complete\<close> by auto
qed

text \<open>No call but \<open>txn_beg\<close> sets the number of the transaction, and that call faults.\<close>

lemma finish_txnid [simp]:
  "cn_txnid (fst (finish_call cl r c)) = cn_txnid c" "cn_txnid (fst (finish_ack x c)) = cn_txnid c" "cn_txnid (fst (finish_backup c)) = cn_txnid c"
  by (simp_all add: finish_call_def finish_ack_def finish_backup_def Let_def)

lemma take_message_txnid: "take_message c bytes = Some c' \<Longrightarrow> cn_txnid c' = cn_txnid c"
  by (auto simp: take_message_def after_message_def free_args_def Let_def Option.bind_eq_Some_conv split: conn_phase.splits nat.splits if_splits)

lemma serve_txnid:
  assumes "serve env benv old c s = Some (c', ws, s')" and "\<nexists>a. decode c = Some (Begin_txn a)"
  shows "cn_txnid c' = cn_txnid c"
proof -
  obtain req where req: "decode c = Some req" using assms(1) by (auto simp: serve_def Option.bind_eq_Some_conv)
  show ?thesis
  proof (cases req)
    case (Client_call cl)
    then obtain out s1 where o: "start_call env cl (cn_txnid c) s = Some (out, s1)"
      using assms(1) req by (auto simp: serve_def Option.bind_eq_Some_conv)
    then show ?thesis using assms(1) req Client_call
      by (cases out) (auto simp: serve_def finish_call_def Let_def)
  qed (use assms req in \<open>auto simp: serve_def Let_def Option.bind_eq_Some_conv split: if_splits\<close>)
qed

lemma decode_begin: "decode c = Some (Begin_txn a) \<Longrightarrow> incall c ! 0 = Some ''txn_beg''"
  by (auto simp: decode_def Option.bind_eq_Some_conv split: if_splits)

lemma conn_reach_txnid: "conn_reach c \<Longrightarrow> cn_txnid c = 0"
proof (induction rule: conn_reach.induct)
  case (serves c env benv old s c' ws s')
  have "decode c \<noteq> Some (Begin_txn a)" for a
    using decode_None_iff [OF conn_reach_ok [OF serves(1)] serves(2)] decode_begin [of c a] by auto
  then show ?case using serve_txnid serves by metis
next
  case (resumes c cl r c' ws)
  then show ?case using finish_txnid(1) by (metis fst_conv)
next
  case (acknowledged c r c' ws)
  then show ?case using finish_txnid(2) by (metis fst_conv)
next
  case (backed_up c c' ws)
  then show ?case using finish_txnid(3) by (metis fst_conv)
qed (simp_all add: conn_init_def take_message_txnid)

text \<open>C30: No transaction can begin without a fault.  The thread expects one message for \<open>txn_beg\<close> and uses its
  first argument: in every reachable state that pointer is not live, never set or freed before.  For
  every other call, and for a name that is none, decoding the call does not fault; such calls are all
  done in the name of transaction 0, which is the backup.\<close>

theorem txn_beg_faults:
  assumes "conn_reach c" and "phase c = Complete"
  shows "(decode c = None \<longleftrightarrow> incall c ! 0 = Some ''txn_beg'') \<and> (incall c ! 0 = Some ''txn_beg'' \<longrightarrow> serve env benv old c s = None) \<and> cn_txnid c = 0"
  using decode_None_iff [OF conn_reach_ok [OF assms(1)] assms(2)] conn_reach_txnid [OF assms(1)] by (auto simp: serve_def)

theorem txn_beg_faults_witness:
  "\<exists>c. take_messages fresh_conn [''txn_beg''] = Some c \<and> phase c = Complete \<and> (\<forall>s. serve demo_env no_bck no_stat c s = None)"
proof -
  have "map_option (\<lambda>c. (phase c, incall c ! 0)) (take_messages fresh_conn [''txn_beg'']) = Some (Complete, Some ''txn_beg'')" by code_simp
  then obtain c where c: "take_messages fresh_conn [''txn_beg''] = Some c" "phase c = Complete" "incall c ! 0 = Some ''txn_beg''" by auto
  then show ?thesis using txn_beg_faults [OF take_messages_reach [OF c(1) fresh_conn_reach] c(2)] c(3) by blast
qed

end
