(* ===== verification/Client.thy ===== *)
theory Client
  imports Reader
begin

text \<open>
  The library of the clients: the wrappers that replace the system calls (client_invoke.c,
  libclient.c) and \<open>call_execute\<close> (client.c), which sends the messages of a call and waits for the
  reply.  Then the conversation of such a client with the thread of its connection.

  The two sockets are queues of byte strings, one for each \<open>send\<close> or \<open>write\<close>; a \<open>recv\<close> or \<open>read\<close>
  returns what one of them sent, up to its limit, and the rest at the next time.  The protocol relies on
  this: TCP itself may join two messages.
\<close>

section \<open>The wrappers\<close>

datatype api =
  Api_open cstring int
| Api_write int "char list" int
| Api_lseek int int int
| Api_read int "char list" int
| Api_rename cstring cstring
| Api_creat cstring int
| Api_lstat cstring
| Api_unlink cstring
| Api_inode_stat cstring
| Api_txn_beg int
| Api_txn_commit
| Api_txn_abort
| Api_bck_beg cstring cstring
| Api_quit

text \<open>\<open>snprintf\<close> into a buffer of \<open>n\<close> bytes.\<close>

definition printed :: "nat \<Rightarrow> int \<Rightarrow> cstring" where
  "printed n x = take (n - 1) (show_int x)"

text \<open>The array of arguments without the \<open>"sesh"\<close> at its end, but for \<open>stat\<close>, where that is sent too.  The
  buffer of a read or a write goes as a string.\<close>

fun argcalls :: "api \<Rightarrow> cstring list" where
  "argcalls (Api_open path flags) = [''open'', path, printed 12 (s32 flags)]"
| "argcalls (Api_write fd buf nbyte) = [''write'', printed 12 (s32 fd), c_string buf, printed 12 (s32 nbyte)]"
| "argcalls (Api_lseek fd offset whence) = [''lseek'', printed 12 (s32 fd), printed 20 offset, printed 20 (s32 whence)]"
| "argcalls (Api_read fd buf nbyte) = [''read'', printed 12 (s32 fd), c_string buf, printed 12 (s32 nbyte)]"
| "argcalls (Api_rename old new) = [''rename'', old, new]"
| "argcalls (Api_creat path mode) = [''creat'', path, printed 12 (s32 mode)]"
| "argcalls (Api_lstat path) = [''stat'', path, ''sesh'']"
| "argcalls (Api_unlink path) = [''unlink'', path]"
| "argcalls (Api_inode_stat path) = [''inode_stat'', path]"
| "argcalls (Api_txn_beg t) = [''txn_beg'', show_int (s32 t)]"
| "argcalls Api_txn_commit = [''txn_commit'']"
| "argcalls Api_txn_abort = [''txn_abort'']"
| "argcalls (Api_bck_beg src dest) = [''bck_beg'', src, dest]"
| "argcalls Api_quit = [''quit'']"

text \<open>The functions of libclient.c, as the calls they make; each that ends a transaction also leaves.
  \<open>txn_beg\<close> prints the number into ten bytes.\<close>

datatype lib_fn = Txn_beg int | Txn_commit | Txn_abort | Bck_beg cstring cstring | Exit_txn

fun lib_calls :: "lib_fn \<Rightarrow> api list option" where
  "lib_calls (Txn_beg t) = (if length (show_int (s32 t)) < 10 then Some [Api_txn_beg t] else None)"
| "lib_calls Txn_commit = Some [Api_txn_commit, Api_quit]"
| "lib_calls Txn_abort = Some [Api_txn_abort, Api_quit]"
| "lib_calls (Bck_beg src dest) = Some [Api_bck_beg src dest, Api_quit]"
| "lib_calls Exit_txn = Some [Api_quit]"

section \<open>Sending a call\<close>

text \<open>How many messages a call has.  For any other name the variable is never set.\<close>

definition client_count :: "cstring \<Rightarrow> nat option" where
  "client_count cmd =
     (if cmd \<in> {''txn_commit'', ''txn_abort'', ''quit''} then Some 1
      else if cmd \<in> {''txn_beg'', ''unlink'', ''inode_stat''} then Some 2
      else if cmd \<in> {''open'', ''rename'', ''creat'', ''stat'', ''bck_beg''} then Some 3
      else if cmd \<in> {''write'', ''lseek'', ''read''} then Some 4
      else None)"

datatype client_phase =
  Await_ack nat
| Await_data
| Await_result "char list"
| Returned int "char list"

text \<open>What is read is copied as a string, and padded with zeros, into the caller's buffer.\<close>

definition copy_data :: "char list \<Rightarrow> char list" where
  "copy_data bytes = c_string bytes @ replicate (length bytes - length (c_string bytes)) (CHR 0x00)"

fun client_recv :: "cstring list \<Rightarrow> client_phase \<Rightarrow> char list \<Rightarrow> (client_phase \<times> char list list) option" where
  "client_recv args (Await_ack i) bytes = do {
     n \<leftarrow> client_count (args ! 0);
     if i + 1 < n then Some (Await_ack (i + 1), [args ! (i + 1)])
     else if args ! 0 = ''read'' then Some (Await_data, [])
     else Some (Await_result [], []) }"
| "client_recv args Await_data bytes = Some (Await_result (copy_data bytes), [''ack''])"
| "client_recv args (Await_result dat) bytes = Some (Returned (atoi (c_string bytes)) dat, [])"
| "client_recv args (Returned r dat) bytes = None"

text \<open>\<open>MAX_BUFFER_SIZE-1\<close>, or 255 for the last reply; the server's limits are the same.\<close>

definition client_limit :: "client_phase \<Rightarrow> nat" where
  "client_limit ph = (case ph of Await_result _ \<Rightarrow> 255 | _ \<Rightarrow> 10249)"

definition server_limit :: "conn \<Rightarrow> nat" where
  "server_limit c = (case phase c of Acking _ \<Rightarrow> 255 | _ \<Rightarrow> 10249)"

section \<open>The conversation\<close>

text \<open>Sending no bytes sends nothing.\<close>

definition send_all :: "char list list \<Rightarrow> char list list \<Rightarrow> char list list" where
  "send_all q ms = q @ filter (\<lambda>m. m \<noteq> []) ms"

fun recv_limited :: "nat \<Rightarrow> char list list \<Rightarrow> char list \<times> char list list" where
  "recv_limited k [] = ([], [])"
| "recv_limited k (m # q) = (take k m, if length m \<le> k then q else drop k m # q)"

text \<open>The server takes a message, answers it, and does the call when it is complete.\<close>

definition server_recv :: "fs_env \<Rightarrow> bck_env \<Rightarrow> stat_buf \<Rightarrow> conn \<Rightarrow> server \<Rightarrow> char list \<Rightarrow> (conn \<times> char list list \<times> server) option" where
  "server_recv env benv old c s bytes =
     (case phase c of
        Receiving i \<Rightarrow> do {
          c \<leftarrow> take_message c bytes;
          if phase c = Complete then do { (c, ws, s) \<leftarrow> serve env benv old c s; Some (c, received # ws, s) }
          else Some (c, [received], s) }
      | Acking r \<Rightarrow> (let (c, ws) = finish_ack r c in Some (c, ws, s))
      | _ \<Rightarrow> None)"

record talk =
  tk_client :: client_phase
  tk_conn :: conn
  tk_server :: server
  to_server :: "char list list"
  to_client :: "char list list"

definition listens :: "conn \<Rightarrow> bool" where
  "listens c \<longleftrightarrow> (case phase c of Receiving _ \<Rightarrow> True | Acking _ \<Rightarrow> True | _ \<Rightarrow> False)"

text \<open>One side takes its next message, the client first; \<open>talk_over\<close>: the call has returned, or each side
  waits for the other.\<close>

definition talk_over :: "talk \<Rightarrow> bool" where
  "talk_over t \<longleftrightarrow> (case tk_client t of Returned _ _ \<Rightarrow> True | _ \<Rightarrow> False) \<or>
     (to_client t = [] \<and> (to_server t = [] \<or> \<not> listens (tk_conn t)))"

definition talk_step :: "fs_env \<Rightarrow> bck_env \<Rightarrow> stat_buf \<Rightarrow> cstring list \<Rightarrow> talk \<Rightarrow> talk option" where
  "talk_step env benv old args t =
     (if to_client t \<noteq> [] then
        (let (m, q) = recv_limited (client_limit (tk_client t)) (to_client t) in do {
           (ph, ws) \<leftarrow> client_recv args (tk_client t) m;
           Some (t\<lparr>tk_client := ph, to_client := q, to_server := send_all (to_server t) ws\<rparr>) })
      else
        (let (m, q) = recv_limited (server_limit (tk_conn t)) (to_server t) in do {
           (c, ws, s) \<leftarrow> server_recv env benv old (tk_conn t) (tk_server t) m;
           Some (t\<lparr>tk_conn := c, tk_server := s, to_server := q, to_client := send_all (to_client t) ws\<rparr>) }))"

fun talk_run :: "nat \<Rightarrow> fs_env \<Rightarrow> bck_env \<Rightarrow> stat_buf \<Rightarrow> cstring list \<Rightarrow> talk \<Rightarrow> talk option" where
  "talk_run 0 env benv old args t = None"
| "talk_run (Suc k) env benv old args t =
     (if talk_over t then Some t else do { t \<leftarrow> talk_step env benv old args t; talk_run k env benv old args t })"

definition call_start :: "cstring list \<Rightarrow> conn \<Rightarrow> server \<Rightarrow> talk" where
  "call_start args c s = \<lparr>tk_client = Await_ack 0, tk_conn = c, tk_server = s, to_server = send_all [] [args ! 0], to_client = []\<rparr>"

definition call_execute :: "fs_env \<Rightarrow> bck_env \<Rightarrow> stat_buf \<Rightarrow> cstring list \<Rightarrow> conn \<Rightarrow> server \<Rightarrow> talk option" where
  "call_execute env benv old args c s = talk_run 20 env benv old args (call_start args c s)"

text \<open>Calls one after the other, each on what the one before has left.\<close>

fun session :: "fs_env \<Rightarrow> bck_env \<Rightarrow> stat_buf \<Rightarrow> api list \<Rightarrow> conn \<Rightarrow> server \<Rightarrow> (client_phase list \<times> conn \<times> server) option" where
  "session env benv old [] c s = Some ([], c, s)"
| "session env benv old (a # as) c s = do {
     t \<leftarrow> call_execute env benv old (argcalls a) c s;
     case tk_client t of
       Returned _ _ \<Rightarrow> do {
         (phs, c, s) \<leftarrow> session env benv old as (tk_conn t) (tk_server t);
         Some (tk_client t # phs, c, s) }
     | ph \<Rightarrow> Some ([ph], tk_conn t, tk_server t) }"

end
