(* ===== verification/Protocol.thy ===== *)
theory Protocol
  imports Client
begin

text \<open>
  A client and its connection together: which calls bring the server's result back to the caller, and
  which ones do not.
\<close>

section \<open>Numbers as strings\<close>

lemma dec_digits_length: "n < 10 ^ k \<Longrightarrow> 0 < k \<Longrightarrow> length (dec_digits n) \<le> k"
proof (induction n arbitrary: k rule: dec_digits.induct)
  case (1 n)
  show ?case
  proof (cases "n < 10")
    case False
    then obtain j where j: "k = Suc j" "0 < j" using 1 by (cases k; cases "k - 1") auto
    then have "n div 10 < 10 ^ j" using 1(2) by (simp add: less_mult_imp_div_less mult.commute)
    then have "length (dec_digits (n div 10)) \<le> j" using 1(1) [OF False] j by simp
    then show ?thesis using False j by (simp add: dec_digits.simps [of n])
  qed (use 1 in \<open>simp add: dec_digits.simps [of n]\<close>)
qed

lemma show_int_length:
  assumes "in_s32 x"
  shows "length (show_int x) \<le> 11"
proof -
  have "nat \<bar>x\<bar> < 10 ^ 10" using assms by (auto simp: in_s32_def)
  then have "length (dec_digits (nat \<bar>x\<bar>)) \<le> 10" by (rule dec_digits_length) simp
  then show ?thesis by (auto simp: show_int_def)
qed

lemma show_int_clean: "CHR 0x00 \<notin> set (show_int x)" "show_int x \<noteq> []"
proof -
  have "\<not> is_digit (CHR 0x00)" by (simp add: is_digit_def)
  then have "CHR 0x00 \<notin> set (dec_digits n)" for n using dec_digits_ok [of n] by blast
  then show "CHR 0x00 \<notin> set (show_int x)" by (simp add: show_int_def)
  show "show_int x \<noteq> []" using dec_digits_ok by (simp add: show_int_def)
qed

lemma c_string_clean: "CHR 0x00 \<notin> set t \<Longrightarrow> c_string t = t"
  unfolding c_string_def by (subst takeWhile_eq_all_conv) blast

lemma c_string_text: "CHR 0x00 \<notin> set t \<Longrightarrow> c_string (t @ CHR 0x00 # r) = t"
  unfolding c_string_def by (subst takeWhile_append2) auto

lemma printed_s32: "printed 12 (s32 x) = show_int (s32 x)"
  using show_int_length [of "s32 x"] by (simp add: printed_def)

lemma print_str_read: "in_s32 x \<Longrightarrow> atoi (c_string (str_buf (print_str (show_int x) c))) = x"
  using show_int_length [of x] show_int_clean(1) [of x]
  by (simp add: print_str_def str_size_def Let_def c_string_text atoi_show_int)

section \<open>Getting the messages across\<close>

definition sendable :: "char list \<Rightarrow> bool" where
  "sendable m \<longleftrightarrow> m \<noteq> [] \<and> CHR 0x00 \<notin> set m \<and> length m \<le> 10249"

lemma sendable_show_int: "in_s32 x \<Longrightarrow> sendable (show_int x)"
  using show_int_length [of x] show_int_clean [of x] by (simp add: sendable_def)

lemma take_message_spec:
  assumes "conn_ok c" and "phase c = Receiving i"
  shows "\<exists>c'. take_message c m = Some c' \<and> conn_ok c' \<and> incall c' ! i = Some (c_string m) \<and> (\<forall>j < i. incall c' ! j = incall c ! j) \<and>
     no_of_arg c' = (if i = 0 then (case arg_count (c_string m) of None \<Rightarrow> no_of_arg c | Some n \<Rightarrow> n) else no_of_arg c) \<and>
     str_buf c' = str_buf c \<and> cn_txnid c' = cn_txnid c \<and> phase c' = (if i + 1 < no_of_arg c' then Receiving (i + 1) else Complete)"
proof -
  obtain c' where c': "take_message c m = Some c'" "conn_ok c'" using take_message_ok [OF assms] by blast
  have len: "length (incall c) = 10" using assms by (cases i) (auto simp: conn_ok_def cells_ok_def)
  have fr: "length cs = length ds" if "free_cells k ds = Some cs" for k cs ds
    using that by (induction k arbitrary: cs) (auto simp: Option.bind_eq_Some_conv split: if_splits)
  show ?thesis
  proof (cases i)
    case 0
    then obtain c1 where c1: "free_args c = Some c1" using c'(1) assms(2) by (auto simp: take_message_def Option.bind_eq_Some_conv)
    then have "length (incall c1) = 10" "no_of_arg c1 = no_of_arg c" "str_buf c1 = str_buf c" "cn_txnid c1 = cn_txnid c"
      using len by (auto simp: free_args_def Option.bind_eq_Some_conv fr split: if_splits)
    then show ?thesis using c' c1 0 assms(2) by (auto simp: take_message_def after_message_def Let_def split: option.splits)
  next
    case (Suc k)
    then show ?thesis using c' assms(2) by (auto simp: take_message_def after_message_def split: if_splits)
  qed
qed

lemma converse_step:
  "\<not> talk_over t \<Longrightarrow> talk_step env benv old args t = Some t' \<Longrightarrow> talk_run (Suc k) env benv old args t = talk_run k env benv old args t'"
  by simp

lemma recv_whole: "length m \<le> k \<Longrightarrow> recv_limited k (m # q) = (m, q)"
  by simp

lemma server_step:
  assumes "phase c = Receiving i" and "m \<noteq> []" and "length m \<le> 10249" and "\<nexists>r dat. ph = Returned r dat"
  shows "talk_run (Suc k) env benv old args \<lparr>tk_client = ph, tk_conn = c, tk_server = s, to_server = m # q, to_client = []\<rparr> =
     do { (c, ws, s) \<leftarrow> server_recv env benv old c s m;
          talk_run k env benv old args \<lparr>tk_client = ph, tk_conn = c, tk_server = s, to_server = q, to_client = send_all [] ws\<rparr> }"
  using assms by (cases ph) (simp_all add: talk_over_def listens_def talk_step_def server_limit_def Let_def split: prod.split bind_split)

lemma client_step:
  assumes "m \<noteq> []" and "length m \<le> client_limit ph" and "client_recv args ph m = Some (ph', ws)"
  shows "talk_run (Suc k) env benv old args \<lparr>tk_client = ph, tk_conn = c, tk_server = s, to_server = q, to_client = m # p\<rparr> =
     talk_run k env benv old args \<lparr>tk_client = ph', tk_conn = c, tk_server = s, to_server = send_all q ws, to_client = p\<rparr>"
  using assms by (cases ph) (simp_all add: talk_over_def talk_step_def)

lemma server_takes:
  assumes "conn_ok c" and "phase c = Receiving i" and "take_message c m = Some c'"
  shows "server_recv env benv old c s m = (if phase c' = Complete then do { (c, ws, s) \<leftarrow> serve env benv old c' s; Some (c, received # ws, s) } else Some (c', [received], s))"
  using assms by (simp add: server_recv_def)

definition holds_args :: "conn \<Rightarrow> nat \<Rightarrow> cstring list \<Rightarrow> bool" where
  "holds_args c n args \<longleftrightarrow> (\<forall>j < n. incall c ! j = Some (args ! j))"

text \<open>The messages of a call whose number both sides agree on arrive, each answered, and the server does
  the call.\<close>

lemma gather:
  assumes n: "client_count (args ! 0) = Some n" "arg_count (args ! 0) = Some n" and clean: "\<And>j. j < n \<Longrightarrow> sendable (args ! j)"
  shows "conn_ok c \<Longrightarrow> phase c = Receiving i \<Longrightarrow> i < n \<Longrightarrow> (i \<noteq> 0 \<Longrightarrow> no_of_arg c = n) \<Longrightarrow> holds_args c i args \<Longrightarrow>
     \<exists>c'. conn_ok c' \<and> phase c' = Complete \<and> no_of_arg c' = n \<and> holds_args c' n args \<and> str_buf c' = str_buf c \<and> cn_txnid c' = cn_txnid c \<and>
       talk_run (2 * (n - i) + k) env benv old args \<lparr>tk_client = Await_ack i, tk_conn = c, tk_server = s, to_server = [args ! i], to_client = []\<rparr> =
       do { (c, ws, s) \<leftarrow> serve env benv old c' s;
            talk_run (Suc k) env benv old args \<lparr>tk_client = Await_ack (n - 1), tk_conn = c, tk_server = s, to_server = [], to_client = received # send_all [] ws\<rparr> }"
proof (induction "n - i" arbitrary: i c)
  case (Suc d)
  have m: "args ! i \<noteq> []" "length (args ! i) \<le> 10249" "c_string (args ! i) = args ! i"
    using clean [OF Suc.prems(3)] c_string_clean by (auto simp: sendable_def)
  obtain c1 where c1: "take_message c (args ! i) = Some c1" "conn_ok c1" "incall c1 ! i = Some (args ! i)" "\<forall>j < i. incall c1 ! j = incall c ! j"
      "no_of_arg c1 = (if i = 0 then (case arg_count (args ! i) of None \<Rightarrow> no_of_arg c | Some n \<Rightarrow> n) else no_of_arg c)"
      "str_buf c1 = str_buf c" "cn_txnid c1 = cn_txnid c" "phase c1 = (if i + 1 < no_of_arg c1 then Receiving (i + 1) else Complete)"
    using take_message_spec [OF Suc.prems(1,2), of "args ! i"] unfolding m(3) by blast
  have no: "no_of_arg c1 = n" using c1(5) Suc.prems(4) n(2) by (cases "i = 0") auto
  have h: "holds_args c1 (i + 1) args" using c1(3,4) Suc.prems(5) by (auto simp: holds_args_def less_Suc_eq)
  note sv = server_takes [OF Suc.prems(1,2) c1(1), of env benv old s]
  have run: "talk_run (Suc f) env benv old args \<lparr>tk_client = Await_ack i, tk_conn = c, tk_server = s, to_server = [args ! i], to_client = []\<rparr> =
     do { (c, ws, s) \<leftarrow> server_recv env benv old c s (args ! i);
          talk_run f env benv old args \<lparr>tk_client = Await_ack i, tk_conn = c, tk_server = s, to_server = [], to_client = send_all [] ws\<rparr> }" for f
    using server_step [OF Suc.prems(2) m(1,2), of "Await_ack i" f env benv old args s "[]"] by simp
  show ?case
  proof (cases "i + 1 < n")
    case True
    then have p: "phase c1 = Receiving (i + 1)" using c1(8) no by simp
    have nx: "args ! (i + 1) \<noteq> []" using clean [OF True] by (simp add: sendable_def)
    have d: "d = n - (i + 1)" "0 \<noteq> i + 1" using Suc.hyps(2) by simp_all
    obtain c' where c': "conn_ok c' \<and> phase c' = Complete \<and> no_of_arg c' = n \<and> holds_args c' n args \<and> str_buf c' = str_buf c1 \<and> cn_txnid c' = cn_txnid c1"
      and r: "talk_run (2 * (n - (i + 1)) + k) env benv old args \<lparr>tk_client = Await_ack (i + 1), tk_conn = c1, tk_server = s, to_server = [args ! (i + 1)], to_client = []\<rparr> =
       do { (c, ws, s) \<leftarrow> serve env benv old c' s;
            talk_run (Suc k) env benv old args \<lparr>tk_client = Await_ack (n - 1), tk_conn = c, tk_server = s, to_server = [], to_client = received # send_all [] ws\<rparr> }"
      using Suc.hyps(1) [OF d(1) c1(2) p True _ h] no by blast
    have "2 * (n - i) + k = Suc (Suc (2 * (n - (i + 1)) + k))" using Suc.prems(3) by simp
    then have "talk_run (2 * (n - i) + k) env benv old args \<lparr>tk_client = Await_ack i, tk_conn = c, tk_server = s, to_server = [args ! i], to_client = []\<rparr> =
       talk_run (2 * (n - (i + 1)) + k) env benv old args \<lparr>tk_client = Await_ack (i + 1), tk_conn = c1, tk_server = s, to_server = [args ! (i + 1)], to_client = []\<rparr>"
      using run p sv client_step [of received "Await_ack i" args "Await_ack (i + 1)" "[args ! (i + 1)]"] n(1) True nx
      by (simp add: send_all_def received_def client_limit_def del: talk_run.simps)
    then show ?thesis using c' r c1(6,7) by (intro exI [of _ c']) (simp del: talk_run.simps)
  next
    case False
    then have i: "i + 1 = n" "n - 1 = i" using Suc.prems(3) by simp_all
    then have p: "phase c1 = Complete" using c1(8) no by simp
    have "2 * (n - i) + k = Suc (Suc k)" using i by simp
    then show ?thesis unfolding i(2) using run sv p c1(2,6,7) no h i(1)
      by (intro exI [of _ c1]) (auto simp: send_all_def received_def bind_assoc case_prod_unfold simp del: talk_run.simps)
  qed
qed simp

section \<open>What the server sees of a call\<close>

fun call_of :: "api \<Rightarrow> call option" where
  "call_of (Api_open path flags) = Some (Open path (show_int (s32 flags)))"
| "call_of (Api_write fd buf nbyte) = Some (Write (show_int (s32 fd)) (c_string buf) (show_int (s32 nbyte)))"
| "call_of (Api_lseek fd offset whence) = Some (Lseek (show_int (s32 fd)) (printed 20 offset) (printed 20 (s32 whence)))"
| "call_of (Api_rename old new) = Some (Rename old new)"
| "call_of (Api_creat path mode) = Some (Creat path (show_int (s32 mode)))"
| "call_of (Api_unlink path) = Some (Unlink path)"
| "call_of (Api_inode_stat path) = Some (Inode_stat path)"
| "call_of Api_txn_commit = Some Commit"
| "call_of Api_txn_abort = Some Abort"
| "call_of _ = None"

lemma call_of_counts:
  assumes "call_of a = Some cl"
  shows "client_count (argcalls a ! 0) = Some (length (argcalls a))" "arg_count (argcalls a ! 0) = Some (length (argcalls a))"
    "argcalls a ! 0 \<noteq> ''read''" "argcalls a ! 0 \<noteq> ''quit''" "length (argcalls a) \<le> 4"
  using assms by (cases a; simp add: client_count_def arg_count_def)+

lemma decode_call_of:
  assumes "call_of a = Some cl" and "holds_args c (length (argcalls a)) (argcalls a)"
  shows "decode c = Some (Client_call cl)"
proof -
  have "incall c ! j = Some (argcalls a ! j)" if "j < length (argcalls a)" for j using assms(2) that by (simp add: holds_args_def)
  note h = this [of 0] this [of 1] this [of 2] this [of 3]
  show ?thesis using assms(1) h unfolding decode_def
    by (cases a) (auto simp: printed_s32 numeral_2_eq_2 numeral_3_eq_3)
qed

text \<open>The reply as a number.\<close>

definition reply_value :: "call \<Rightarrow> int \<Rightarrow> conn \<Rightarrow> int" where
  "reply_value cl r c =
     (case cl of Write _ _ _ \<Rightarrow> atoi (c_string (str_buf c)) | Commit \<Rightarrow> s32 (cn_txnid c) | Abort \<Rightarrow> s32 (cn_txnid c) | _ \<Rightarrow> s32 r)"

lemma reply_text_value:
  "atoi (c_string (str_buf (reply_text cl r c))) = reply_value cl r c"
  by (simp add: reply_text_def reply_value_def print_str_read split: call.split)

definition call_done :: "talk \<Rightarrow> int \<Rightarrow> conn \<Rightarrow> server \<Rightarrow> bool" where
  "call_done t r c s \<longleftrightarrow> tk_client t = Returned r [] \<and> tk_server t = s \<and> to_server t = [] \<and> to_client t = [] \<and>
     conn_ok (tk_conn t) \<and> phase (tk_conn t) = Receiving 0 \<and> cn_txnid (tk_conn t) = cn_txnid c"

lemma call_result:
  assumes ok: "conn_ok c" "phase c = Receiving 0" and cl: "call_of a = Some cl" and clean: "list_all sendable (argcalls a)"
    and d: "start_call env cl (cn_txnid c) s = Some (Done r, s')"
  shows "\<exists>t. call_execute env benv old (argcalls a) c s = Some t \<and> call_done t (reply_value cl r c) c s' \<and>
     str_buf (tk_conn t) = str_buf (reply_text cl r c)"
proof -
  let ?args = "argcalls a" let ?n = "length (argcalls a)"
  note k = call_of_counts [OF cl]
  have n: "0 < ?n" using cl by (cases a) auto
  have s0: "sendable (?args ! j)" if "j < ?n" for j using clean that by (simp add: list_all_length)
  have hold0: "holds_args c 0 ?args" by (simp add: holds_args_def)
  have fuel: "2 * (?n - 0) + (20 - 2 * ?n) = 20" using k(5) by simp
  obtain c' where c': "conn_ok c'" "phase c' = Complete" "no_of_arg c' = ?n" "holds_args c' ?n ?args" "str_buf c' = str_buf c" "cn_txnid c' = cn_txnid c"
    and run: "talk_run 20 env benv old ?args \<lparr>tk_client = Await_ack 0, tk_conn = c, tk_server = s, to_server = [?args ! 0], to_client = []\<rparr> =
       do { (c, ws, s) \<leftarrow> serve env benv old c' s;
            talk_run (Suc (20 - 2 * ?n)) env benv old ?args \<lparr>tk_client = Await_ack (?n - 1), tk_conn = c, tk_server = s, to_server = [], to_client = received # send_all [] ws\<rparr> }"
    using gather [OF k(1,2) s0 ok n _ hold0, of "20 - 2 * ?n" env benv old s] unfolding fuel by auto
  let ?c = "reply_text cl r c'" let ?d = "?c\<lparr>phase := Receiving 0\<rparr>"
  have cells: "cells_ok c' (no_of_arg c')" using c'(1,2) by (simp add: conn_ok_def)
  then have len: "length (str_buf ?c) = str_size" by (simp add: cells_ok_def)
  have h0: "incall c' ! 0 = Some (?args ! 0)" using c'(4) n by (simp add: holds_args_def)
  have "serve env benv old c' s = Some (?d, [str_buf ?c], s')"
    using d c'(6) by (simp add: serve_def decode_call_of [OF cl c'(4)] finish_call_def Let_def)
  moreover have ne: "str_buf ?c \<noteq> []" using len by (auto simp: str_size_def)
  ultimately have "talk_run 20 env benv old ?args \<lparr>tk_client = Await_ack 0, tk_conn = c, tk_server = s, to_server = [?args ! 0], to_client = []\<rparr> =
     talk_run (Suc (20 - 2 * ?n)) env benv old ?args \<lparr>tk_client = Await_ack (?n - 1), tk_conn = ?d, tk_server = s', to_server = [], to_client = [received, str_buf ?c]\<rparr>"
    using run by (simp add: send_all_def del: talk_run.simps)
  also have "\<dots> = talk_run (20 - 2 * ?n) env benv old ?args \<lparr>tk_client = Await_result [], tk_conn = ?d, tk_server = s', to_server = [], to_client = [str_buf ?c]\<rparr>"
    using client_step [of received "Await_ack (?n - 1)" ?args "Await_result []" "[]"] k n
    by (simp add: received_def client_limit_def send_all_def del: talk_run.simps)
  also have "20 - 2 * ?n = Suc (Suc (18 - 2 * ?n))" using k(5) by simp
  also have "talk_run (Suc (Suc (18 - 2 * ?n))) env benv old ?args \<lparr>tk_client = Await_result [], tk_conn = ?d, tk_server = s', to_server = [], to_client = [str_buf ?c]\<rparr> =
      talk_run (Suc (18 - 2 * ?n)) env benv old ?args \<lparr>tk_client = Returned (reply_value cl r c') [], tk_conn = ?d, tk_server = s', to_server = [], to_client = []\<rparr>"
    using client_step [OF ne, of "Await_result []" ?args "Returned (reply_value cl r c') []" "[]"] len
    by (simp add: client_limit_def send_all_def reply_text_value str_size_def del: talk_run.simps)
  finally have "call_execute env benv old ?args c s = Some \<lparr>tk_client = Returned (reply_value cl r c') [], tk_conn = ?d, tk_server = s', to_server = [], to_client = []\<rparr>"
    using s0 [OF n] by (simp add: call_execute_def call_start_def send_all_def sendable_def talk_over_def)
  moreover have "reply_value cl r c' = reply_value cl r c" using c'(5,6) by (cases cl) (simp_all add: reply_value_def)
  moreover have "str_buf ?c = str_buf (reply_text cl r c)" using c'(5,6) by (cases cl) (simp_all add: reply_text_def print_str_def Let_def)
  moreover have "conn_ok ?d" using conn_ok_text(2) [OF cells] h0 k(4) by simp
  ultimately show ?thesis using c'(6) by (simp add: call_done_def)
qed

section \<open>Properties\<close>

text \<open>C24: Which calls bring back what the server computed.  For exactly open, lseek, rename, creat, unlink,
  inode_stat, commit and abort, with arguments that are not empty, have no NUL byte and fill at most 10249 bytes,
  and where the handler answers at once (not where the call has to wait for a lock) with a result in the range of an
  \<open>int\<close>, the wrapper on the client returns; the server has done exactly the call the client meant, with
  numbers and strings as they were passed, in the name of the connection's transaction; the caller gets the
  handler's result, or for commit and abort the number of the transaction; and the connection is ready for the
  next call.  (That number stays 0 as long as \<open>txn_beg\<close> cannot be served, see Reader.  The calls \<open>write\<close>, \<open>read\<close>,
  \<open>stat\<close> and the backup's are not among these; Protocol and ProtocolFaults treat them one by one.)\<close>

theorem client_gets_result:
  assumes "conn_ok c" and "phase c = Receiving 0" and "call_of a = Some cl" and "list_all sendable (argcalls a)"
    and "\<nexists>fd buf nbyte. a = Api_write fd buf nbyte"
    and "start_call env cl (cn_txnid c) s = Some (Done r, s')" and "in_s32 r"
  shows "\<exists>t. call_execute env benv old (argcalls a) c s = Some t \<and>
     call_done t (if cl = Commit \<or> cl = Abort then s32 (cn_txnid c) else r) c s'"
proof -
  have "reply_value cl r c = (if cl = Commit \<or> cl = Abort then s32 (cn_txnid c) else r)"
    using assms(3,5,7) by (cases a) (auto simp: reply_value_def)
  then show ?thesis using call_result [OF assms(1-4,6), of benv old] by auto
qed

lemma fresh_conn_ok: "conn_ok (fresh_conn\<lparr>cn_txnid := t\<rparr>)" "phase (fresh_conn\<lparr>cn_txnid := t\<rparr>) = Receiving 0"
  using conn_reach_ok [OF fresh_conn_reach] by (auto simp: fresh_conn_def conn_init_def conn_ok_def cells_ok_def)

theorem client_gets_result_witness:
  "\<exists>S t s' u s2. begin_step 1 (sys_init []) = Some S \<and> call_execute demo_env no_bck no_stat (argcalls (Api_open ''/f'' 2)) (fresh_conn\<lparr>cn_txnid := 1\<rparr>) (srv S) = Some t \<and>
     call_done t 5 (fresh_conn\<lparr>cn_txnid := 1\<rparr>) s' \<and> held_list s' = [(1, 7, 1)] \<and>
     conn_reach fresh_conn \<and> call_execute demo_env no_bck no_stat (argcalls (Api_lseek 5 8 0)) fresh_conn (srv S) = Some u \<and> call_done u 8 fresh_conn s2"
proof -
  have "map_option (\<lambda>S. map_option (\<lambda>(out, s). (out, held_list s)) (start_call demo_env (Open ''/f'' ''2'') 1 (srv S))) (begin_step 1 (sys_init [])) =
      Some (Some (Done 5, [(1, 7, 1)]))" by code_simp
  then obtain S s' where S: "begin_step 1 (sys_init []) = Some S" "start_call demo_env (Open ''/f'' ''2'') 1 (srv S) = Some (Done 5, s')" "held_list s' = [(1, 7, 1)]"
    by auto
  have a: "call_of (Api_open ''/f'' 2) = Some (Open ''/f'' ''2'')" "list_all sendable (argcalls (Api_open ''/f'' 2))" by code_simp+
  have b: "call_of (Api_lseek 5 8 0) = Some (Lseek ''5'' ''8'' ''0'')" "list_all sendable (argcalls (Api_lseek 5 8 0))" by code_simp+
  have "atoi ''8'' = 8" by code_simp
  then obtain s2 where "start_call demo_env (Lseek ''5'' ''8'' ''0'') (cn_txnid fresh_conn) (srv S) = Some (Done 8, s2)"
    by (simp add: start_call_def on_lseek_def demo_env_def)
  from client_gets_result [OF conn_reach_ok [OF fresh_conn_reach] _ b _ this, of no_bck no_stat]
  obtain u where "call_execute demo_env no_bck no_stat (argcalls (Api_lseek 5 8 0)) fresh_conn (srv S) = Some u" "call_done u 8 fresh_conn s2"
    by (auto simp: in_s32_def fresh_conn_def conn_init_def)
  moreover have "start_call demo_env (Open ''/f'' ''2'') (cn_txnid (fresh_conn\<lparr>cn_txnid := 1\<rparr>)) (srv S) = Some (Done 5, s')" using S(2) by simp
  from client_gets_result [OF fresh_conn_ok a _ this, of no_bck no_stat]
  obtain t where "call_execute demo_env no_bck no_stat (argcalls (Api_open ''/f'' 2)) (fresh_conn\<lparr>cn_txnid := 1\<rparr>) (srv S) = Some t"
      "call_done t 5 (fresh_conn\<lparr>cn_txnid := 1\<rparr>) s'" by (auto simp: in_s32_def)
  ultimately show ?thesis using S(1,3) fresh_conn_reach by blast
qed

text \<open>C32: A write does not bring back the number of bytes written.  The thread sends the buffer of replies
  without printing into it, so the client gets the value of the call before, whatever the write did.\<close>

theorem write_reply_stale:
  assumes "conn_ok c" and "phase c = Receiving 0" and "call_of a = Some cl" and "list_all sendable (argcalls a)"
    and "start_call env cl (cn_txnid c) s = Some (Done r, s1)"
    and "list_all sendable (argcalls (Api_write fd buf nbyte))" and "call_of (Api_write fd buf nbyte) = Some wr"
    and "start_call env wr (cn_txnid c) s1 = Some (Done w, s2)"
  shows "\<exists>v t1 t2. call_execute env benv old (argcalls a) c s = Some t1 \<and> call_done t1 v c s1 \<and>
     call_execute env benv old (argcalls (Api_write fd buf nbyte)) (tk_conn t1) (tk_server t1) = Some t2 \<and> call_done t2 v c s2"
proof -
  obtain t1 where t1: "call_execute env benv old (argcalls a) c s = Some t1" "call_done t1 (reply_value cl r c) c s1"
      "str_buf (tk_conn t1) = str_buf (reply_text cl r c)"
    using call_result [OF assms(1-5), of benv old] by blast
  then have c1: "conn_ok (tk_conn t1)" "phase (tk_conn t1) = Receiving 0" "cn_txnid (tk_conn t1) = cn_txnid c" "tk_server t1 = s1" by (simp_all add: call_done_def)
  obtain t2 where t2: "call_execute env benv old (argcalls (Api_write fd buf nbyte)) (tk_conn t1) s1 = Some t2"
      "call_done t2 (reply_value wr w (tk_conn t1)) (tk_conn t1) s2"
    using call_result [OF c1(1,2) assms(7,6) assms(8) [folded c1(3)], of benv old] by blast
  have "reply_value wr w (tk_conn t1) = reply_value cl r c"
    using assms(7) t1(3) reply_text_value [of cl r c] by (auto simp: reply_value_def [of wr])
  then have "call_done t2 (reply_value cl r c) c s2" using t2(2) c1(3) by (simp add: call_done_def)
  then show ?thesis using t1(1,2) t2(1) c1(4) by blast
qed

theorem write_reply_stale_witness:
  "\<exists>S t1 t2 s1 s2. begin_step 1 (sys_init []) = Some S \<and>
     call_execute demo_env no_bck no_stat (argcalls (Api_open ''/f'' 2)) (fresh_conn\<lparr>cn_txnid := 1\<rparr>) (srv S) = Some t1 \<and> call_done t1 5 (fresh_conn\<lparr>cn_txnid := 1\<rparr>) s1 \<and>
     call_execute demo_env no_bck no_stat (argcalls (Api_write 5 ''abc'' 3)) (tk_conn t1) (tk_server t1) = Some t2 \<and> call_done t2 5 (fresh_conn\<lparr>cn_txnid := 1\<rparr>) s2 \<and>
     start_call demo_env (Write ''5'' ''abc'' ''3'') 1 s1 = Some (Done 3, s2)"
proof -
  have "map_option (\<lambda>S. map_option (\<lambda>(out, s). (out, map_option fst (start_call demo_env (Write ''5'' ''abc'' ''3'') 1 s)))
      (start_call demo_env (Open ''/f'' ''2'') 1 (srv S))) (begin_step 1 (sys_init [])) = Some (Some (Done 5, Some (Done 3)))" by code_simp
  then obtain S s1 s2 where S: "begin_step 1 (sys_init []) = Some S" "start_call demo_env (Open ''/f'' ''2'') 1 (srv S) = Some (Done 5, s1)"
      "start_call demo_env (Write ''5'' ''abc'' ''3'') 1 s1 = Some (Done 3, s2)"
    by auto
  let ?c = "fresh_conn\<lparr>cn_txnid := 1\<rparr>"
  have a: "call_of (Api_open ''/f'' 2) = Some (Open ''/f'' ''2'')" "list_all sendable (argcalls (Api_open ''/f'' 2))"
    "list_all sendable (argcalls (Api_write 5 ''abc'' 3))" "call_of (Api_write 5 ''abc'' 3) = Some (Write ''5'' ''abc'' ''3'')" by code_simp+
  have d: "start_call demo_env (Open ''/f'' ''2'') (cn_txnid ?c) (srv S) = Some (Done 5, s1)" "start_call demo_env (Write ''5'' ''abc'' ''3'') (cn_txnid ?c) s1 = Some (Done 3, s2)"
    using S(2,3) by simp_all
  obtain v t1 t2 where t: "call_execute demo_env no_bck no_stat (argcalls (Api_open ''/f'' 2)) ?c (srv S) = Some t1" "call_done t1 v ?c s1"
     "call_execute demo_env no_bck no_stat (argcalls (Api_write 5 ''abc'' 3)) (tk_conn t1) (tk_server t1) = Some t2" "call_done t2 v ?c s2"
    using write_reply_stale [OF fresh_conn_ok a(1,2) d(1) a(3,4) d(2), of no_bck no_stat] by blast
  have "v = 5" using call_result [OF fresh_conn_ok a(1,2) d(1), of no_bck no_stat] t(1,2) by (simp add: call_done_def reply_value_def s32_def)
  then show ?thesis using t S by blast
qed

end
