(* ===== verification/ProtocolFaults.thy ===== *)
theory ProtocolFaults
  imports Protocol
begin

text \<open>
  Conversations that go wrong: the messages of \<open>stat\<close>, which the two sides count differently, empty
  messages and failed reads; and the one that takes two replies, a read that succeeds.
\<close>

section \<open>Reading\<close>

lemma api_read_counts:
  "client_count (argcalls (Api_read fd buf nb) ! 0) = Some 4" "arg_count (argcalls (Api_read fd buf nb) ! 0) = Some 4"
  by (simp_all add: client_count_def arg_count_def)

lemma decode_read:
  assumes "holds_args c 4 (argcalls (Api_read fd buf nb))"
  shows "decode c = Some (Read_file (s32 fd) (s32 nb))"
proof -
  have "incall c ! j = Some (argcalls (Api_read fd buf nb) ! j)" if "j < 4" for j using assms that by (simp add: holds_args_def)
  note h = this [of 0] this [of 1] this [of 3]
  show ?thesis using h unfolding decode_def by (simp add: printed_s32 atoi_show_int numeral_3_eq_3)
qed

text \<open>Up to the reply with the data.\<close>

lemma read_data_sent:
  assumes ok: "conn_ok c" "phase c = Receiving 0" and clean: "list_all sendable (argcalls (Api_read fd buf nb))"
    and d: "on_read env (s32 fd) (s32 nb) s = Some ((r, dat), s')" and b: "0 \<le> s32 nb" "- 1 \<le> r" "r \<le> s32 nb"
  shows "\<exists>c' k. conn_ok c' \<and> phase c' = Acking r \<and> str_buf c' = str_buf c \<and> cn_txnid c' = cn_txnid c \<and>
     call_execute env benv old (argcalls (Api_read fd buf nb)) c s =
     talk_run (Suc (Suc (Suc (Suc (Suc k))))) env benv old (argcalls (Api_read fd buf nb))
       \<lparr>tk_client = Await_ack 3, tk_conn = c', tk_server = s', to_server = [], to_client = received # send_all [] [read_bytes r dat]\<rparr>"
proof -
  let ?args = "argcalls (Api_read fd buf nb)"
  note k = api_read_counts [of fd buf nb]
  have s0: "sendable (?args ! j)" if "j < 4" for j using clean that by (simp add: list_all_length)
  have hold0: "holds_args c 0 ?args" by (simp add: holds_args_def)
  have fuel: "2 * (4 - 0) + 12 = (20 :: nat)" by simp
  obtain c' where c': "conn_ok c'" "phase c' = Complete" "holds_args c' 4 ?args" "str_buf c' = str_buf c" "cn_txnid c' = cn_txnid c"
    and run: "talk_run 20 env benv old ?args \<lparr>tk_client = Await_ack 0, tk_conn = c, tk_server = s, to_server = [?args ! 0], to_client = []\<rparr> =
       do { (c, ws, s) \<leftarrow> serve env benv old c' s;
            talk_run (Suc 12) env benv old ?args \<lparr>tk_client = Await_ack (4 - 1), tk_conn = c, tk_server = s, to_server = [], to_client = received # send_all [] ws\<rparr> }"
    using gather [OF k s0 ok _ _ hold0, of 12 env benv old s] unfolding fuel by auto
  have cells: "cells_ok c' (no_of_arg c')" using c'(1,2) by (simp add: conn_ok_def)
  have q: "incall c' ! 0 \<noteq> Some ''quit''" using c'(3) by (simp add: holds_args_def)
  have "serve env benv old c' s = Some (c'\<lparr>phase := Acking r\<rparr>, [read_bytes r dat], s')"
    using d b by (simp add: serve_def decode_read [OF c'(3)])
  then have "call_execute env benv old ?args c s =
     talk_run 13 env benv old ?args \<lparr>tk_client = Await_ack 3, tk_conn = c'\<lparr>phase := Acking r\<rparr>, tk_server = s', to_server = [], to_client = received # send_all [] [read_bytes r dat]\<rparr>"
    using run s0 [of 0] by (simp add: call_execute_def call_start_def send_all_def sendable_def del: talk_run.simps)
  moreover have "conn_ok (c'\<lparr>phase := Acking r\<rparr>)" using conn_ok_phase [OF cells q, of "Acking r"] by simp
  ultimately show ?thesis using c'(4,5)
    by (intro exI [of _ "c'\<lparr>phase := Acking r\<rparr>"] exI [of _ 8]) (simp del: talk_run.simps)
qed

lemma ack_step:
  assumes "phase c = Acking r"
  shows "talk_run (Suc k) env benv old args \<lparr>tk_client = Await_result dat, tk_conn = c, tk_server = s, to_server = [''ack''], to_client = []\<rparr> =
     talk_run k env benv old args \<lparr>tk_client = Await_result dat, tk_conn = (print_str (show_int r) c)\<lparr>phase := Receiving 0\<rparr>, tk_server = s, to_server = [],
       to_client = send_all [] [str_buf (print_str (show_int r) c)]\<rparr>"
  using assms by (simp add: talk_over_def listens_def talk_step_def server_limit_def server_recv_def finish_ack_def Let_def)

lemma copy_data_clean: "CHR 0x00 \<notin> set bytes \<Longrightarrow> copy_data bytes = bytes"
  by (simp add: copy_data_def c_string_clean)

text \<open>C25: A read of text brings back the bytes and their number.  Where the arguments can be sent (the caller's
  buffer, which is sent too, is a string of 1 to 10249 bytes) and the server has read from 1 to 10249 bytes, not more than were
  asked for and none of them NUL, then after two replies with an acknowledgement between them the caller's buffer
  holds exactly what the server read, the wrapper returns how many bytes there are, and the connection is
  ready for the next call.  (The copy on the client stops at the first NUL byte, so other data would be cut off.)\<close>

theorem read_returns_data:
  assumes "conn_ok c" and "phase c = Receiving 0" and "list_all sendable (argcalls (Api_read fd buf nb))"
    and "on_read env (s32 fd) (s32 nb) s = Some ((r, dat), s')" and "1 \<le> r" and "r \<le> s32 nb" and "r \<le> 10249"
    and "r = int (length dat)" and "CHR 0x00 \<notin> set dat"
  shows "\<exists>t. call_execute env benv old (argcalls (Api_read fd buf nb)) c s = Some t \<and> tk_client t = Returned r dat \<and> tk_server t = s' \<and>
     to_server t = [] \<and> to_client t = [] \<and> conn_ok (tk_conn t) \<and> phase (tk_conn t) = Receiving 0 \<and> cn_txnid (tk_conn t) = cn_txnid c"
proof -
  let ?args = "argcalls (Api_read fd buf nb)"
  have b: "0 \<le> s32 nb" "- 1 \<le> r" using assms(5,6) by simp_all
  obtain c' k where c': "conn_ok c'" "phase c' = Acking r" "cn_txnid c' = cn_txnid c"
    and run: "call_execute env benv old ?args c s = talk_run (Suc (Suc (Suc (Suc (Suc k))))) env benv old ?args
       \<lparr>tk_client = Await_ack 3, tk_conn = c', tk_server = s', to_server = [], to_client = received # send_all [] [read_bytes r dat]\<rparr>"
    using read_data_sent [OF assms(1-4) b assms(6), of benv old] by blast
  let ?c = "(print_str (show_int r) c')\<lparr>phase := Receiving 0\<rparr>" and ?t = "str_buf (print_str (show_int r) c')"
  have cells: "cells_ok c' (no_of_arg c')" "incall c' ! 0 \<noteq> Some ''quit''" using c'(1,2) by (simp_all add: conn_ok_def)
  then have len: "length ?t = 12" by (simp add: cells_ok_def str_size_def)
  then have ne: "?t \<noteq> []" by auto
  have dat: "read_bytes r dat = dat" "dat \<noteq> []" "length dat \<le> 10249" using assms(5,7,8) by (auto simp: read_bytes_def)
  have val: "atoi (c_string ?t) = r" using assms(5,7) by (intro print_str_read) (simp add: in_s32_def)
  have "call_execute env benv old ?args c s = talk_run (Suc (Suc (Suc (Suc (Suc k))))) env benv old ?args
       \<lparr>tk_client = Await_ack 3, tk_conn = c', tk_server = s', to_server = [], to_client = [received, dat]\<rparr>"
    using run dat by (simp add: send_all_def del: talk_run.simps)
  also have "\<dots> = talk_run (Suc (Suc (Suc (Suc k)))) env benv old ?args \<lparr>tk_client = Await_data, tk_conn = c', tk_server = s', to_server = [], to_client = [dat]\<rparr>"
    using client_step [of received "Await_ack 3" ?args Await_data "[]"] api_read_counts(1) [of fd buf nb]
    by (simp add: received_def client_limit_def send_all_def del: talk_run.simps)
  also have "\<dots> = talk_run (Suc (Suc (Suc k))) env benv old ?args \<lparr>tk_client = Await_result dat, tk_conn = c', tk_server = s', to_server = [''ack''], to_client = []\<rparr>"
    using client_step [OF dat(2), of Await_data ?args "Await_result dat" "[''ack'']"] dat(3) copy_data_clean [OF assms(9)]
    by (simp add: client_limit_def send_all_def del: talk_run.simps)
  also have "\<dots> = talk_run (Suc (Suc k)) env benv old ?args \<lparr>tk_client = Await_result dat, tk_conn = ?c, tk_server = s', to_server = [], to_client = [?t]\<rparr>"
    using ack_step [OF c'(2)] ne by (simp add: send_all_def del: talk_run.simps)
  also have "\<dots> = talk_run (Suc k) env benv old ?args \<lparr>tk_client = Returned r dat, tk_conn = ?c, tk_server = s', to_server = [], to_client = []\<rparr>"
    using client_step [OF ne, of "Await_result dat" ?args "Returned r dat" "[]"] len val
    by (simp add: client_limit_def send_all_def del: talk_run.simps)
  also have "\<dots> = Some \<lparr>tk_client = Returned r dat, tk_conn = ?c, tk_server = s', to_server = [], to_client = []\<rparr>"
    by (simp add: talk_over_def)
  finally show ?thesis using conn_ok_text(1) [OF cells] c'(3) by simp
qed

definition text_env :: fs_env where
  "text_env = demo_env\<lparr>env_read := (\<lambda>fd n. (3, ''abc''))\<rparr>"

theorem read_returns_data_witness:
  "\<exists>t. call_execute text_env no_bck no_stat (argcalls (Api_read 5 ''dummy'' 10)) fresh_conn (global_init []) = Some t \<and> tk_client t = Returned 3 ''abc''"
proof -
  have c: "conn_ok fresh_conn" "phase fresh_conn = Receiving 0" using conn_reach_ok [OF fresh_conn_reach] by (simp_all add: fresh_conn_def conn_init_def)
  have a: "list_all sendable (argcalls (Api_read 5 ''dummy'' 10))" "s32 5 = 5" "s32 10 = 10" by code_simp+
  have "on_read text_env (s32 5) (s32 10) (global_init []) = Some ((3, ''abc''), emit (Tr_read 5 10) (global_init []))"
    unfolding a(2,3) by (simp add: on_read_def do_read_def text_env_def)
  from read_returns_data [OF c a(1) this _ _ _ _ _, of no_bck no_stat] show ?thesis unfolding a(2,3) by fastforce
qed

text \<open>C33: A read that fails hangs the client and the connection for ever.  The server sends no bytes for it,
  which is nothing on a stream; the client waits for data and the server for the acknowledgement.\<close>

theorem failed_read_hangs:
  assumes "conn_ok c" and "phase c = Receiving 0" and "list_all sendable (argcalls (Api_read fd buf nb))"
    and "on_read env (s32 fd) (s32 nb) s = Some ((- 1, dat), s')" and "0 \<le> s32 nb"
  shows "\<exists>t. call_execute env benv old (argcalls (Api_read fd buf nb)) c s = Some t \<and>
     tk_client t = Await_data \<and> to_client t = [] \<and> phase (tk_conn t) = Acking (- 1) \<and> to_server t = []"
proof -
  let ?args = "argcalls (Api_read fd buf nb)"
  obtain c' k where c': "phase c' = Acking (- 1)"
    and run: "call_execute env benv old ?args c s = talk_run (Suc (Suc (Suc (Suc (Suc k))))) env benv old ?args
       \<lparr>tk_client = Await_ack 3, tk_conn = c', tk_server = s', to_server = [], to_client = received # send_all [] [read_bytes (- 1) dat]\<rparr>"
    using read_data_sent [OF assms(1-4), of benv old] assms(5) by auto
  have "call_execute env benv old ?args c s = talk_run (Suc (Suc (Suc (Suc (Suc k))))) env benv old ?args
       \<lparr>tk_client = Await_ack 3, tk_conn = c', tk_server = s', to_server = [], to_client = [received]\<rparr>"
    using run by (simp add: send_all_def read_bytes_def del: talk_run.simps)
  also have "\<dots> = talk_run (Suc (Suc (Suc (Suc k)))) env benv old ?args \<lparr>tk_client = Await_data, tk_conn = c', tk_server = s', to_server = [], to_client = []\<rparr>"
    using client_step [of received "Await_ack 3" ?args Await_data "[]"] api_read_counts(1) [of fd buf nb]
    by (simp add: received_def client_limit_def send_all_def del: talk_run.simps)
  also have "\<dots> = Some \<lparr>tk_client = Await_data, tk_conn = c', tk_server = s', to_server = [], to_client = []\<rparr>"
    by (simp add: talk_over_def)
  finally show ?thesis using c' by simp
qed

definition failing_env :: fs_env where
  "failing_env = demo_env\<lparr>env_read := (\<lambda>fd n. (- 1, []))\<rparr>"

theorem failed_read_hangs_witness:
  "\<exists>t. call_execute failing_env no_bck no_stat (argcalls (Api_read 5 ''dummy'' 10)) fresh_conn (global_init []) = Some t \<and>
     tk_client t = Await_data \<and> to_client t = [] \<and> phase (tk_conn t) = Acking (- 1) \<and> to_server t = []"
proof -
  have c: "conn_ok fresh_conn" "phase fresh_conn = Receiving 0" using conn_reach_ok [OF fresh_conn_reach] by (simp_all add: fresh_conn_def conn_init_def)
  have a: "list_all sendable (argcalls (Api_read 5 ''dummy'' 10))" "s32 5 = 5" "s32 10 = 10" by code_simp+
  have "on_read failing_env (s32 5) (s32 10) (global_init []) = Some ((- 1, []), emit (Tr_read 5 10) (global_init []))"
    unfolding a(2,3) by (simp add: on_read_def do_read_def failing_env_def)
  from failed_read_hangs [OF c a(1) this] show ?thesis unfolding a(2,3) by simp
qed

section \<open>Empty messages\<close>

lemma server_takes_more:
  assumes "conn_ok c" and "phase c = Receiving i" and "sendable m" and "\<nexists>r dat. ph = Returned r dat"
    and more: "\<And>c'. take_message c m = Some c' \<Longrightarrow> i + 1 < no_of_arg c'"
  shows "\<exists>c'. take_message c m = Some c' \<and> conn_ok c' \<and> phase c' = Receiving (i + 1) \<and>
     talk_run (Suc k) env benv old args \<lparr>tk_client = ph, tk_conn = c, tk_server = s, to_server = [m], to_client = []\<rparr> =
     talk_run k env benv old args \<lparr>tk_client = ph, tk_conn = c', tk_server = s, to_server = [], to_client = [received]\<rparr>"
proof -
  obtain c' where c': "take_message c m = Some c'" "conn_ok c'" "phase c' = (if i + 1 < no_of_arg c' then Receiving (i + 1) else Complete)"
    using take_message_spec [OF assms(1,2), of m] by blast
  then have p: "phase c' = Receiving (i + 1)" using more by simp
  have m: "m \<noteq> []" "length m \<le> 10249" using assms(3) by (simp_all add: sendable_def)
  show ?thesis using c'(1,2) p server_step [OF assms(2) m assms(4), of k env benv old args s "[]"] server_takes [OF assms(1,2) c'(1)]
    by (simp add: send_all_def received_def del: talk_run.simps)
qed

lemma gather_to:
  assumes n: "client_count (args ! 0) = Some n" "arg_count (args ! 0) = Some n" and j: "j < n" and clean: "\<And>l. l < j \<Longrightarrow> sendable (args ! l)"
  shows "conn_ok c \<Longrightarrow> phase c = Receiving i \<Longrightarrow> i < j \<Longrightarrow> (i \<noteq> 0 \<Longrightarrow> no_of_arg c = n) \<Longrightarrow>
     \<exists>c'. conn_ok c' \<and> phase c' = Receiving j \<and>
       talk_run (2 * (j - i) + k) env benv old args \<lparr>tk_client = Await_ack i, tk_conn = c, tk_server = s, to_server = [args ! i], to_client = []\<rparr> =
       talk_run k env benv old args \<lparr>tk_client = Await_ack j, tk_conn = c', tk_server = s, to_server = send_all [] [args ! j], to_client = []\<rparr>"
proof (induction "j - i" arbitrary: i c)
  case (Suc d)
  have m: "sendable (args ! i)" "c_string (args ! i) = args ! i" using clean [OF Suc.prems(3)] c_string_clean by (auto simp: sendable_def)
  have no: "no_of_arg c1 = n" if "take_message c (args ! i) = Some c1" for c1
    using take_message_spec [OF Suc.prems(1,2), of "args ! i"] that m(2) Suc.prems(4) n(2) by (cases "i = 0") auto
  obtain c1 where c1: "take_message c (args ! i) = Some c1" "conn_ok c1" "phase c1 = Receiving (i + 1)"
    and run: "talk_run (Suc (Suc (2 * (j - (i + 1)) + k))) env benv old args \<lparr>tk_client = Await_ack i, tk_conn = c, tk_server = s, to_server = [args ! i], to_client = []\<rparr> =
     talk_run (Suc (2 * (j - (i + 1)) + k)) env benv old args \<lparr>tk_client = Await_ack i, tk_conn = c1, tk_server = s, to_server = [], to_client = [received]\<rparr>"
    using server_takes_more [OF Suc.prems(1,2) m(1), of "Await_ack i" "Suc (2 * (j - (i + 1)) + k)" env benv old args s] no j Suc.prems(3) by fastforce
  have step: "talk_run (Suc (2 * (j - (i + 1)) + k)) env benv old args \<lparr>tk_client = Await_ack i, tk_conn = c1, tk_server = s, to_server = [], to_client = [received]\<rparr> =
     talk_run (2 * (j - (i + 1)) + k) env benv old args \<lparr>tk_client = Await_ack (i + 1), tk_conn = c1, tk_server = s, to_server = send_all [] [args ! (i + 1)], to_client = []\<rparr>"
    using client_step [of received "Await_ack i" args "Await_ack (i + 1)" "[args ! (i + 1)]"] n(1) j Suc.prems(3)
    by (simp add: received_def client_limit_def del: talk_run.simps)
  have fuel: "2 * (j - i) + k = Suc (Suc (2 * (j - (i + 1)) + k))" using Suc.prems(3) by simp
  show ?case
  proof (cases "i + 1 < j")
    case True
    have d: "d = j - (i + 1)" using Suc.hyps(2) by simp
    have q: "send_all [] [args ! (i + 1)] = [args ! (i + 1)]" using clean [OF True] by (simp add: send_all_def sendable_def)
    show ?thesis using Suc.hyps(1) [OF d c1(2,3) True] no [OF c1(1)] unfolding fuel run step q by blast
  next
    case False
    then have "i + 1 = j" using Suc.prems(3) by simp
    then show ?thesis using c1(2,3) unfolding fuel run step by auto
  qed
qed simp

text \<open>C34: An empty argument hangs the client and the connection for ever: sending no bytes sends nothing, so
  the server never answers.  This holds for every call, if the arguments before are as they should
  be; a write of a buffer that begins with a zero byte, or of no bytes, is such a call.\<close>

theorem empty_argument_hangs:
  assumes "conn_ok c" and "phase c = Receiving 0" and "client_count (args ! 0) = Some n" and "arg_count (args ! 0) = Some n"
    and "0 < j" and "j < n" and "\<forall>l < j. sendable (args ! l)" and "args ! j = []"
  shows "\<exists>t. call_execute env benv old args c s = Some t \<and> tk_client t = Await_ack j \<and> to_client t = [] \<and>
     phase (tk_conn t) = Receiving j \<and> to_server t = [] \<and> tk_server t = s"
proof -
  have "n \<le> 4" using arg_count_bound [OF assms(4)] by simp
  then have fuel: "2 * (j - 0) + Suc (19 - 2 * j) = 20" using assms(6) by simp
  obtain c' where c': "phase c' = Receiving j"
    and run: "talk_run 20 env benv old args \<lparr>tk_client = Await_ack 0, tk_conn = c, tk_server = s, to_server = [args ! 0], to_client = []\<rparr> =
       talk_run (Suc (19 - 2 * j)) env benv old args \<lparr>tk_client = Await_ack j, tk_conn = c', tk_server = s, to_server = send_all [] [args ! j], to_client = []\<rparr>"
    using gather_to [OF assms(3,4,6) _ assms(1,2,5), of "Suc (19 - 2 * j)" env benv old s] assms(7) unfolding fuel by blast
  have "sendable (args ! 0)" using assms(5,7) by simp
  then have "call_execute env benv old args c s = Some \<lparr>tk_client = Await_ack j, tk_conn = c', tk_server = s, to_server = [], to_client = []\<rparr>"
    using run assms(8) by (simp add: call_execute_def call_start_def send_all_def sendable_def talk_over_def)
  then show ?thesis using c' by simp
qed

theorem empty_argument_hangs_witness:
  "\<exists>t. call_execute demo_env no_bck no_stat (argcalls (Api_write 5 [CHR 0x00] 1)) fresh_conn (global_init []) = Some t \<and> tk_client t = Await_ack 2 \<and> to_client t = [] \<and>
     phase (tk_conn t) = Receiving 2 \<and> to_server t = [] \<and> tk_server t = global_init []"
proof -
  let ?args = "argcalls (Api_write 5 [CHR 0x00] 1)"
  have c: "conn_ok fresh_conn" "phase fresh_conn = Receiving 0" using conn_reach_ok [OF fresh_conn_reach] by (simp_all add: fresh_conn_def conn_init_def)
  have a: "client_count (?args ! 0) = Some 4" "arg_count (?args ! 0) = Some 4" "?args ! 2 = []" "sendable (?args ! 0) \<and> sendable (?args ! 1)" by code_simp+
  have "\<forall>l < 2. sendable (?args ! l)" using a(4) by (auto simp: numeral_2_eq_2 less_Suc_eq simp del: argcalls.simps)
  from empty_argument_hangs [OF c a(1,2) _ _ this a(3), of demo_env no_bck no_stat "global_init []"] show ?thesis by simp
qed


section \<open>Stat\<close>

lemma decode_unknown: "incall c ! 0 = Some cmd \<Longrightarrow> arg_count cmd = None \<Longrightarrow> decode c = Some No_call"
proof -
  assume c: "incall c ! 0 = Some cmd" and u: "arg_count cmd = None"
  have "cmd \<noteq> x" if "arg_count x \<noteq> None" for x using u that by blast
  then show ?thesis unfolding decode_def c Option.bind.simps by (simp add: arg_count_def)
qed

text \<open>The last message of a name that is no call: it is answered, and nothing is done.\<close>

lemma server_ignores:
  assumes "conn_ok c" and "phase c = Receiving i" and "i + 1 = no_of_arg c" and "i \<noteq> 0" and "incall c ! 0 = Some cmd" and "arg_count cmd = None" and "sendable m"
    and "\<nexists>r dat. ph = Returned r dat"
  shows "\<exists>c'. conn_ok c' \<and> phase c' = Receiving 0 \<and> no_of_arg c' = no_of_arg c \<and>
     talk_run (Suc k) env benv old args \<lparr>tk_client = ph, tk_conn = c, tk_server = s, to_server = [m], to_client = []\<rparr> =
     talk_run k env benv old args \<lparr>tk_client = ph, tk_conn = c', tk_server = s, to_server = [], to_client = [received]\<rparr>"
proof -
  obtain c1 where c1: "take_message c m = Some c1" "conn_ok c1" "\<forall>j < i. incall c1 ! j = incall c ! j" "no_of_arg c1 = no_of_arg c"
      "phase c1 = (if i + 1 < no_of_arg c1 then Receiving (i + 1) else Complete)"
    using take_message_spec [OF assms(1,2), of m] assms(4) by auto
  then have p: "phase c1 = Complete" "incall c1 ! 0 = Some cmd" using assms(3,4,5) by simp_all
  have m: "m \<noteq> []" "length m \<le> 10249" using assms(7) by (simp_all add: sendable_def)
  have "serve env benv old c1 s = Some (c1\<lparr>phase := Receiving 0\<rparr>, [], s)" using decode_unknown [OF p(2) assms(6)] by (simp add: serve_def)
  then have run: "talk_run (Suc k) env benv old args \<lparr>tk_client = ph, tk_conn = c, tk_server = s, to_server = [m], to_client = []\<rparr> =
     talk_run k env benv old args \<lparr>tk_client = ph, tk_conn = c1\<lparr>phase := Receiving 0\<rparr>, tk_server = s, to_server = [], to_client = [received]\<rparr>"
    using server_step [OF assms(2) m assms(8), of k env benv old args s "[]"] server_takes [OF assms(1,2) c1(1)] p(1)
    by (simp add: send_all_def received_def del: talk_run.simps)
  have "cells_ok c1 (no_of_arg c1)" using c1(2) p(1) by (simp add: conn_ok_def)
  moreover have "cmd \<noteq> ''quit''" using assms(6) by (auto simp: arg_count_def)
  ultimately have "conn_ok (c1\<lparr>phase := Receiving 0\<rparr>)" using conn_ok_phase p(2) by simp
  then show ?thesis using run c1(4) by (intro exI [of _ "c1\<lparr>phase := Receiving 0\<rparr>"]) simp
qed

text \<open>The first message of a name that is no call, after one with two messages: the thread waits for an argument.\<close>

lemma server_expects:
  assumes "conn_ok c" and "phase c = Receiving 0" and "no_of_arg c = 2" and "arg_count m = None" and "sendable m" and "\<nexists>r dat. ph = Returned r dat"
  shows "\<exists>c'. conn_ok c' \<and> phase c' = Receiving 1 \<and> no_of_arg c' = 2 \<and> incall c' ! 0 = Some m \<and>
     talk_run (Suc k) env benv old args \<lparr>tk_client = ph, tk_conn = c, tk_server = s, to_server = [m], to_client = []\<rparr> =
     talk_run k env benv old args \<lparr>tk_client = ph, tk_conn = c', tk_server = s, to_server = [], to_client = [received]\<rparr>"
proof -
  have m: "c_string m = m" using assms(5) c_string_clean by (simp add: sendable_def)
  have no: "no_of_arg c' = 2" "incall c' ! 0 = Some m" if "take_message c m = Some c'" for c'
    using take_message_spec [OF assms(1,2), of m] that assms(3,4) m by auto
  have "0 + 1 < no_of_arg c'" if "take_message c m = Some c'" for c' using no(1) [OF that] by simp
  from server_takes_more [OF assms(1,2,5,6) this, of k env benv old args s] show ?thesis using no by auto
qed

text \<open>An acknowledgement, after which the client sends its next message, if there is one.\<close>

lemma client_acks:
  assumes "client_count (args ! 0) = Some n" and "args ! 0 \<noteq> ''read''" and "m \<noteq> []" and "length m \<le> 10249" and "i + 1 < n \<Longrightarrow> args ! (i + 1) \<noteq> []"
  shows "talk_run (Suc k) env benv old args \<lparr>tk_client = Await_ack i, tk_conn = c, tk_server = s, to_server = [], to_client = m # p\<rparr> =
     talk_run k env benv old args (if i + 1 < n
       then \<lparr>tk_client = Await_ack (i + 1), tk_conn = c, tk_server = s, to_server = [args ! (i + 1)], to_client = p\<rparr>
       else \<lparr>tk_client = Await_result [], tk_conn = c, tk_server = s, to_server = [], to_client = p\<rparr>)"
  using client_step [OF assms(3), of "Await_ack i" args _ _ k env benv old c s "[]" p] assms
  by (simp add: client_limit_def send_all_def del: talk_run.simps)

lemma stat_reply:
  assumes ok: "conn_ok c" "phase c = Receiving 0" and path: "sendable path" and d: "start_call env (Stat path) (cn_txnid c) s = Some (Done r, s')"
  shows "\<exists>c'. conn_ok c' \<and> phase c' = Receiving 1 \<and> no_of_arg c' = 2 \<and> incall c' ! 0 = Some ''sesh'' \<and>
     call_execute env benv old (argcalls (Api_lstat path)) c s =
     Some \<lparr>tk_client = Returned 0 [], tk_conn = c', tk_server = s', to_server = [], to_client = []\<rparr>"
proof -
  let ?a = "argcalls (Api_lstat path)"
  have word: "sendable ''stat''" "sendable ''sesh''" "arg_count ''sesh'' = None" "arg_count ''stat'' = Some 2" "client_count ''stat'' = Some 3"
    "atoi (c_string received) = 0" "received \<noteq> [] \<and> length received \<le> 255" by code_simp+
  have m: "path \<noteq> []" "length path \<le> 10249" "c_string path = path" using path c_string_clean by (auto simp: sendable_def)
  have st: "c_string ''stat'' = ''stat''" by code_simp
  obtain c1 where c1: "take_message c ''stat'' = Some c1" "conn_ok c1" "phase c1 = Receiving 1" "no_of_arg c1 = 2" "incall c1 ! 0 = Some ''stat''" "cn_txnid c1 = cn_txnid c"
    using take_message_spec [OF ok, of "''stat''"] word(4) by (auto simp: st)
  obtain c2 where c2: "take_message c1 path = Some c2" "conn_ok c2" "phase c2 = Complete" "no_of_arg c2 = 2" "incall c2 ! 0 = Some ''stat''" "incall c2 ! 1 = Some path"
      "cn_txnid c2 = cn_txnid c"
    using take_message_spec [OF c1(2,3), of path] c1(4-6) m(3) by auto
  let ?c = "(reply_text (Stat path) r c2)\<lparr>phase := Receiving 0\<rparr>" and ?t = "str_buf (reply_text (Stat path) r c2)"
  have cells: "cells_ok c2 (no_of_arg c2)" "incall c2 ! 0 \<noteq> Some ''quit''" using c2(2,3,5) by (simp_all add: conn_ok_def)
  have c3: "conn_ok ?c" "phase ?c = Receiving 0" "no_of_arg ?c = 2" using conn_ok_text(2) [OF cells] c2(4) by simp_all
  have len: "length ?t = 12" using cells by (simp add: cells_ok_def str_size_def)
  then have ne: "?t \<noteq> []" "length ?t \<le> 10249" by auto
  have "decode c2 = Some (Client_call (Stat path))" unfolding decode_def c2(5,6) Option.bind.simps by simp
  then have serve: "serve env benv old c2 s = Some (?c, [?t], s')" using d c2(7) by (simp add: serve_def finish_call_def Let_def)
  define k :: nat where "k = 12"
  have r: "received \<noteq> []" "length received \<le> 10249" using word(7) by simp_all
  have cc: "client_count (?a ! 0) = Some 3" "?a ! 0 \<noteq> ''read''" using word(5) by simp_all
  have "call_execute env benv old ?a c s = talk_run (Suc (Suc (Suc (Suc (Suc (Suc (Suc (Suc k)))))))) env benv old ?a
      \<lparr>tk_client = Await_ack 0, tk_conn = c, tk_server = s, to_server = [''stat''], to_client = []\<rparr>"
    by (simp add: call_execute_def call_start_def send_all_def k_def del: talk_run.simps)
  also have "\<dots> = talk_run (Suc (Suc (Suc (Suc (Suc (Suc (Suc k))))))) env benv old ?a
      \<lparr>tk_client = Await_ack 0, tk_conn = c1, tk_server = s, to_server = [], to_client = [received]\<rparr>"
    using server_step [OF ok(2), of "''stat''" "Await_ack 0"] server_takes [OF ok c1(1)] c1(3) r(1) by (simp add: send_all_def del: talk_run.simps)
  also have "\<dots> = talk_run (Suc (Suc (Suc (Suc (Suc (Suc k)))))) env benv old ?a
      \<lparr>tk_client = Await_ack 1, tk_conn = c1, tk_server = s, to_server = [path], to_client = []\<rparr>"
    using client_acks [OF cc r, of 0] m(1) by (simp del: talk_run.simps)
  also have "\<dots> = talk_run (Suc (Suc (Suc (Suc (Suc k))))) env benv old ?a
      \<lparr>tk_client = Await_ack 1, tk_conn = ?c, tk_server = s', to_server = [], to_client = [received, ?t]\<rparr>"
    using server_step [OF c1(3) m(1,2), of "Await_ack 1"] server_takes [OF c1(2,3) c2(1)] c2(3) serve r(1) ne(1) by (simp add: send_all_def del: talk_run.simps)
  also have "\<dots> = talk_run (Suc (Suc (Suc (Suc k)))) env benv old ?a
      \<lparr>tk_client = Await_ack 2, tk_conn = ?c, tk_server = s', to_server = [''sesh''], to_client = [?t]\<rparr>"
    using client_acks [OF cc r, of 1] by (simp add: numeral_2_eq_2 del: talk_run.simps)
  also have "\<dots> = talk_run (Suc (Suc (Suc k))) env benv old ?a
      \<lparr>tk_client = Await_result [], tk_conn = ?c, tk_server = s', to_server = [''sesh''], to_client = []\<rparr>"
    using client_step [OF ne(1), of "Await_ack 2" ?a "Await_result []" "[]"] ne(2) cc by (simp add: client_limit_def send_all_def del: talk_run.simps)
  finally have run: "call_execute env benv old ?a c s = talk_run (Suc (Suc (Suc k))) env benv old ?a
      \<lparr>tk_client = Await_result [], tk_conn = ?c, tk_server = s', to_server = [''sesh''], to_client = []\<rparr>" .
  obtain c4 where c4: "conn_ok c4" "phase c4 = Receiving 1" "no_of_arg c4 = 2" "incall c4 ! 0 = Some ''sesh''"
    and r4: "talk_run (Suc (Suc (Suc k))) env benv old ?a \<lparr>tk_client = Await_result [], tk_conn = ?c, tk_server = s', to_server = [''sesh''], to_client = []\<rparr> =
       talk_run (Suc (Suc k)) env benv old ?a \<lparr>tk_client = Await_result [], tk_conn = c4, tk_server = s', to_server = [], to_client = [received]\<rparr>"
    using server_expects [OF c3 word(3,2), of "Await_result []" "Suc (Suc k)" env benv old ?a s'] by blast
  have "talk_run (Suc (Suc k)) env benv old ?a \<lparr>tk_client = Await_result [], tk_conn = c4, tk_server = s', to_server = [], to_client = [received]\<rparr> =
      talk_run (Suc k) env benv old ?a \<lparr>tk_client = Returned 0 [], tk_conn = c4, tk_server = s', to_server = [], to_client = []\<rparr>"
    using client_step [OF r(1), of "Await_result []" ?a "Returned 0 []" "[]"] word(6,7) by (simp add: client_limit_def send_all_def del: talk_run.simps)
  also have "\<dots> = Some \<lparr>tk_client = Returned 0 [], tk_conn = c4, tk_server = s', to_server = [], to_client = []\<rparr>"
    by (simp add: talk_over_def)
  finally show ?thesis using run r4 c4 by auto
qed

lemma open_out_of_step:
  assumes ok: "conn_ok c" "phase c = Receiving 1" "no_of_arg c = 2" "incall c ! 0 = Some ''sesh''" and path: "sendable path" "arg_count path = None"
  shows "\<exists>c'. phase c' = Receiving 0 \<and> call_execute env benv old (argcalls (Api_open path flags)) c s =
     Some \<lparr>tk_client = Await_result [], tk_conn = c', tk_server = s, to_server = [], to_client = []\<rparr>"
proof -
  let ?a = "argcalls (Api_open path flags)" and ?f = "show_int (s32 flags)"
  have word: "sendable ''open''" "arg_count ''sesh'' = None" "client_count ''open'' = Some 3" "received \<noteq> [] \<and> length received \<le> 10249" by code_simp+
  have f: "sendable ?f" by (intro sendable_show_int) simp
  have m: "path \<noteq> []" "?f \<noteq> []" using path(1) f by (simp_all add: sendable_def)
  have cc: "client_count (?a ! 0) = Some 3" "?a ! 0 \<noteq> ''read''" using word(3) by simp_all
  have r: "received \<noteq> []" "length received \<le> 10249" using word(4) by simp_all
  define k :: nat where "k = 13"
  obtain c1 where c1: "conn_ok c1" "phase c1 = Receiving 0" "no_of_arg c1 = 2"
    and r1: "talk_run (Suc (Suc (Suc (Suc (Suc (Suc (Suc k))))))) env benv old ?a \<lparr>tk_client = Await_ack 0, tk_conn = c, tk_server = s, to_server = [''open''], to_client = []\<rparr> =
       talk_run (Suc (Suc (Suc (Suc (Suc (Suc k)))))) env benv old ?a \<lparr>tk_client = Await_ack 0, tk_conn = c1, tk_server = s, to_server = [], to_client = [received]\<rparr>"
    using server_ignores [OF ok(1,2) _ _ ok(4) word(2,1), of "Await_ack 0" "Suc (Suc (Suc (Suc (Suc (Suc k)))))" env benv old ?a s] ok(3) by auto
  obtain c2 where c2: "conn_ok c2" "phase c2 = Receiving 1" "no_of_arg c2 = 2" "incall c2 ! 0 = Some path"
    and r2: "talk_run (Suc (Suc (Suc (Suc (Suc k))))) env benv old ?a \<lparr>tk_client = Await_ack 1, tk_conn = c1, tk_server = s, to_server = [path], to_client = []\<rparr> =
       talk_run (Suc (Suc (Suc (Suc k)))) env benv old ?a \<lparr>tk_client = Await_ack 1, tk_conn = c2, tk_server = s, to_server = [], to_client = [received]\<rparr>"
    using server_expects [OF c1 path(2,1), of "Await_ack 1" "Suc (Suc (Suc (Suc k)))" env benv old ?a s] by auto
  obtain c3 where c3: "phase c3 = Receiving 0"
    and r3: "talk_run (Suc (Suc (Suc k))) env benv old ?a \<lparr>tk_client = Await_ack 2, tk_conn = c2, tk_server = s, to_server = [?f], to_client = []\<rparr> =
       talk_run (Suc (Suc k)) env benv old ?a \<lparr>tk_client = Await_ack 2, tk_conn = c3, tk_server = s, to_server = [], to_client = [received]\<rparr>"
    using server_ignores [OF c2(1,2) _ _ c2(4) path(2) f, of "Await_ack 2" "Suc (Suc k)" env benv old ?a s] c2(3) by auto
  have "call_execute env benv old ?a c s = talk_run (Suc (Suc (Suc (Suc (Suc (Suc (Suc k))))))) env benv old ?a
      \<lparr>tk_client = Await_ack 0, tk_conn = c, tk_server = s, to_server = [''open''], to_client = []\<rparr>"
    by (simp add: call_execute_def call_start_def send_all_def k_def del: talk_run.simps)
  also note r1
  also have "talk_run (Suc (Suc (Suc (Suc (Suc (Suc k)))))) env benv old ?a \<lparr>tk_client = Await_ack 0, tk_conn = c1, tk_server = s, to_server = [], to_client = [received]\<rparr> =
      talk_run (Suc (Suc (Suc (Suc (Suc k))))) env benv old ?a \<lparr>tk_client = Await_ack 1, tk_conn = c1, tk_server = s, to_server = [path], to_client = []\<rparr>"
    using client_acks [OF cc r, of 0] m(1) by (simp del: talk_run.simps)
  also note r2
  also have "talk_run (Suc (Suc (Suc (Suc k)))) env benv old ?a \<lparr>tk_client = Await_ack 1, tk_conn = c2, tk_server = s, to_server = [], to_client = [received]\<rparr> =
      talk_run (Suc (Suc (Suc k))) env benv old ?a \<lparr>tk_client = Await_ack 2, tk_conn = c2, tk_server = s, to_server = [?f], to_client = []\<rparr>"
    using client_acks [OF cc r, of 1] m(2) by (simp add: numeral_2_eq_2 printed_s32 del: talk_run.simps)
  also note r3
  also have "talk_run (Suc (Suc k)) env benv old ?a \<lparr>tk_client = Await_ack 2, tk_conn = c3, tk_server = s, to_server = [], to_client = [received]\<rparr> =
      talk_run (Suc k) env benv old ?a \<lparr>tk_client = Await_result [], tk_conn = c3, tk_server = s, to_server = [], to_client = []\<rparr>"
    using client_acks [OF cc r, of 2] by (simp del: talk_run.simps)
  also have "\<dots> = Some \<lparr>tk_client = Await_result [], tk_conn = c3, tk_server = s, to_server = [], to_client = []\<rparr>"
    by (simp add: talk_over_def)
  finally show ?thesis using c3 by blast
qed

text \<open>C31: A call of \<open>stat\<close> puts client and server out of step.  The client sends three messages, the server
  takes two; so the client takes the reply for an acknowledgement and the acknowledgement of its third
  message for the reply: it always returns 0, whatever the server answered.  The third message is left
  as the name of a call, and a call of \<open>open\<close> after it hangs both sides for ever, without being done.\<close>

theorem stat_out_of_step:
  assumes "conn_ok c" and "phase c = Receiving 0" and "sendable path" and "start_call env (Stat path) (cn_txnid c) s = Some (Done r, s')"
    and "sendable path'" and "arg_count path' = None"
  shows "\<exists>t t'. call_execute env benv old (argcalls (Api_lstat path)) c s = Some t \<and> tk_client t = Returned 0 [] \<and> tk_server t = s' \<and>
     phase (tk_conn t) = Receiving 1 \<and> incall (tk_conn t) ! 0 = Some ''sesh'' \<and>
     call_execute env benv old (argcalls (Api_open path' flags)) (tk_conn t) s' = Some t' \<and>
     tk_client t' = Await_result [] \<and> to_client t' = [] \<and> phase (tk_conn t') = Receiving 0 \<and> to_server t' = [] \<and> tk_server t' = s'"
proof -
  obtain c' where c': "conn_ok c'" "phase c' = Receiving 1" "no_of_arg c' = 2" "incall c' ! 0 = Some ''sesh''"
      "call_execute env benv old (argcalls (Api_lstat path)) c s = Some \<lparr>tk_client = Returned 0 [], tk_conn = c', tk_server = s', to_server = [], to_client = []\<rparr>"
    using stat_reply [OF assms(1-4), of benv old] by blast
  obtain c2 where "phase c2 = Receiving 0" "call_execute env benv old (argcalls (Api_open path' flags)) c' s' =
     Some \<lparr>tk_client = Await_result [], tk_conn = c2, tk_server = s', to_server = [], to_client = []\<rparr>"
    using open_out_of_step [OF c'(1-4) assms(5,6), of env benv old flags s'] by blast
  then show ?thesis using c'(2,4,5) by (intro exI conjI) (assumption | simp)+
qed

theorem stat_out_of_step_witness:
  "\<exists>S s' t t'. begin_step 1 (sys_init []) = Some S \<and> start_call demo_env (Stat ''/f'') 1 (srv S) = Some (Done 0, s') \<and>
     call_execute demo_env no_bck no_stat (argcalls (Api_lstat ''/f'')) (fresh_conn\<lparr>cn_txnid := 1\<rparr>) (srv S) = Some t \<and> tk_client t = Returned 0 [] \<and>
     call_execute demo_env no_bck no_stat (argcalls (Api_open ''/g'' 2)) (tk_conn t) s' = Some t' \<and> tk_client t' = Await_result [] \<and> to_client t' = [] \<and> to_server t' = []"
proof -
  have "map_option (\<lambda>S. map_option fst (start_call demo_env (Stat ''/f'') 1 (srv S))) (begin_step 1 (sys_init [])) = Some (Some (Done 0))" by code_simp
  then obtain S s' where S: "begin_step 1 (sys_init []) = Some S" "start_call demo_env (Stat ''/f'') 1 (srv S) = Some (Done 0, s')" by auto
  have a: "sendable ''/f''" "sendable ''/g''" "arg_count ''/g'' = None" by code_simp+
  have d: "start_call demo_env (Stat ''/f'') (cn_txnid (fresh_conn\<lparr>cn_txnid := 1\<rparr>)) (srv S) = Some (Done 0, s')" using S(2) by simp
  show ?thesis using stat_out_of_step [OF fresh_conn_ok a(1) d a(2,3), of no_bck no_stat 2] S by blast
qed

section \<open>The end of a session\<close>

text \<open>\<open>quit\<close> answers with the number of the transaction and leaves the loop.\<close>

lemma quit_result:
  assumes ok: "conn_ok c" "phase c = Receiving 0"
  shows "\<exists>c'. phase c' = Closed \<and> call_execute env benv old (argcalls Api_quit) c s =
     Some \<lparr>tk_client = Returned (s32 (cn_txnid c)) [], tk_conn = c', tk_server = s, to_server = [], to_client = []\<rparr>"
proof -
  let ?a = "argcalls Api_quit"
  have word: "c_string ''quit'' = ''quit''" "arg_count ''quit'' = Some 1" "client_count ''quit'' = Some 1" "received \<noteq> [] \<and> length received \<le> 10249" by code_simp+
  obtain c1 where c1: "take_message c ''quit'' = Some c1" "conn_ok c1" "phase c1 = Complete" "incall c1 ! 0 = Some ''quit''" "cn_txnid c1 = cn_txnid c"
    using take_message_spec [OF ok, of "''quit''"] word(2) by (auto simp: word(1))
  let ?p = "print_str (show_int (s32 (cn_txnid c1))) c1"
  let ?c = "?p\<lparr>phase := Closed\<rparr>" and ?t = "str_buf ?p"
  have "cells_ok c1 (no_of_arg c1)" using c1(2,3) by (simp add: conn_ok_def)
  then have len: "length ?t = 12" by (simp add: cells_ok_def str_size_def)
  then have ne: "?t \<noteq> []" by auto
  have "decode c1 = Some Quit" unfolding decode_def c1(4) Option.bind.simps by simp
  then have serve: "serve env benv old c1 s = Some (?c, [?t], s)" by (simp add: serve_def Let_def)
  have r: "received \<noteq> []" "length received \<le> 10249" using word(4) by simp_all
  have cc: "client_count (?a ! 0) = Some 1" "?a ! 0 \<noteq> ''read''" using word(3) by simp_all
  define k :: nat where "k = 16"
  have "call_execute env benv old ?a c s = talk_run (Suc (Suc (Suc (Suc k)))) env benv old ?a
      \<lparr>tk_client = Await_ack 0, tk_conn = c, tk_server = s, to_server = [''quit''], to_client = []\<rparr>"
    by (simp add: call_execute_def call_start_def send_all_def k_def del: talk_run.simps)
  also have "\<dots> = talk_run (Suc (Suc (Suc k))) env benv old ?a
      \<lparr>tk_client = Await_ack 0, tk_conn = ?c, tk_server = s, to_server = [], to_client = [received, ?t]\<rparr>"
    using server_step [OF ok(2), of "''quit''" "Await_ack 0"] server_takes [OF ok c1(1)] c1(3) serve r(1) ne by (simp add: send_all_def del: talk_run.simps)
  also have "\<dots> = talk_run (Suc (Suc k)) env benv old ?a \<lparr>tk_client = Await_result [], tk_conn = ?c, tk_server = s, to_server = [], to_client = [?t]\<rparr>"
    using client_acks [OF cc r, of 0] by (simp del: talk_run.simps)
  also have "\<dots> = talk_run (Suc k) env benv old ?a \<lparr>tk_client = Returned (s32 (cn_txnid c)) [], tk_conn = ?c, tk_server = s, to_server = [], to_client = []\<rparr>"
    using client_step [OF ne, of "Await_result []" ?a "Returned (s32 (cn_txnid c)) []" "[]"] len print_str_read [of "s32 (cn_txnid c1)" c1] c1(5)
    by (simp add: client_limit_def send_all_def del: talk_run.simps)
  also have "\<dots> = Some \<lparr>tk_client = Returned (s32 (cn_txnid c)) [], tk_conn = ?c, tk_server = s, to_server = [], to_client = []\<rparr>"
    by (simp add: talk_over_def)
  finally show ?thesis by (intro exI [of _ ?c]) simp
qed

text \<open>C27: Committing or aborting through the client's library ends both the transaction and the connection:
  the two calls it makes return with the number of the transaction, the server has done the commit or
  the abort and nothing else, and the thread of the connection has left its loop.\<close>

theorem session_ends:
  assumes "conn_ok c" and "phase c = Receiving 0"
    and "(fn = Txn_commit \<and> on_txn_commit (cn_txnid c) s = Some (r, s')) \<or> (fn = Txn_abort \<and> on_txn_abort (cn_txnid c) s = Some (r, s'))"
  shows "\<exists>as c'. lib_calls fn = Some as \<and>
     session env benv old as c s = Some ([Returned (s32 (cn_txnid c)) [], Returned (s32 (cn_txnid c)) []], c', s') \<and> phase c' = Closed"
proof -
  obtain a cl where a: "lib_calls fn = Some [a, Api_quit]" "call_of a = Some cl" "cl = Commit \<or> cl = Abort" "list_all sendable (argcalls a)"
      "start_call env cl (cn_txnid c) s = Some (Done r, s')"
  proof -
    have "list_all sendable (argcalls Api_txn_commit)" "list_all sendable (argcalls Api_txn_abort)" by code_simp+
    then show ?thesis using assms(3) that [of Api_txn_commit Commit] that [of Api_txn_abort Abort] by (auto simp: start_call_def)
  qed
  obtain t where t: "call_execute env benv old (argcalls a) c s = Some t" "call_done t (reply_value cl r c) c s'"
    using call_result [OF assms(1,2) a(2,4,5), of benv old] by blast
  have v: "reply_value cl r c = s32 (cn_txnid c)" using a(3) by (auto simp: reply_value_def)
  have c1: "conn_ok (tk_conn t)" "phase (tk_conn t) = Receiving 0" "cn_txnid (tk_conn t) = cn_txnid c" "tk_server t = s'" "tk_client t = Returned (s32 (cn_txnid c)) []"
    using t(2) v by (simp_all add: call_done_def)
  obtain c' where "phase c' = Closed" "call_execute env benv old (argcalls Api_quit) (tk_conn t) s' =
     Some \<lparr>tk_client = Returned (s32 (cn_txnid c)) [], tk_conn = c', tk_server = s', to_server = [], to_client = []\<rparr>"
    using quit_result [OF c1(1,2), of env benv old s'] c1(3) by auto
  then show ?thesis using a(1) t(1) c1(4,5) by (intro exI [of _ "[a, Api_quit]"] exI [of _ c']) (simp del: argcalls.simps)
qed

theorem session_ends_witness:
  "\<exists>S s' c'. begin_step 1 (sys_init []) = Some S \<and> held_list s' = [] \<and>
     session demo_env no_bck no_stat [Api_txn_commit, Api_quit] (fresh_conn\<lparr>cn_txnid := 1\<rparr>) (srv S) = Some ([Returned 1 [], Returned 1 []], c', s') \<and> phase c' = Closed"
proof -
  have "map_option (\<lambda>S. map_option (\<lambda>(r, s). held_list s) (on_txn_commit 1 (srv S))) (begin_step 1 (sys_init [])) = Some (Some [])" by code_simp
  then obtain S r s' where S: "begin_step 1 (sys_init []) = Some S" "on_txn_commit 1 (srv S) = Some (r, s')" "held_list s' = []" by auto
  have d: "(Txn_commit = Txn_commit \<and> on_txn_commit (cn_txnid (fresh_conn\<lparr>cn_txnid := 1\<rparr>)) (srv S) = Some (r, s')) \<or>
      (Txn_commit = Txn_abort \<and> on_txn_abort (cn_txnid (fresh_conn\<lparr>cn_txnid := 1\<rparr>)) (srv S) = Some (r, s'))" using S(2) by simp
  have one: "s32 1 = 1" by (simp add: s32_def)
  obtain as c' where "lib_calls Txn_commit = Some as" "phase c' = Closed"
      "session demo_env no_bck no_stat as (fresh_conn\<lparr>cn_txnid := 1\<rparr>) (srv S) = Some ([Returned (s32 (cn_txnid (fresh_conn\<lparr>cn_txnid := 1\<rparr>))) [], Returned (s32 (cn_txnid (fresh_conn\<lparr>cn_txnid := 1\<rparr>))) []], c', s')"
    using session_ends [OF fresh_conn_ok d, of demo_env no_bck no_stat] by blast
  then show ?thesis using S by (intro exI [of _ S] exI [of _ s'] exI [of _ c']) (simp add: one del: session.simps)
qed
end
