(* ===== verification/YaffsHandles.thy ===== *)
theory YaffsHandles
  imports Prelude
begin

text \<open>
  The open files of the YAFFS layer (yaffsfs.c): handles, file descriptors and open inodes, three tables
  of the same size that count references to one another, the operations on handles, and the loops
  with which a file is read and written in pieces.  What a file object is and how its bytes are read
  and written is YAFFS itself (yaffs_guts), which is not part of the repository: an object is a number,
  and its functions are arguments.  The size of the tables, \<open>YAFFSFS_N_HANDLES\<close>, is the length of
  the lists.  All operations run under the lock of the file system.

  A result \<open>None\<close> is an access outside an array or through NULL; inside it, \<open>None\<close> is NULL.
\<close>

section \<open>The tables\<close>

record yf_inode =
  in_count :: int
  in_obj :: "int option"

record yf_fd =
  fd_inode :: int
  fd_count :: int
  fd_position :: int
  fd_reading :: bool
  fd_writing :: bool
  fd_append :: bool
  fd_share_read :: bool
  fd_share_write :: bool

record yf_handle =
  h_fd :: int
  h_use :: int

record tables =
  inodes :: "yf_inode list"
  fds :: "yf_fd list"
  handles :: "yf_handle list"

abbreviation n_handles :: "tables \<Rightarrow> nat" where
  "n_handles T \<equiv> length (handles T)"

definition no_fd :: yf_fd where
  "no_fd = \<lparr>fd_inode = - 1, fd_count = 0, fd_position = 0, fd_reading = False, fd_writing = False, fd_append = False,
     fd_share_read = False, fd_share_write = False\<rparr>"

definition init_handles :: "nat \<Rightarrow> tables" where
  "init_handles n = \<lparr>inodes = replicate n \<lparr>in_count = 0, in_obj = None\<rparr>, fds = replicate n no_fd,
     handles = replicate n \<lparr>h_fd = - 1, h_use = 0\<rparr>\<rparr>"

section \<open>Looking up\<close>

text \<open>The test lets the number one past the end through.\<close>

definition handle_to_pointer :: "tables \<Rightarrow> int \<Rightarrow> nat option" where
  "handle_to_pointer T h = (if 0 \<le> h \<and> h \<le> int (n_handles T) then Some (nat h) else None)"

definition the_handle :: "tables \<Rightarrow> nat \<Rightarrow> yf_handle option" where
  "the_handle T i = (if i < n_handles T then Some (handles T ! i) else None)"

definition handle_to_file_des :: "tables \<Rightarrow> int \<Rightarrow> nat option option" where
  "handle_to_file_des T h =
     (case handle_to_pointer T h of
        None \<Rightarrow> Some None
      | Some i \<Rightarrow> do {
          p \<leftarrow> the_handle T i;
          Some (if 0 < h_use p \<and> 0 \<le> h_fd p \<and> h_fd p < int (n_handles T) then Some (nat (h_fd p)) else None) })"

definition handle_to_inode :: "tables \<Rightarrow> int \<Rightarrow> nat option option" where
  "handle_to_inode T h = do {
     f \<leftarrow> handle_to_file_des T h;
     Some (case f of
        None \<Rightarrow> None
      | Some k \<Rightarrow>
          if 0 < fd_count (fds T ! k) \<and> 0 \<le> fd_inode (fds T ! k) \<and> fd_inode (fds T ! k) < int (n_handles T)
          then Some (nat (fd_inode (fds T ! k))) else None) }"

definition handle_to_object :: "tables \<Rightarrow> int \<Rightarrow> int option option" where
  "handle_to_object T h = do { i \<leftarrow> handle_to_inode T h; Some (Option.bind i (\<lambda>j. in_obj (inodes T ! j))) }"

text \<open>The first entry of a table that is as it should be.\<close>

fun first_index :: "('a \<Rightarrow> bool) \<Rightarrow> 'a list \<Rightarrow> nat option" where
  "first_index P [] = None"
| "first_index P (x # xs) = (if P x then Some 0 else map_option Suc (first_index P xs))"

section \<open>Counting\<close>

definition get_inode_for :: "tables \<Rightarrow> int \<Rightarrow> (nat \<times> tables) option" where
  "get_inode_for T obj =
     (let found = (case first_index (\<lambda>i. in_obj i = Some obj) (inodes T) of
                     Some j \<Rightarrow> Some j | None \<Rightarrow> first_index (\<lambda>i. in_obj i = None) (inodes T)) in
      map_option (\<lambda>j.
        let i = inodes T ! j; n = (if in_obj i = None then 0 else in_count i) in
        (j, T\<lparr>inodes := (inodes T)[j := \<lparr>in_count = n + 1, in_obj = Some obj\<rparr>]\<rparr>)) found)"

definition put_inode :: "int \<Rightarrow> tables \<Rightarrow> tables option" where
  "put_inode j T =
     (if 0 \<le> j \<and> j < int (n_handles T) then
        (let i = inodes T ! nat j; n = in_count i - 1 in
         if n \<le> 0 then
           (if in_obj i = None then None else Some (T\<lparr>inodes := (inodes T)[nat j := \<lparr>in_count = 0, in_obj = None\<rparr>]\<rparr>))
         else Some (T\<lparr>inodes := (inodes T)[nat j := i\<lparr>in_count := n\<rparr>]\<rparr>))
      else Some T)"

definition new_handle :: "tables \<Rightarrow> (nat \<times> tables) option" where
  "new_handle T = map_option (\<lambda>i. (i, T\<lparr>handles := (handles T)[i := \<lparr>h_fd = - 1, h_use = 1\<rparr>]\<rparr>))
     (first_index (\<lambda>h. h_use h < 1) (handles T))"

definition new_handle_and_file_des :: "tables \<Rightarrow> int \<times> tables" where
  "new_handle_and_file_des T =
     (case new_handle T of
        None \<Rightarrow> (- 1, T)
      | Some (i, T) \<Rightarrow>
          (case first_index (\<lambda>f. fd_count f < 1) (fds T) of
             Some k \<Rightarrow> (int i, T\<lparr>fds := (fds T)[k := no_fd\<lparr>fd_count := 1\<rparr>], handles := (handles T)[i := (handles T ! i)\<lparr>h_fd := int k\<rparr>]\<rparr>)
           | None \<Rightarrow> (- 1, T\<lparr>handles := (handles T)[i := (handles T ! i)\<lparr>h_use := 0\<rparr>]\<rparr>)))"

definition get_handle :: "int \<Rightarrow> tables \<Rightarrow> (int \<times> tables) option" where
  "get_handle h T =
     (case handle_to_pointer T h of
        None \<Rightarrow> Some (- 1, T)
      | Some i \<Rightarrow> do {
          p \<leftarrow> the_handle T i;
          Some (if 0 < h_use p then (0, T\<lparr>handles := (handles T)[i := p\<lparr>h_use := h_use p + 1\<rparr>]\<rparr>) else (- 1, T)) })"

definition put_file_des :: "int \<Rightarrow> tables \<Rightarrow> tables option" where
  "put_file_des k T =
     (if 0 \<le> k \<and> k < int (n_handles T) then
        (let f = fds T ! nat k; n = fd_count f - 1; T = T\<lparr>fds := (fds T)[nat k := f\<lparr>fd_count := n\<rparr>]\<rparr> in
         if n < 1 \<and> 0 \<le> fd_inode f then do {
           T \<leftarrow> put_inode (fd_inode f) T;
           Some (T\<lparr>fds := (fds T)[nat k := (fds T ! nat k)\<lparr>fd_inode := - 1\<rparr>]\<rparr>) }
         else Some T)
      else Some T)"

definition put_handle :: "int \<Rightarrow> tables \<Rightarrow> tables option" where
  "put_handle h T =
     (case handle_to_pointer T h of
        None \<Rightarrow> Some T
      | Some i \<Rightarrow> do {
          p \<leftarrow> the_handle T i;
          if 0 < h_use p then
            let n = h_use p - 1; T = T\<lparr>handles := (handles T)[i := p\<lparr>h_use := n\<rparr>]\<rparr> in
            if n < 1 then do {
              T \<leftarrow> put_file_des (h_fd p) T;
              Some (T\<lparr>handles := (handles T)[i := (handles T ! i)\<lparr>h_fd := - 1\<rparr>]\<rparr>) }
            else Some T
          else Some T })"

section \<open>Operations\<close>

definition yaffs_dup :: "int \<Rightarrow> tables \<Rightarrow> (int \<times> tables) option" where
  "yaffs_dup h T = do {
     f \<leftarrow> handle_to_file_des T h;
     case f of
       None \<Rightarrow> Some (- 1, T)
     | Some k \<Rightarrow>
         (case new_handle T of
            None \<Rightarrow> Some (- 1, T)
          | Some (i, T') \<Rightarrow>
              Some (int i, T'\<lparr>handles := (handles T')[i := (handles T' ! i)\<lparr>h_fd := h_fd (handles T ! nat h)\<rparr>],
                fds := (fds T')[k := (fds T' ! k)\<lparr>fd_count := fd_count (fds T' ! k) + 1\<rparr>]\<rparr>)) }"

text \<open>The flags of a call of open, and what YAFFS says of a path and of an object: \<open>ye_find\<close> is the object
  behind the path and its links, none where it is neither file nor directory; \<open>ye_find_dir\<close> and
  \<open>ye_create\<close> are the directory of a new file and the file made there; \<open>ye_read_only\<close> tells of the device of an object.
  Emptying the object (\<open>O_TRUNC\<close>) changes no table and is left out.\<close>

record open_flags =
  of_read :: bool
  of_write :: bool
  of_append :: bool
  of_creat :: bool
  of_excl :: bool
  of_share_read :: bool
  of_share_write :: bool

record yaffs_env =
  ye_path_ok :: "cstring \<Rightarrow> bool"
  ye_find :: "cstring \<Rightarrow> int option"
  ye_is_dir :: "int \<Rightarrow> bool"
  ye_readable :: "int \<Rightarrow> bool"
  ye_writable :: "int \<Rightarrow> bool"
  ye_read_only :: "int \<Rightarrow> bool"
  ye_find_dir :: "cstring \<Rightarrow> int option"
  ye_create :: "int \<Rightarrow> cstring \<Rightarrow> int option"

definition open_on :: "tables \<Rightarrow> int \<Rightarrow> yf_fd \<Rightarrow> bool" where
  "open_on T obj f \<longleftrightarrow> 0 < fd_count f \<and> 0 \<le> fd_inode f \<and> in_obj (inodes T ! nat (fd_inode f)) = Some obj"

definition sharing_denied :: "open_flags \<Rightarrow> int \<Rightarrow> tables \<Rightarrow> bool" where
  "sharing_denied q obj T =
     (let fs = filter (open_on T obj) (fds T) in
        of_read q \<and> list_ex (\<lambda>f. \<not> fd_share_read f) fs \<or> \<not> of_share_read q \<and> list_ex fd_reading fs \<or>
        of_write q \<and> list_ex (\<lambda>f. \<not> fd_share_write f) fs \<or> \<not> of_share_write q \<and> list_ex fd_writing fs)"

definition open_denied :: "yaffs_env \<Rightarrow> open_flags \<Rightarrow> int \<Rightarrow> tables \<Rightarrow> bool" where
  "open_denied env q obj T \<longleftrightarrow>
     ye_is_dir env obj \<or> of_excl q \<and> of_creat q \<or> of_read q \<and> \<not> ye_readable env obj \<or>
     of_write q \<and> \<not> ye_writable env obj \<or> of_write q \<and> ye_read_only env obj \<or> sharing_denied q obj T"

definition open_object :: "yaffs_env \<Rightarrow> cstring \<Rightarrow> open_flags \<Rightarrow> tables \<Rightarrow> int option" where
  "open_object env path q T =
     (case ye_find env path of
        Some obj \<Rightarrow> if open_denied env q obj T then None else Some obj
      | None \<Rightarrow> (case ye_find_dir env path of
          None \<Rightarrow> None
        | Some dir \<Rightarrow> if of_creat q \<and> \<not> ye_read_only env dir then ye_create env dir path else None))"

definition yaffs_open_sharing :: "yaffs_env \<Rightarrow> cstring \<Rightarrow> open_flags \<Rightarrow> tables \<Rightarrow> (int \<times> tables) option" where
  "yaffs_open_sharing env path q T =
     (if \<not> ye_path_ok env path then Some (- 1, T)
      else case new_handle_and_file_des T of (h, T) \<Rightarrow>
        if h < 0 then Some (- 1, T)
        else do {
          f \<leftarrow> handle_to_file_des T h;
          case open_object env path q T of
            None \<Rightarrow> do { T \<leftarrow> put_handle h T; Some (- 1, T) }
          | Some obj \<Rightarrow> do {
              (j, T) \<leftarrow> get_inode_for T obj;
              k \<leftarrow> f;
              Some (h, T\<lparr>fds := (fds T)[k := (fds T ! k)\<lparr>fd_inode := int j, fd_reading := of_read q, fd_writing := of_write q,
                fd_append := of_append q, fd_position := 0, fd_share_read := of_share_read q, fd_share_write := of_share_write q\<rparr>]\<rparr>) } })"

definition yaffs_open :: "yaffs_env \<Rightarrow> cstring \<Rightarrow> open_flags \<Rightarrow> tables \<Rightarrow> (int \<times> tables) option" where
  "yaffs_open env path q T = yaffs_open_sharing env path (q\<lparr>of_share_read := True, of_share_write := True\<rparr>) T"

definition yaffs_close :: "int \<Rightarrow> tables \<Rightarrow> (int \<times> tables) option" where
  "yaffs_close h T = do {
     obj \<leftarrow> handle_to_object T h;
     case obj of None \<Rightarrow> Some (- 1, T) | Some _ \<Rightarrow> do { T \<leftarrow> put_handle h T; Some (0, T) } }"


section \<open>Counting entries\<close>

definition count_by :: "('a \<Rightarrow> bool) \<Rightarrow> 'a list \<Rightarrow> int" where
  "count_by P xs = int (length (filter P xs))"

lemma count_by_update:
  "i < length xs \<Longrightarrow> count_by P (xs[i := y]) = count_by P xs - of_bool (P (xs ! i)) + of_bool (P y)"
proof (induction xs arbitrary: i)
  case (Cons x xs)
  then show ?case by (cases i) (auto simp: count_by_def)
qed simp

lemma count_by_nonneg [simp]: "0 \<le> count_by P xs"
  by (simp add: count_by_def)

lemma count_by_pos: "i < length xs \<Longrightarrow> P (xs ! i) \<Longrightarrow> 0 < count_by P xs"
  using nth_mem [of i xs] by (auto simp: count_by_def filter_empty_conv)

lemma count_by_zero: "count_by P xs = 0 \<longleftrightarrow> (\<forall>i < length xs. \<not> P (xs ! i))"
proof -
  have "count_by P xs = 0 \<longleftrightarrow> (\<forall>x \<in> set xs. \<not> P x)" by (simp add: count_by_def filter_empty_conv)
  then show ?thesis by (simp add: all_set_conv_all_nth)
qed

lemma count_by_two:
  assumes "i < length xs" "j < length xs" "i \<noteq> j" "P (xs ! i)" "P (xs ! j)"
  shows "2 \<le> count_by P xs"
proof -
  have "{i, j} \<subseteq> {k. k < length xs \<and> P (xs ! k)}" using assms by auto
  then have "card {i, j} \<le> card {k. k < length xs \<and> P (xs ! k)}" by (intro card_mono) auto
  then show ?thesis using assms(3) by (simp add: count_by_def length_filter_conv_card)
qed

lemma first_index_Some: "first_index P xs = Some i \<Longrightarrow> i < length xs \<and> P (xs ! i)"
  by (induction xs arbitrary: i) (auto split: if_splits)

lemma first_index_None: "first_index P xs = None \<longleftrightarrow> (\<forall>i < length xs. \<not> P (xs ! i))"
  by (induction xs) (auto simp: nth_Cons split: nat.splits if_splits)

section \<open>The invariant\<close>

text \<open>How many live handles lead to a descriptor, and how many live descriptors to an inode.\<close>

definition fd_refs :: "yf_handle list \<Rightarrow> nat \<Rightarrow> int" where
  "fd_refs hs k = count_by (\<lambda>h. 0 < h_use h \<and> h_fd h = int k) hs"

definition inode_refs :: "yf_fd list \<Rightarrow> nat \<Rightarrow> int" where
  "inode_refs fs j = count_by (\<lambda>f. 0 < fd_count f \<and> fd_inode f = int j) fs"

lemma refs_update [simp]:
  "i < length hs \<Longrightarrow> fd_refs (hs[i := h]) k = fd_refs hs k - of_bool (0 < h_use (hs ! i) \<and> h_fd (hs ! i) = int k) + of_bool (0 < h_use h \<and> h_fd h = int k)"
  "l < length fs \<Longrightarrow> inode_refs (fs[l := f]) j = inode_refs fs j - of_bool (0 < fd_count (fs ! l) \<and> fd_inode (fs ! l) = int j) + of_bool (0 < fd_count f \<and> fd_inode f = int j)"
  by (simp_all add: fd_refs_def inode_refs_def count_by_update)

text \<open>No object is open in two places of the table.\<close>

definition objs_distinct :: "yf_inode list \<Rightarrow> bool" where
  "objs_distinct is \<longleftrightarrow> (\<forall>i < length is. \<forall>j < length is. in_obj (is ! i) \<noteq> None \<longrightarrow> in_obj (is ! i) = in_obj (is ! j) \<longrightarrow> i = j)"

lemma objs_distinct_free: "objs_distinct is \<Longrightarrow> in_obj x = None \<Longrightarrow> i < length is \<Longrightarrow> objs_distinct (is[i := x])"
  unfolding objs_distinct_def by (auto simp: nth_list_update simp del: not_None_eq split: if_splits)

lemma objs_distinct_keep: "objs_distinct is \<Longrightarrow> in_obj x = in_obj (is ! i) \<Longrightarrow> i < length is \<Longrightarrow> objs_distinct (is[i := x])"
proof -
  assume a: "objs_distinct is" "in_obj x = in_obj (is ! i)" "i < length is"
  have "in_obj (is[i := x] ! j) = in_obj (is ! j)" for j using a(2,3) by (cases "j = i") simp_all
  then show ?thesis using a(1) by (simp add: objs_distinct_def)
qed

lemma objs_distinct_new:
  "objs_distinct is \<Longrightarrow> \<forall>j < length is. in_obj (is ! j) \<noteq> in_obj x \<Longrightarrow> i < length is \<Longrightarrow> objs_distinct (is[i := x])"
  unfolding objs_distinct_def by (auto simp: nth_list_update simp del: not_None_eq split: if_splits)

definition tables_ok :: "tables \<Rightarrow> bool" where
  "tables_ok T \<longleftrightarrow> length (inodes T) = n_handles T \<and> length (fds T) = n_handles T \<and>
     (\<forall>i < n_handles T. 0 \<le> h_use (handles T ! i) \<and> (0 < h_use (handles T ! i) \<longrightarrow> 0 \<le> h_fd (handles T ! i) \<and> h_fd (handles T ! i) < int (n_handles T))) \<and>
     (\<forall>k < n_handles T. fd_count (fds T ! k) = fd_refs (handles T) k \<and>
        (if 0 < fd_count (fds T ! k) then 0 \<le> fd_inode (fds T ! k) \<and> fd_inode (fds T ! k) < int (n_handles T) else fd_inode (fds T ! k) = - 1)) \<and>
     (\<forall>j < n_handles T. (in_obj (inodes T ! j) = None \<longleftrightarrow> inode_refs (fds T) j = 0) \<and> (in_obj (inodes T ! j) \<noteq> None \<longrightarrow> in_count (inodes T ! j) = inode_refs (fds T) j)) \<and>
     objs_distinct (inodes T)"

lemma tables_okD:
  assumes "tables_ok T"
  shows "length (inodes T) = n_handles T" "length (fds T) = n_handles T"
    "i < n_handles T \<Longrightarrow> 0 \<le> h_use (handles T ! i)"
    "i < n_handles T \<Longrightarrow> 0 < h_use (handles T ! i) \<Longrightarrow> 0 \<le> h_fd (handles T ! i) \<and> h_fd (handles T ! i) < int (n_handles T)"
    "i < n_handles T \<Longrightarrow> fd_count (fds T ! i) = fd_refs (handles T) i"
    "i < n_handles T \<Longrightarrow> 0 < fd_count (fds T ! i) \<Longrightarrow> 0 \<le> fd_inode (fds T ! i) \<and> fd_inode (fds T ! i) < int (n_handles T)"
    "i < n_handles T \<Longrightarrow> fd_count (fds T ! i) \<le> 0 \<Longrightarrow> fd_inode (fds T ! i) = - 1"
    "i < n_handles T \<Longrightarrow> in_obj (inodes T ! i) = None \<longleftrightarrow> inode_refs (fds T) i = 0"
    "i < n_handles T \<Longrightarrow> in_obj (inodes T ! i) \<noteq> None \<Longrightarrow> in_count (inodes T ! i) = inode_refs (fds T) i"
    "objs_distinct (inodes T)"
  using assms unfolding tables_ok_def by (auto split: if_splits)

lemma tables_okI:
  assumes "length (inodes T) = n_handles T" "length (fds T) = n_handles T"
    "\<And>i. i < n_handles T \<Longrightarrow> 0 \<le> h_use (handles T ! i)"
    "\<And>i. i < n_handles T \<Longrightarrow> 0 < h_use (handles T ! i) \<Longrightarrow> 0 \<le> h_fd (handles T ! i) \<and> h_fd (handles T ! i) < int (n_handles T)"
    "\<And>k. k < n_handles T \<Longrightarrow> fd_count (fds T ! k) = fd_refs (handles T) k"
    "\<And>k. k < n_handles T \<Longrightarrow> 0 < fd_count (fds T ! k) \<Longrightarrow> 0 \<le> fd_inode (fds T ! k) \<and> fd_inode (fds T ! k) < int (n_handles T)"
    "\<And>k. k < n_handles T \<Longrightarrow> fd_count (fds T ! k) \<le> 0 \<Longrightarrow> fd_inode (fds T ! k) = - 1"
    "\<And>j. j < n_handles T \<Longrightarrow> in_obj (inodes T ! j) = None \<longleftrightarrow> inode_refs (fds T) j = 0"
    "\<And>j. j < n_handles T \<Longrightarrow> in_obj (inodes T ! j) \<noteq> None \<Longrightarrow> in_count (inodes T ! j) = inode_refs (fds T) j"
    "objs_distinct (inodes T)"
  shows "tables_ok T"
  unfolding tables_ok_def
proof (intro conjI allI impI)
  fix k assume "k < n_handles T"
  then show "if 0 < fd_count (fds T ! k) then 0 \<le> fd_inode (fds T ! k) \<and> fd_inode (fds T ! k) < int (n_handles T) else fd_inode (fds T ! k) = - 1"
    using assms(6,7) by (metis linorder_not_less)
qed (use assms in blast)+

text \<open>The object behind each handle: the specification.\<close>

definition files :: "tables \<Rightarrow> nat \<Rightarrow> int option" where
  "files T i =
     (if i < n_handles T \<and> 0 < h_use (handles T ! i) then in_obj (inodes T ! nat (fd_inode (fds T ! nat (h_fd (handles T ! i))))) else None)"

text \<open>A live handle leads to a live descriptor and that to an open object.\<close>

lemma live_chain:
  assumes ok: "tables_ok T" and i: "i < n_handles T" "0 < h_use (handles T ! i)"
  shows "\<exists>k j. k < n_handles T \<and> h_fd (handles T ! i) = int k \<and> 0 < fd_count (fds T ! k) \<and> j < n_handles T \<and> fd_inode (fds T ! k) = int j \<and>
    in_obj (inodes T ! j) \<noteq> None \<and> files T i = in_obj (inodes T ! j)"
proof -
  note d = tables_okD [OF ok]
  obtain k where k: "h_fd (handles T ! i) = int k" "k < n_handles T" using d(4) [OF i] zero_le_imp_eq_int by fastforce
  note k = k(2,1)
  have "0 < fd_refs (handles T) k" using i k(2) by (auto simp: fd_refs_def intro: count_by_pos)
  then have f: "0 < fd_count (fds T ! k)" using d(5) [OF k(1)] by simp
  obtain j where j: "fd_inode (fds T ! k) = int j" "j < n_handles T" using d(6) [OF k(1) f] zero_le_imp_eq_int by fastforce
  note j = j(2,1)
  have "0 < inode_refs (fds T) j" using f j(2) k(1) d(2) by (auto simp: inode_refs_def intro: count_by_pos)
  then have "in_obj (inodes T ! j) \<noteq> None" using d(8) [OF j(1)] by simp
  then show ?thesis using i k j f by (intro exI [of _ k] exI [of _ j]) (simp add: files_def)
qed

lemma handle_to_object_files:
  assumes "tables_ok T" and "0 \<le> h" and "h < int (n_handles T)"
  shows "handle_to_object T h = Some (files T (nat h))"
proof -
  have i: "nat h < n_handles T" "\<not> int (n_handles T) < h" using assms(2,3) by simp_all
  show ?thesis
  proof (cases "0 < h_use (handles T ! nat h)")
    case True
    obtain k j where "k < n_handles T" "h_fd (handles T ! nat h) = int k" "0 < fd_count (fds T ! k)" "j < n_handles T" "fd_inode (fds T ! k) = int j"
        "files T (nat h) = in_obj (inodes T ! j)" using live_chain [OF assms(1) i(1) True] by blast
    then show ?thesis using assms(2) i True by (simp add: handle_to_object_def handle_to_inode_def handle_to_file_des_def handle_to_pointer_def the_handle_def)
  next
    case False
    then show ?thesis using assms(2) i by (simp add: handle_to_object_def handle_to_inode_def handle_to_file_des_def handle_to_pointer_def the_handle_def files_def)
  qed
qed

section \<open>Releasing\<close>

lemma put_handle_keeps:
  assumes ok: "tables_ok T" and i: "i < n_handles T" and u: "h_use (handles T ! i) \<noteq> 1"
  shows "\<exists>T'. put_handle (int i) T = Some T' \<and> tables_ok T' \<and> n_handles T' = n_handles T \<and> files T' = files T"
proof (cases "0 < h_use (handles T ! i)")
  case True
  let ?p = "(handles T ! i)\<lparr>h_use := h_use (handles T ! i) - 1\<rparr>" let ?T = "T\<lparr>handles := (handles T)[i := ?p]\<rparr>"
  note d = tables_okD [OF ok]
  have u2: "1 < h_use (handles T ! i)" using True u by simp
  have "tables_ok ?T"
    by (rule tables_okI) (use d u2 i in \<open>auto simp: nth_list_update simp del: not_None_eq split: if_splits\<close>)
  moreover have "files ?T = files T" using i u2 by (auto simp: files_def nth_list_update fun_eq_iff)
  moreover have "put_handle (int i) T = Some ?T" using i u2 by (simp add: put_handle_def handle_to_pointer_def the_handle_def Let_def)
  ultimately show ?thesis by simp
next
  case False
  then show ?thesis using ok i by (simp add: put_handle_def handle_to_pointer_def the_handle_def)
qed

lemma only_one:
  assumes "count_by P xs = 1" and "i < length xs" and "P (xs ! i)" and "j < length xs" and "P (xs ! j)"
  shows "j = i"
  using count_by_two [of i xs j P] assms by fastforce

lemma put_handle_last:
  assumes ok: "tables_ok T" and i: "i < n_handles T" and u: "h_use (handles T ! i) = 1"
  shows "\<exists>T'. put_handle (int i) T = Some T' \<and> tables_ok T' \<and> n_handles T' = n_handles T \<and> files T' = (files T)(i := None)"
proof -
  note d = tables_okD [OF ok]
  obtain k j where k: "k < n_handles T" "h_fd (handles T ! i) = int k" "0 < fd_count (fds T ! k)"
      and j: "j < n_handles T" "fd_inode (fds T ! k) = int j" "in_obj (inodes T ! j) \<noteq> None"
    using live_chain [OF ok i] u by auto
  let ?hs = "(handles T)[i := (handles T ! i)\<lparr>h_use := 0, h_fd := - 1\<rparr>]"
  let ?f = "fds T ! k" let ?i = "inodes T ! j"
  have len: "length (inodes T) = n_handles T" "length (fds T) = n_handles T" using d(1,2) .
  have other_fd: "h_fd (handles T ! x) \<noteq> int k" if "fd_count ?f = 1" "x < n_handles T" "0 < h_use (handles T ! x)" "x \<noteq> i" for x
    using only_one [of "\<lambda>h. 0 < h_use h \<and> h_fd h = int k" "handles T" i x] d(5) [OF k(1)] i u k(2) that by (auto simp: fd_refs_def)
  have other_inode: "fd_inode (fds T ! x) \<noteq> int j" if "inode_refs (fds T) j = 1" "x < n_handles T" "0 < fd_count (fds T ! x)" "x \<noteq> k" for x
    using only_one [of "\<lambda>f. 0 < fd_count f \<and> fd_inode f = int j" "fds T" k x] j(2) k(1,3) len that by (auto simp: inode_refs_def)
  consider (shared) "1 < fd_count ?f" | (last_handle) "fd_count ?f = 1" "in_count ?i \<noteq> 1" | (last_fd) "fd_count ?f = 1" "in_count ?i = 1"
    using k(3) by linarith
  then show ?thesis
  proof cases
    case shared
    let ?T = "T\<lparr>fds := (fds T)[k := ?f\<lparr>fd_count := fd_count ?f - 1\<rparr>], handles := ?hs\<rparr>"
    have "put_handle (int i) T = Some ?T" using i u k shared
      by (simp add: put_handle_def handle_to_pointer_def the_handle_def Let_def put_file_des_def)
    moreover have "tables_ok ?T"
      by (rule tables_okI) (use d u i k shared len in \<open>auto simp: nth_list_update simp del: not_None_eq split: if_splits\<close>)
    moreover have "files ?T = (files T)(i := None)" using i k len by (auto simp: files_def nth_list_update fun_eq_iff)
    ultimately show ?thesis by simp
  next
    case last_handle
    let ?T = "T\<lparr>inodes := (inodes T)[j := ?i\<lparr>in_count := in_count ?i - 1\<rparr>], fds := (fds T)[k := ?f\<lparr>fd_count := 0, fd_inode := - 1\<rparr>], handles := ?hs\<rparr>"
    have c: "in_count ?i = inode_refs (fds T) j" using d(9) j by blast
    have "0 < inode_refs (fds T) j" using k j len by (auto simp: inode_refs_def intro: count_by_pos)
    then have c2: "1 < in_count ?i" using last_handle(2) c by simp
    have "put_handle (int i) T = Some ?T" using i u k j last_handle(1) c2 len
      by (simp add: put_handle_def handle_to_pointer_def the_handle_def Let_def put_file_des_def put_inode_def)
    moreover have "tables_ok ?T"
      by (rule tables_okI) (use d u i k j last_handle len c c2 in \<open>auto simp: nth_list_update intro!: objs_distinct_keep simp del: not_None_eq split: if_splits\<close>)
    moreover have "files ?T = (files T)(i := None)"
    proof (rule ext)
      fix x
      show "files ?T x = ((files T)(i := None)) x"
      proof (cases "x \<noteq> i \<and> x < n_handles T \<and> 0 < h_use (handles T ! x)")
        case True
        then obtain k' j' where c': "k' < n_handles T" "h_fd (handles T ! x) = int k'" "0 < fd_count (fds T ! k')" "j' < n_handles T"
            "fd_inode (fds T ! k') = int j'" "files T x = in_obj (inodes T ! j')"
          using live_chain [OF ok, of x] by blast
        have "k' \<noteq> k" using other_fd [of x] c'(2) last_handle(1) True by simp
        then show ?thesis using c' True i k j len by (simp add: files_def nth_list_update)
      qed (use i in \<open>auto simp: files_def nth_list_update\<close>)
    qed
    ultimately show ?thesis by simp
  next
    case last_fd
    let ?T = "T\<lparr>inodes := (inodes T)[j := \<lparr>in_count = 0, in_obj = None\<rparr>], fds := (fds T)[k := ?f\<lparr>fd_count := 0, fd_inode := - 1\<rparr>], handles := ?hs\<rparr>"
    have c: "inode_refs (fds T) j = 1" using d(9) j last_fd(2) by metis
    have "put_handle (int i) T = Some ?T" using i u k j last_fd len
      by (simp add: put_handle_def handle_to_pointer_def the_handle_def Let_def put_file_des_def put_inode_def)
    moreover have "tables_ok ?T"
      by (rule tables_okI) (use d u i k j last_fd len c in \<open>auto simp: nth_list_update intro!: objs_distinct_free simp del: not_None_eq split: if_splits\<close>)
    moreover have "files ?T = (files T)(i := None)"
    proof (rule ext)
      fix x
      show "files ?T x = ((files T)(i := None)) x"
      proof (cases "x \<noteq> i \<and> x < n_handles T \<and> 0 < h_use (handles T ! x)")
        case True
        then obtain k' j' where c': "k' < n_handles T" "h_fd (handles T ! x) = int k'" "0 < fd_count (fds T ! k')" "j' < n_handles T"
            "fd_inode (fds T ! k') = int j'" "files T x = in_obj (inodes T ! j')"
          using live_chain [OF ok, of x] by blast
        have "k' \<noteq> k" using other_fd [of x] c'(2) last_fd(1) True by simp
        moreover have "j' \<noteq> j" using other_inode [of k'] c' c calculation by simp
        ultimately show ?thesis using c' True i k j len by (simp add: files_def nth_list_update)
      qed (use i in \<open>auto simp: files_def nth_list_update\<close>)
    qed
    ultimately show ?thesis by simp
  qed
qed

section \<open>Opening\<close>

lemma live_iff_files: "tables_ok T \<Longrightarrow> i < n_handles T \<Longrightarrow> 0 < h_use (handles T ! i) \<longleftrightarrow> files T i \<noteq> None"
  using live_chain [of T i] by (auto simp: files_def)

lemma first_index_cong: "length xs = length ys \<Longrightarrow> (\<And>i. i < length xs \<Longrightarrow> P (xs ! i) = Q (ys ! i)) \<Longrightarrow> first_index P xs = first_index Q ys"
proof (induction xs arbitrary: ys)
  case (Cons x xs)
  then obtain y zs where "ys = y # zs" by (cases ys) auto
  then show ?case using Cons.IH [of zs] Cons.prems by force
qed simp

text \<open>The first handle that is free, in the specification.\<close>

definition free_handle :: "nat \<Rightarrow> (nat \<Rightarrow> int option) \<Rightarrow> nat option" where
  "free_handle n fs = first_index (\<lambda>i. fs i = None) [0..<n]"

lemma new_handle_free:
  assumes "tables_ok T"
  shows "new_handle T = map_option (\<lambda>i. (i, T\<lparr>handles := (handles T)[i := \<lparr>h_fd = - 1, h_use = 1\<rparr>]\<rparr>)) (free_handle (n_handles T) (files T))"
proof -
  have "first_index (\<lambda>h. h_use h < 1) (handles T) = free_handle (n_handles T) (files T)"
    unfolding free_handle_def
  proof (rule first_index_cong)
    fix i assume "i < n_handles T"
    then show "(h_use (handles T ! i) < 1) = (files T ([0..<n_handles T] ! i) = None)"
      using live_iff_files [OF assms, of i] by (cases "files T i") auto
  qed simp
  then show ?thesis by (simp add: new_handle_def)
qed

lemma free_handleD: "free_handle n fs = Some i \<Longrightarrow> i < n \<and> fs i = None"
  using first_index_Some [of "\<lambda>i. fs i = None" "[0..<n]" i] by (auto simp: free_handle_def)

text \<open>Where a handle is free, so is a descriptor, and a place for an object that is not open.\<close>

lemma live_cards:
  assumes ok: "tables_ok T"
  shows "card {k. k < n_handles T \<and> 0 < fd_count (fds T ! k)} \<le> card {i. i < n_handles T \<and> 0 < h_use (handles T ! i)}" (is "card ?F \<le> card ?H")
    and "card {j. j < n_handles T \<and> in_obj (inodes T ! j) \<noteq> None} \<le> card {k. k < n_handles T \<and> 0 < fd_count (fds T ! k)}" (is "card ?I \<le> card ?F")
proof -
  note d = tables_okD [OF ok]
  have "?F \<subseteq> (\<lambda>i. nat (h_fd (handles T ! i))) ` ?H"
  proof
    fix k assume "k \<in> ?F"
    then have "fd_refs (handles T) k \<noteq> 0" using d(5) [of k] by simp
    then obtain i where "i < n_handles T" "0 < h_use (handles T ! i)" "h_fd (handles T ! i) = int k" unfolding fd_refs_def count_by_zero by auto
    then show "k \<in> (\<lambda>i. nat (h_fd (handles T ! i))) ` ?H" by (intro image_eqI [of _ _ i]) simp_all
  qed
  then show "card ?F \<le> card ?H" by (rule surj_card_le [rotated]) simp
  have "?I \<subseteq> (\<lambda>k. nat (fd_inode (fds T ! k))) ` ?F"
  proof
    fix j assume "j \<in> ?I"
    then have "inode_refs (fds T) j \<noteq> 0" using d(8) [of j] by auto
    then obtain k where "k < n_handles T" "0 < fd_count (fds T ! k)" "fd_inode (fds T ! k) = int j" unfolding inode_refs_def count_by_zero using d(2) by auto
    then show "j \<in> (\<lambda>k. nat (fd_inode (fds T ! k))) ` ?F" by (intro image_eqI [of _ _ k]) simp_all
  qed
  then show "card ?I \<le> card ?F" by (rule surj_card_le [rotated]) simp
qed

lemma room:
  assumes ok: "tables_ok T" and i: "i < n_handles T" "files T i = None"
  shows "\<exists>k. first_index (\<lambda>f. fd_count f < 1) (fds T) = Some k" and "\<exists>j. first_index (\<lambda>i. in_obj i = None) (inodes T) = Some j"
proof -
  have u: "\<not> 0 < h_use (handles T ! i)" using live_iff_files [OF ok i(1)] i(2) by simp
  have "{i. i < n_handles T \<and> 0 < h_use (handles T ! i)} \<subset> {..<n_handles T}" using i(1) u by auto
  from psubset_card_mono [OF _ this] have c: "card {i. i < n_handles T \<and> 0 < h_use (handles T ! i)} < n_handles T" by simp
  have all: "card {k. k < n_handles T \<and> P k} = n_handles T" if "\<forall>k < n_handles T. P k" for P
  proof -
    have "{k. k < n_handles T \<and> P k} = {..<n_handles T}" using that by auto
    then show ?thesis by simp
  qed
  show "\<exists>k. first_index (\<lambda>f. fd_count f < 1) (fds T) = Some k"
  proof (rule ccontr)
    assume "\<not> ?thesis"
    then have "\<forall>k < n_handles T. 0 < fd_count (fds T ! k)" using first_index_None [of "\<lambda>f. fd_count f < 1" "fds T"] tables_okD(2) [OF ok] by force
    from all [OF this] show False using live_cards(1) [OF ok] c by simp
  qed
  show "\<exists>j. first_index (\<lambda>i. in_obj i = None) (inodes T) = Some j"
  proof (rule ccontr)
    assume "\<not> ?thesis"
    then have "\<forall>j < n_handles T. in_obj (inodes T ! j) \<noteq> None" using first_index_None [of "\<lambda>i. in_obj i = None" "inodes T"] tables_okD(1) [OF ok] by simp
    from all [OF this] show False using live_cards [OF ok] c by simp
  qed
qed

lemma claimed:
  assumes ok: "tables_ok T" and i: "free_handle (n_handles T) (files T) = Some i"
  shows "\<exists>k. k < n_handles T \<and> fd_count (fds T ! k) = 0 \<and> fd_inode (fds T ! k) = - 1 \<and> fd_refs (handles T) k = 0 \<and>
    h_use (handles T ! i) = 0 \<and> i < n_handles T \<and> new_handle_and_file_des T =
      (int i, T\<lparr>fds := (fds T)[k := no_fd\<lparr>fd_count := 1\<rparr>], handles := (handles T)[i := \<lparr>h_fd = int k, h_use = 1\<rparr>]\<rparr>)"
proof -
  note d = tables_okD [OF ok]
  have i': "i < n_handles T" "files T i = None" using free_handleD [OF i] by simp_all
  obtain k where k: "first_index (\<lambda>f. fd_count f < 1) (fds T) = Some k" using room(1) [OF ok i'] by blast
  have k': "k < n_handles T" "fd_count (fds T ! k) < 1" using first_index_Some [OF k] d(2) by simp_all
  have "fd_refs (handles T) k = 0" using k' d(5) [OF k'(1)] by (simp add: fd_refs_def count_by_def)
  moreover have "h_use (handles T ! i) = 0" using live_iff_files [OF ok i'(1)] i'(2) d(3) [OF i'(1)] by simp
  ultimately show ?thesis using k k' i' i d(5,7) [OF k'(1)] new_handle_free [OF ok]
    by (intro exI [of _ k]) (simp add: new_handle_and_file_des_def)
qed

lemma open_fails:
  assumes ok: "tables_ok T" and k: "k < n_handles T" "fd_count (fds T ! k) = 0" "fd_inode (fds T ! k) = - 1" and i: "i < n_handles T" "h_use (handles T ! i) = 0"
  defines "T' \<equiv> T\<lparr>fds := (fds T)[k := no_fd], handles := (handles T)[i := \<lparr>h_fd = - 1, h_use = 0\<rparr>]\<rparr>"
  shows "put_handle (int i) (T\<lparr>fds := (fds T)[k := no_fd\<lparr>fd_count := 1\<rparr>], handles := (handles T)[i := \<lparr>h_fd = int k, h_use = 1\<rparr>]\<rparr>) = Some T' \<and>
    tables_ok T' \<and> files T' = files T"
proof -
  note d = tables_okD [OF ok]
  have len: "length (inodes T) = n_handles T" "length (fds T) = n_handles T" using d(1,2) .
  have "put_handle (int i) (T\<lparr>fds := (fds T)[k := no_fd\<lparr>fd_count := 1\<rparr>], handles := (handles T)[i := \<lparr>h_fd = int k, h_use = 1\<rparr>]\<rparr>) = Some T'" using k i len
    by (simp add: T'_def put_handle_def handle_to_pointer_def the_handle_def Let_def put_file_des_def no_fd_def)
  moreover have "tables_ok T'" unfolding T'_def
    by (rule tables_okI) (use d k i len in \<open>auto simp: nth_list_update no_fd_def simp del: not_None_eq split: if_splits\<close>)
  moreover have "files T' = files T"
  proof (rule ext)
    fix x
    show "files T' x = files T x"
    proof (cases "x < n_handles T \<and> 0 < h_use (handles T ! x)")
      case True
      then obtain k' where "k' < n_handles T" "h_fd (handles T ! x) = int k'" "0 < fd_count (fds T ! k')"
        using live_chain [OF ok, of x] by blast
      moreover from this have "k' \<noteq> k" "x \<noteq> i" using k i True by auto
      ultimately show ?thesis using True i k len by (simp add: T'_def files_def nth_list_update)
    qed (use i in \<open>auto simp: T'_def files_def nth_list_update\<close>)
  qed
  ultimately show ?thesis by simp
qed

lemma get_inode_for_ok:
  assumes ok: "tables_ok T" and i: "i < n_handles T" "files T i = None"
  shows "\<exists>j. j < n_handles T \<and> get_inode_for T obj = Some (j, T\<lparr>inodes := (inodes T)[j := \<lparr>in_count = inode_refs (fds T) j + 1, in_obj = Some obj\<rparr>]\<rparr>) \<and>
    (in_obj (inodes T ! j) = Some obj \<or> in_obj (inodes T ! j) = None \<and> (\<forall>l < n_handles T. in_obj (inodes T ! l) \<noteq> Some obj))"
proof (cases "first_index (\<lambda>i. in_obj i = Some obj) (inodes T)")
  case None
  obtain j where j: "first_index (\<lambda>i. in_obj i = None) (inodes T) = Some j" using room(2) [OF ok i] by blast
  have "j < n_handles T" "in_obj (inodes T ! j) = None" using first_index_Some [OF j] tables_okD(1) [OF ok] by simp_all
  then show ?thesis using None j tables_okD(1) [OF ok] tables_okD(8) [OF ok, of j] first_index_None [of "\<lambda>i. in_obj i = Some obj" "inodes T"]
    by (intro exI [of _ j]) (simp add: get_inode_for_def Let_def)
next
  case (Some j)
  have "j < n_handles T" "in_obj (inodes T ! j) = Some obj" using first_index_Some [OF Some] tables_okD(1) [OF ok] by simp_all
  then show ?thesis using Some tables_okD(9) [OF ok, of j]
    by (intro exI [of _ j]) (simp add: get_inode_for_def Let_def)
qed

lemma open_succeeds:
  assumes ok: "tables_ok T" and k: "k < n_handles T" "fd_count (fds T ! k) = 0" "fd_inode (fds T ! k) = - 1" and i: "i < n_handles T" "h_use (handles T ! i) = 0"
    and j: "j < n_handles T" "in_obj (inodes T ! j) = Some obj \<or> in_obj (inodes T ! j) = None \<and> (\<forall>l < n_handles T. in_obj (inodes T ! l) \<noteq> Some obj)"
    and f: "fd_count f = 1" "fd_inode f = int j" and kr: "fd_refs (handles T) k = 0"
  defines "T1 \<equiv> T\<lparr>inodes := (inodes T)[j := \<lparr>in_count = inode_refs (fds T) j + 1, in_obj = Some obj\<rparr>], fds := (fds T)[k := f], handles := (handles T)[i := \<lparr>h_fd = int k, h_use = 1\<rparr>]\<rparr>"
  shows "tables_ok T1 \<and> files T1 = (files T)(i \<mapsto> obj)"
proof -
  note d = tables_okD [OF ok]
  have len: "length (inodes T) = n_handles T" "length (fds T) = n_handles T" using d(1,2) .
  have dist: "objs_distinct ((inodes T)[j := \<lparr>in_count = inode_refs (fds T) j + 1, in_obj = Some obj\<rparr>])"
    using j d(10) len by (auto intro: objs_distinct_keep objs_distinct_new)
  have nn: "0 \<le> inode_refs (fds T) j" by (simp add: inode_refs_def)
  have "tables_ok T1" unfolding T1_def
    by (rule tables_okI) (use d k i j f kr len nn dist in \<open>auto simp: nth_list_update simp del: not_None_eq split: if_splits\<close>)
  moreover have "files T1 = (files T)(i \<mapsto> obj)"
  proof (rule ext)
    fix x
    show "files T1 x = ((files T)(i \<mapsto> obj)) x"
    proof (cases "x < n_handles T \<and> 0 < h_use (handles T ! x)")
      case True
      then obtain k' j' where c: "k' < n_handles T" "h_fd (handles T ! x) = int k'" "0 < fd_count (fds T ! k')" "j' < n_handles T"
          "fd_inode (fds T ! k') = int j'" "in_obj (inodes T ! j') \<noteq> None"
        using live_chain [OF ok, of x] by blast
      moreover have "k' \<noteq> k" "x \<noteq> i" using c k i True by auto
      ultimately show ?thesis using True i k j len by (auto simp: T1_def files_def nth_list_update)
    next
      case False
      then show ?thesis using i j k f len by (cases "x = i") (auto simp: T1_def files_def)
    qed
  qed
  ultimately show ?thesis by simp
qed

section \<open>The specification\<close>

text \<open>What the operations do to the map from handles to objects.\<close>

definition spec_open :: "nat \<Rightarrow> int option \<Rightarrow> (nat \<Rightarrow> int option) \<Rightarrow> int \<times> (nat \<Rightarrow> int option)" where
  "spec_open n obj fs = (case (free_handle n fs, obj) of (Some i, Some ob) \<Rightarrow> (int i, fs(i \<mapsto> ob)) | _ \<Rightarrow> (- 1, fs))"

definition behind :: "nat \<Rightarrow> int \<Rightarrow> (nat \<Rightarrow> int option) \<Rightarrow> int option" where
  "behind n h fs = (if 0 \<le> h \<and> h < int n then fs (nat h) else None)"

definition spec_close :: "nat \<Rightarrow> int \<Rightarrow> bool \<Rightarrow> (nat \<Rightarrow> int option) \<Rightarrow> int \<times> (nat \<Rightarrow> int option)" where
  "spec_close n h busy fs = (if behind n h fs = None then (- 1, fs) else (0, if busy then fs else fs(nat h := None)))"

definition refined :: "(int \<times> tables) option \<Rightarrow> int \<times> (nat \<Rightarrow> int option) \<Rightarrow> nat \<Rightarrow> bool" where
  "refined res sp n \<longleftrightarrow> (\<exists>T'. res = Some (fst sp, T') \<and> files T' = snd sp \<and> tables_ok T' \<and> n_handles T' = n)"

lemma filter_update_dead: "\<not> P y \<Longrightarrow> \<not> P (xs ! k) \<Longrightarrow> k < length xs \<Longrightarrow> filter P (xs[k := y]) = filter P xs"
proof (induction xs arbitrary: k)
  case (Cons x xs)
  then show ?case by (cases k) auto
qed simp

text \<open>Stores to different tables commute: the order used here is inodes, descriptors, handles.\<close>

lemma stores_commute:
  "U\<lparr>handles := b, fds := a\<rparr> = U\<lparr>fds := a, handles := b\<rparr>" "U\<lparr>fds := a, inodes := c\<rparr> = U\<lparr>inodes := c, fds := a\<rparr>"
  "U\<lparr>handles := b, inodes := c\<rparr> = U\<lparr>inodes := c, handles := b\<rparr>"
  by (cases U; simp)+

lemma get_inode_for_upd:
  "get_inode_for (T\<lparr>fds := a, handles := b\<rparr>) obj = map_option (\<lambda>(j, T'). (j, T'\<lparr>fds := a, handles := b\<rparr>)) (get_inode_for T obj)"
  by (simp add: get_inode_for_def Let_def option.map_comp comp_def stores_commute cong: option.case_cong)

definition opened_fd :: "open_flags \<Rightarrow> nat \<Rightarrow> yf_fd" where
  "opened_fd q j = \<lparr>fd_inode = int j, fd_count = 1, fd_position = 0, fd_reading = of_read q, fd_writing = of_write q,
     fd_append = of_append q, fd_share_read = of_share_read q, fd_share_write = of_share_write q\<rparr>"

text \<open>What a call of open does to the tables.\<close>

lemma open_result:
  assumes ok: "tables_ok T" and Some: "free_handle (n_handles T) (files T) = Some i" and path: "ye_path_ok env path"
  shows "\<exists>k. k < n_handles T \<and> fd_count (fds T ! k) = 0 \<and> fd_inode (fds T ! k) = - 1 \<and> fd_refs (handles T) k = 0 \<and>
    h_use (handles T ! i) = 0 \<and> i < n_handles T \<and>
    (case open_object env path q T of
       None \<Rightarrow> yaffs_open_sharing env path q T = Some (- 1, T\<lparr>fds := (fds T)[k := no_fd], handles := (handles T)[i := \<lparr>h_fd = - 1, h_use = 0\<rparr>]\<rparr>)
     | Some obj \<Rightarrow> \<exists>j. j < n_handles T \<and>
         (in_obj (inodes T ! j) = Some obj \<or> in_obj (inodes T ! j) = None \<and> (\<forall>l < n_handles T. in_obj (inodes T ! l) \<noteq> Some obj)) \<and>
         yaffs_open_sharing env path q T = Some (int i, T\<lparr>inodes := (inodes T)[j := \<lparr>in_count = inode_refs (fds T) j + 1, in_obj = Some obj\<rparr>],
           fds := (fds T)[k := opened_fd q j], handles := (handles T)[i := \<lparr>h_fd = int k, h_use = 1\<rparr>]\<rparr>))"
proof -
  obtain k where k: "k < n_handles T" "fd_count (fds T ! k) = 0" "fd_inode (fds T ! k) = - 1" "fd_refs (handles T) k = 0"
      and i: "h_use (handles T ! i) = 0" "i < n_handles T" and new: "new_handle_and_file_des T =
        (int i, T\<lparr>fds := (fds T)[k := no_fd\<lparr>fd_count := 1\<rparr>], handles := (handles T)[i := \<lparr>h_fd = int k, h_use = 1\<rparr>]\<rparr>)"
    using claimed [OF ok Some] by blast
  let ?T = "T\<lparr>fds := (fds T)[k := no_fd\<lparr>fd_count := 1\<rparr>], handles := (handles T)[i := \<lparr>h_fd = int k, h_use = 1\<rparr>]\<rparr>"
  have len: "length (inodes T) = n_handles T" "length (fds T) = n_handles T" using tables_okD(1,2) [OF ok] .
  have fd: "handle_to_file_des ?T (int i) = Some (Some k)" using i k by (simp add: handle_to_file_des_def handle_to_pointer_def the_handle_def)
  have same: "open_object env path q ?T = open_object env path q T"
    using k len by (simp add: open_object_def open_denied_def sharing_denied_def open_on_def [abs_def] filter_update_dead no_fd_def cong: option.case_cong)
  show ?thesis
  proof (cases "open_object env path q T")
    case None
    then show ?thesis using open_fails [OF ok k(1-3) i(2,1)] path same new fd k i
      by (intro exI [of _ k]) (simp add: yaffs_open_sharing_def)
  next
    case obj: (Some obj)
    obtain j where j: "j < n_handles T"
        "get_inode_for T obj = Some (j, T\<lparr>inodes := (inodes T)[j := \<lparr>in_count = inode_refs (fds T) j + 1, in_obj = Some obj\<rparr>]\<rparr>)"
        "in_obj (inodes T ! j) = Some obj \<or> in_obj (inodes T ! j) = None \<and> (\<forall>l < n_handles T. in_obj (inodes T ! l) \<noteq> Some obj)"
      using get_inode_for_ok [OF ok] free_handleD [OF Some] by blast
    have "yaffs_open_sharing env path q T = Some (int i, T\<lparr>inodes := (inodes T)[j := \<lparr>in_count = inode_refs (fds T) j + 1, in_obj = Some obj\<rparr>],
        fds := (fds T)[k := opened_fd q j], handles := (handles T)[i := \<lparr>h_fd = int k, h_use = 1\<rparr>]\<rparr>)"
      using path obj same new fd j(2) k(1) len by (simp add: yaffs_open_sharing_def get_inode_for_upd stores_commute no_fd_def opened_fd_def)
    then show ?thesis using k i j(1,3) obj by (intro exI [of _ k]) auto
  qed
qed

lemma open_refined:
  assumes ok: "tables_ok T"
  shows "refined (yaffs_open_sharing env path q T)
    (spec_open (n_handles T) (if ye_path_ok env path then open_object env path q T else None) (files T)) (n_handles T)"
proof (cases "ye_path_ok env path")
  case False
  then show ?thesis using ok by (simp add: yaffs_open_sharing_def refined_def spec_open_def split: option.split)
next
  case path: True
  show ?thesis
  proof (cases "free_handle (n_handles T) (files T)")
    case None
    then have "new_handle T = None" using new_handle_free [OF ok] by simp
    then show ?thesis using ok None by (simp add: yaffs_open_sharing_def new_handle_and_file_des_def refined_def spec_open_def)
  next
    case (Some i)
    note * = open_result [OF ok Some path, of q]
    show ?thesis
    proof (cases "open_object env path q T")
      case None
      then show ?thesis using * open_fails [OF ok] path Some by (fastforce simp: refined_def spec_open_def)
    next
      case obj: (Some obj)
      obtain k j where k: "k < n_handles T" "fd_count (fds T ! k) = 0" "fd_inode (fds T ! k) = - 1" "fd_refs (handles T) k = 0"
        "h_use (handles T ! i) = 0" "i < n_handles T" and j: "j < n_handles T"
         "in_obj (inodes T ! j) = Some obj \<or> in_obj (inodes T ! j) = None \<and> (\<forall>l < n_handles T. in_obj (inodes T ! l) \<noteq> Some obj)"
        and res: "yaffs_open_sharing env path q T = Some (int i, T\<lparr>inodes := (inodes T)[j := \<lparr>in_count = inode_refs (fds T) j + 1, in_obj = Some obj\<rparr>],
           fds := (fds T)[k := opened_fd q j], handles := (handles T)[i := \<lparr>h_fd = int k, h_use = 1\<rparr>]\<rparr>)"
        using * obj by auto
      show ?thesis using open_succeeds [OF ok k(1-3,6,5) j, of "opened_fd q j"] k(4) res path obj Some
        by (simp add: refined_def spec_open_def opened_fd_def)
    qed
  qed
qed

lemma behind_live:
  assumes ok: "tables_ok T" and h: "h \<noteq> int (n_handles T)"
  shows "handle_to_file_des T h = Some (map_option (\<lambda>_. nat (h_fd (handles T ! nat h))) (behind (n_handles T) h (files T)))"
    and "handle_to_object T h = Some (behind (n_handles T) h (files T))"
proof -
  have "handle_to_file_des T h = Some (map_option (\<lambda>_. nat (h_fd (handles T ! nat h))) (behind (n_handles T) h (files T))) \<and>
    handle_to_object T h = Some (behind (n_handles T) h (files T))"
  proof (cases "0 \<le> h \<and> h < int (n_handles T)")
    case False
    then have "handle_to_pointer T h = None" using h by (auto simp: handle_to_pointer_def)
    then show ?thesis using False by (auto simp: handle_to_object_def handle_to_inode_def handle_to_file_des_def behind_def)
  next
    case True
    then have i: "nat h < n_handles T" by linarith
    have "handle_to_file_des T h = Some (map_option (\<lambda>_. nat (h_fd (handles T ! nat h))) (files T (nat h)))"
    proof (cases "0 < h_use (handles T ! nat h)")
      case u: True
      obtain k j where "k < n_handles T" "h_fd (handles T ! nat h) = int k" "files T (nat h) \<noteq> None"
        using live_chain [OF ok i u] by auto
      then show ?thesis using True u by (auto simp: handle_to_file_des_def handle_to_pointer_def the_handle_def)
    next
      case u: False
      then have "files T (nat h) = None" using live_iff_files [OF ok i] by simp
      then show ?thesis using True u i by (simp add: handle_to_file_des_def handle_to_pointer_def the_handle_def)
    qed
    then show ?thesis using True handle_to_object_files [OF ok] by (simp add: behind_def)
  qed
  then show "handle_to_file_des T h = Some (map_option (\<lambda>_. nat (h_fd (handles T ! nat h))) (behind (n_handles T) h (files T)))"
    "handle_to_object T h = Some (behind (n_handles T) h (files T))" by auto
qed

lemma close_refined:
  assumes ok: "tables_ok T" and h: "h \<noteq> int (n_handles T)"
  shows "refined (yaffs_close h T) (spec_close (n_handles T) h (h_use (handles T ! nat h) \<noteq> 1) (files T)) (n_handles T)"
proof (cases "behind (n_handles T) h (files T)")
  case None
  then show ?thesis using ok behind_live(2) [OF ok h] by (simp add: yaffs_close_def refined_def spec_close_def)
next
  case (Some obj)
  then have i: "nat h < n_handles T" "int (nat h) = h" by (auto simp: behind_def split: if_splits)
  then show ?thesis using Some behind_live(2) [OF ok h] put_handle_keeps [OF ok i(1)] put_handle_last [OF ok i(1)]
    by (cases "h_use (handles T ! nat h) = 1") (auto simp: yaffs_close_def refined_def spec_close_def)
qed

lemma get_refined:
  assumes ok: "tables_ok T" and h: "h \<noteq> int (n_handles T)"
  shows "refined (get_handle h T) (if behind (n_handles T) h (files T) = None then - 1 else 0, files T) (n_handles T)"
proof (cases "0 \<le> h \<and> h < int (n_handles T)")
  case False
  then have "handle_to_pointer T h = None" using h by (auto simp: handle_to_pointer_def)
  then show ?thesis using False ok by (auto simp: get_handle_def refined_def behind_def)
next
  case True
  then have i: "nat h < n_handles T" by linarith
  note d = tables_okD [OF ok]
  let ?p = "handles T ! nat h"
  let ?T = "T\<lparr>handles := (handles T)[nat h := ?p\<lparr>h_use := h_use ?p + 1\<rparr>]\<rparr>"
  show ?thesis
  proof (cases "0 < h_use ?p")
    case u: True
    have "tables_ok ?T"
      by (rule tables_okI) (use d u i in \<open>auto simp: nth_list_update simp del: not_None_eq split: if_splits\<close>)
    moreover have "files ?T = files T" using i u by (auto simp: files_def nth_list_update fun_eq_iff)
    ultimately show ?thesis using u True live_iff_files [OF ok i] by (auto simp: get_handle_def handle_to_pointer_def the_handle_def refined_def behind_def)
  next
    case u: False
    then show ?thesis using True ok live_iff_files [OF ok i] by (auto simp: get_handle_def handle_to_pointer_def the_handle_def refined_def behind_def)
  qed
qed

lemma dup_refined:
  assumes ok: "tables_ok T" and h: "h \<noteq> int (n_handles T)"
  shows "refined (yaffs_dup h T) (spec_open (n_handles T) (behind (n_handles T) h (files T)) (files T)) (n_handles T)"
proof (cases "behind (n_handles T) h (files T)")
  case None
  then show ?thesis using ok behind_live(1) [OF ok h] by (simp add: yaffs_dup_def refined_def spec_open_def split: option.split)
next
  case obj: (Some obj)
  then have i': "nat h < n_handles T" "files T (nat h) = Some obj" by (auto simp: behind_def split: if_splits)
  then have "0 < h_use (handles T ! nat h)" using live_iff_files [OF ok i'(1)] by simp
  then obtain k j where k: "k < n_handles T" "h_fd (handles T ! nat h) = int k" "0 < fd_count (fds T ! k)" "fd_inode (fds T ! k) = int j" "j < n_handles T"
      "in_obj (inodes T ! j) = Some obj" using live_chain [OF ok i'(1)] i'(2) by auto
  note fd = behind_live(1) [OF ok h, unfolded obj, simplified, unfolded k(2), simplified]
  show ?thesis
  proof (cases "free_handle (n_handles T) (files T)")
    case None
    then show ?thesis using ok fd new_handle_free [OF ok] by (simp add: yaffs_dup_def refined_def spec_open_def)
  next
    case (Some i)
    note i = free_handleD [OF Some]
    note d = tables_okD [OF ok]
    have len: "length (inodes T) = n_handles T" "length (fds T) = n_handles T" using d(1,2) .
    have u: "h_use (handles T ! i) = 0" using live_iff_files [OF ok, of i] i d(3) [of i] by auto
    let ?T = "T\<lparr>fds := (fds T)[k := (fds T ! k)\<lparr>fd_count := fd_count (fds T ! k) + 1\<rparr>], handles := (handles T)[i := \<lparr>h_fd = int k, h_use = 1\<rparr>]\<rparr>"
    have "yaffs_dup h T = Some (int i, ?T)" using fd Some i k new_handle_free [OF ok] by (simp add: yaffs_dup_def stores_commute)
    moreover have "tables_ok ?T"
      by (rule tables_okI) (use d u i k len in \<open>auto simp: nth_list_update simp del: not_None_eq split: if_splits\<close>)
    moreover have "files ?T = (files T)(i \<mapsto> obj)"
    proof (rule ext)
      fix x show "files ?T x = ((files T)(i \<mapsto> obj)) x"
        using i k len by (cases "x = i") (auto simp: files_def nth_list_update)
    qed
    ultimately show ?thesis using obj Some by (simp add: refined_def spec_open_def)
  qed
qed

section \<open>Sharing\<close>

text \<open>Two live descriptors of one object: what one does the other allows.\<close>

definition shares_ok :: "tables \<Rightarrow> bool" where
  "shares_ok T \<longleftrightarrow> (\<forall>k < n_handles T. \<forall>l < n_handles T.
     k \<noteq> l \<and> 0 < fd_count (fds T ! k) \<and> 0 < fd_count (fds T ! l) \<and> fd_inode (fds T ! k) = fd_inode (fds T ! l) \<longrightarrow>
     (fd_reading (fds T ! k) \<longrightarrow> fd_share_read (fds T ! l)) \<and> (fd_writing (fds T ! k) \<longrightarrow> fd_share_write (fds T ! l)))"

definition same_rights :: "yf_fd \<Rightarrow> yf_fd \<Rightarrow> bool" where
  "same_rights f g \<longleftrightarrow> fd_inode f = fd_inode g \<and> fd_reading f = fd_reading g \<and> fd_writing f = fd_writing g \<and>
     fd_share_read f = fd_share_read g \<and> fd_share_write f = fd_share_write g"

lemma shares_ok_mono:
  assumes "shares_ok T" and "n_handles T' = n_handles T"
    and "\<And>l. l < n_handles T \<Longrightarrow> 0 < fd_count (fds T' ! l) \<Longrightarrow> 0 < fd_count (fds T ! l) \<and> same_rights (fds T' ! l) (fds T ! l)"
  shows "shares_ok T'"
  unfolding shares_ok_def
proof (intro allI impI, elim conjE)
  fix k l assume a: "k < n_handles T'" "l < n_handles T'" "k \<noteq> l" "0 < fd_count (fds T' ! k)" "0 < fd_count (fds T' ! l)"
    "fd_inode (fds T' ! k) = fd_inode (fds T' ! l)"
  show "(fd_reading (fds T' ! k) \<longrightarrow> fd_share_read (fds T' ! l)) \<and> (fd_writing (fds T' ! k) \<longrightarrow> fd_share_write (fds T' ! l))"
    using assms(1) assms(3) [of k] assms(3) [of l] a assms(2) unfolding shares_ok_def same_rights_def by metis
qed

lemma put_inode_fds: "put_inode j T = Some T' \<Longrightarrow> fds T' = fds T \<and> handles T' = handles T"
  by (auto simp: put_inode_def Let_def split: if_splits)

lemma put_file_des_fds:
  assumes "put_file_des k T = Some T'" and "l < length (fds T)" and "0 < fd_count (fds T' ! l)"
  shows "0 < fd_count (fds T ! l) \<and> same_rights (fds T' ! l) (fds T ! l)"
  using assms by (cases "l = nat k")
    (auto simp: put_file_des_def Let_def same_rights_def bind_eq_Some_conv nth_list_update dest!: put_inode_fds split: if_splits)

lemma put_handle_fds:
  assumes "put_handle h T = Some T'" and "l < length (fds T)" and "0 < fd_count (fds T' ! l)"
  shows "0 < fd_count (fds T ! l) \<and> same_rights (fds T' ! l) (fds T ! l)"
proof -
  consider "fds T' = fds T" | k U V where "put_file_des k U = Some V" "fds U = fds T" "fds T' = fds V"
    using assms(1) by (auto simp: put_handle_def Let_def bind_eq_Some_conv split: option.splits if_splits)
  then show ?thesis
  proof cases
    case 1
    then show ?thesis using assms(3) by (simp add: same_rights_def)
  next
    case 2
    then show ?thesis using put_file_des_fds [OF 2(1), of l] assms(2,3) by simp
  qed
qed

lemma dup_fds:
  assumes ok: "tables_ok T" and h: "h \<noteq> int (n_handles T)" and dup: "yaffs_dup h T = Some (r, T')"
    and l: "l < n_handles T" "0 < fd_count (fds T' ! l)"
  shows "0 < fd_count (fds T ! l) \<and> same_rights (fds T' ! l) (fds T ! l)"
proof -
  consider "fds T' = fds T" | k where "handle_to_file_des T h = Some (Some k)" "fds T' = (fds T)[k := (fds T ! k)\<lparr>fd_count := fd_count (fds T ! k) + 1\<rparr>]"
    using dup by (cases "handle_to_file_des T h"; cases "the (handle_to_file_des T h)"; cases "first_index (\<lambda>h. h_use h < 1) (handles T)")
      (auto simp: yaffs_dup_def new_handle_def)
  then show ?thesis
  proof cases
    case 1
    then show ?thesis using l by (simp add: same_rights_def)
  next
    case 2
    from 2(1) obtain obj where obj: "behind (n_handles T) h (files T) = Some obj" "k = nat (h_fd (handles T ! nat h))"
      unfolding behind_live(1) [OF ok h] by auto
    then have i: "nat h < n_handles T" "0 < h_use (handles T ! nat h)"
      using live_iff_files [OF ok, of "nat h"] by (auto simp: behind_def split: if_splits)
    have "0 < fd_count (fds T ! k)" using live_chain [OF ok i] obj(2) by auto
    then show ?thesis using 2(2) l tables_okD(2) [OF ok] by (cases "l = k") (auto simp: same_rights_def)
  qed
qed

lemma shares_ok_open:
  assumes ok: "tables_ok T" and sh: "shares_ok T" and k: "k < n_handles T" and n: "n_handles T' = n_handles T" and f: "fds T' = (fds T)[k := f]"
    and new: "\<And>l. l < n_handles T \<Longrightarrow> l \<noteq> k \<Longrightarrow> 0 < fd_count (fds T ! l) \<Longrightarrow> 0 < fd_count f \<Longrightarrow> fd_inode (fds T ! l) = fd_inode f \<Longrightarrow>
      (fd_reading f \<longrightarrow> fd_share_read (fds T ! l)) \<and> (fd_writing f \<longrightarrow> fd_share_write (fds T ! l)) \<and>
      (fd_reading (fds T ! l) \<longrightarrow> fd_share_read f) \<and> (fd_writing (fds T ! l) \<longrightarrow> fd_share_write f)"
  shows "shares_ok T'"
  unfolding shares_ok_def
proof (intro allI impI, elim conjE)
  fix a b assume ab: "a < n_handles T'" "b < n_handles T'" "a \<noteq> b" "0 < fd_count (fds T' ! a)" "0 < fd_count (fds T' ! b)"
    "fd_inode (fds T' ! a) = fd_inode (fds T' ! b)"
  have at: "fds T' ! l = (if l = k then f else fds T ! l)" if "l < n_handles T" for l
    using that f tables_okD(2) [OF ok] by simp
  show "(fd_reading (fds T' ! a) \<longrightarrow> fd_share_read (fds T' ! b)) \<and> (fd_writing (fds T' ! a) \<longrightarrow> fd_share_write (fds T' ! b))"
  proof (cases "a = k \<or> b = k")
    case True
    then show ?thesis using ab n new [of a] new [of b] by (auto simp: at split: if_splits)
  next
    case False
    then show ?thesis using ab n sh unfolding shares_ok_def by (simp add: at)
  qed
qed

lemma open_shares:
  assumes ok: "tables_ok T" and sh: "shares_ok T" and op: "yaffs_open_sharing env path q T = Some (r, T')"
    and fresh: "\<And>dir obj l. ye_create env dir path = Some obj \<Longrightarrow> l < n_handles T \<Longrightarrow> in_obj (inodes T ! l) \<noteq> Some obj"
  shows "shares_ok T'"
proof (cases "ye_path_ok env path \<and> free_handle (n_handles T) (files T) \<noteq> None")
  case False
  then have "T' = T"
    using op new_handle_free [OF ok] by (auto simp: yaffs_open_sharing_def new_handle_and_file_des_def split: if_splits)
  then show ?thesis using sh by simp
next
  case True
  then obtain i where i: "free_handle (n_handles T) (files T) = Some i" and path: "ye_path_ok env path" by auto
  note * = open_result [OF ok i path, of q]
  show ?thesis
  proof (cases "open_object env path q T")
    case None
    then obtain k where k: "k < n_handles T" "fds T' = (fds T)[k := no_fd]" "n_handles T' = n_handles T" using * op by auto
    show ?thesis by (rule shares_ok_open [OF ok sh k(1,3,2)]) (simp add: no_fd_def)
  next
    case (Some obj)
    then obtain k j where k: "k < n_handles T" "fds T' = (fds T)[k := opened_fd q j]" "n_handles T' = n_handles T"
        and j: "j < n_handles T" "in_obj (inodes T ! j) = Some obj \<or> in_obj (inodes T ! j) = None"
      using * op by auto
    show ?thesis
    proof (rule shares_ok_open [OF ok sh k(1,3,2)])
      fix l assume l: "l < n_handles T" "0 < fd_count (fds T ! l)" "fd_inode (fds T ! l) = fd_inode (opened_fd q j)"
      then have "0 < inode_refs (fds T) j" using tables_okD(2) [OF ok] by (auto simp: inode_refs_def opened_fd_def intro: count_by_pos)
      then have in_j: "in_obj (inodes T ! j) = Some obj" using j tables_okD(8) [OF ok j(1)] by auto
      then have "ye_find env path = Some obj \<and> \<not> open_denied env q obj T"
        using Some fresh [of _ obj j] j(1) by (auto simp: open_object_def split: option.splits if_splits)
      moreover have "open_on T obj (fds T ! l)" using l in_j by (simp add: open_on_def opened_fd_def)
      moreover have "fds T ! l \<in> set (fds T)" using l tables_okD(2) [OF ok] by simp
      ultimately show "(fd_reading (opened_fd q j) \<longrightarrow> fd_share_read (fds T ! l)) \<and> (fd_writing (opened_fd q j) \<longrightarrow> fd_share_write (fds T ! l)) \<and>
          (fd_reading (fds T ! l) \<longrightarrow> fd_share_read (opened_fd q j)) \<and> (fd_writing (fds T ! l) \<longrightarrow> fd_share_write (opened_fd q j))"
        by (auto simp: open_denied_def sharing_denied_def Let_def list_ex_iff opened_fd_def)
    qed
  qed
qed

section \<open>The states of the tables\<close>

text \<open>A file that is made is a new object: it is not one of those that are open.\<close>

definition makes_new :: "yaffs_env \<Rightarrow> cstring \<Rightarrow> tables \<Rightarrow> bool" where
  "makes_new env path T \<longleftrightarrow> (\<forall>dir obj. ye_create env dir path = Some obj \<longrightarrow> (\<forall>i \<in> set (inodes T). in_obj i \<noteq> Some obj))"

inductive tables_reach :: "nat \<Rightarrow> tables \<Rightarrow> bool" for n where
  start: "tables_reach n (init_handles n)"
| opened: "tables_reach n T \<Longrightarrow> makes_new env path T \<Longrightarrow> yaffs_open_sharing env path q T = Some (r, T') \<Longrightarrow> tables_reach n T'"
| dupped: "tables_reach n T \<Longrightarrow> yaffs_dup h T = Some (r, T') \<Longrightarrow> tables_reach n T'"
| closed: "tables_reach n T \<Longrightarrow> yaffs_close h T = Some (r, T') \<Longrightarrow> tables_reach n T'"
| got: "tables_reach n T \<Longrightarrow> get_handle h T = Some (r, T') \<Longrightarrow> tables_reach n T'"
| put_back: "tables_reach n T \<Longrightarrow> put_handle h T = Some T' \<Longrightarrow> tables_reach n T'"

lemma past_end: "yaffs_dup (int (n_handles T)) T = None" "yaffs_close (int (n_handles T)) T = None"
  "get_handle (int (n_handles T)) T = None" "put_handle (int (n_handles T)) T = None"
  by (simp_all add: yaffs_dup_def yaffs_close_def get_handle_def put_handle_def handle_to_object_def handle_to_inode_def
      handle_to_file_des_def handle_to_pointer_def the_handle_def)

lemma put_refined:
  assumes ok: "tables_ok T" and put: "put_handle h T = Some T'"
  shows "tables_ok T' \<and> n_handles T' = n_handles T"
proof (cases "0 \<le> h \<and> h < int (n_handles T)")
  case False
  moreover have "h \<noteq> int (n_handles T)" using put past_end(4) by auto
  ultimately have "handle_to_pointer T h = None" by (auto simp: handle_to_pointer_def)
  then show ?thesis using ok put by (simp add: put_handle_def)
next
  case True
  then have "nat h < n_handles T" "int (nat h) = h" by linarith+
  then show ?thesis using put_handle_keeps [OF ok, of "nat h"] put_handle_last [OF ok, of "nat h"] put
    by (cases "h_use (handles T ! nat h) = 1") auto
qed

lemma init_ok: "tables_ok (init_handles n)"
  by (rule tables_okI) (auto simp: init_handles_def no_fd_def fd_refs_def inode_refs_def count_by_def objs_distinct_def)

lemma tables_reach_ok: "tables_reach n T \<Longrightarrow> tables_ok T \<and> shares_ok T \<and> n_handles T = n"
proof (induction rule: tables_reach.induct)
  case start
  then show ?case using init_ok by (simp add: shares_ok_def init_handles_def no_fd_def)
next
  case (opened T env path q r T')
  then have ok: "tables_ok T" "shares_ok T" "n_handles T = n" by simp_all
  have "shares_ok T'"
    using open_shares [OF ok(1,2) opened(3)] opened(2) tables_okD(1) [OF ok(1)] unfolding makes_new_def by (metis nth_mem)
  then show ?case using open_refined [OF ok(1), of env path q] opened(3) ok(3) by (auto simp: refined_def)
next
  case (dupped T h r T')
  then have ok: "tables_ok T" "shares_ok T" "n_handles T = n" and h: "h \<noteq> int (n_handles T)" using past_end(1) by auto
  have "shares_ok T'"
  proof (rule shares_ok_mono [OF ok(2)])
    show "n_handles T' = n_handles T" using dup_refined [OF ok(1) h] dupped(2) by (auto simp: refined_def)
  next
    fix l assume l: "l < n_handles T" "0 < fd_count (fds T' ! l)"
    show "0 < fd_count (fds T ! l) \<and> same_rights (fds T' ! l) (fds T ! l)"
      using dup_fds [OF ok(1) h dupped(2) l] .
  qed
  then show ?case using dup_refined [OF ok(1) h] dupped(2) ok(3) by (auto simp: refined_def)
next
  case (closed T h r T')
  then have ok: "tables_ok T" "shares_ok T" "n_handles T = n" and h: "h \<noteq> int (n_handles T)" using past_end(2) by auto
  have n: "tables_ok T'" "n_handles T' = n_handles T" using close_refined [OF ok(1) h] closed(2) by (auto simp: refined_def)
  consider "T' = T" | "put_handle h T = Some T'" using closed(2) by (auto simp: yaffs_close_def bind_eq_Some_conv split: option.splits)
  then have "shares_ok T'"
  proof cases
    case 2
    show ?thesis by (rule shares_ok_mono [OF ok(2) n(2)]) (use put_handle_fds [OF 2] tables_okD(2) [OF ok(1)] in simp)
  qed (use ok in simp)
  then show ?case using n ok by simp
next
  case (got T h r T')
  then have ok: "tables_ok T" "shares_ok T" "n_handles T = n" and h: "h \<noteq> int (n_handles T)" using past_end(3) by auto
  have n: "tables_ok T'" "n_handles T' = n_handles T" using get_refined [OF ok(1) h] got(2) by (auto simp: refined_def)
  have "fds T' = fds T" using got(2) by (auto simp: get_handle_def bind_eq_Some_conv split: option.splits if_splits)
  then show ?case using n ok by (simp add: shares_ok_def)
next
  case (put_back T h T')
  then have ok: "tables_ok T" "shares_ok T" "n_handles T = n" by simp_all
  note n = put_refined [OF ok(1) put_back(2)]
  have "shares_ok T'"
    by (rule shares_ok_mono [OF ok(2)]) (use n put_handle_fds [OF put_back(2)] tables_okD(2) [OF ok(1)] in simp_all)
  then show ?case using n ok(3) by simp
qed

section \<open>Properties\<close>

text \<open>C35: the three tables implement a map from handles to open objects.  Opening enters the object at the
  first free handle, or returns -1 and changes nothing when all handles are in use or the request is refused; a
  duplicate enters the object of the old handle likewise; closing removes the handle unless a call is still
  using it; a use of a handle changes nothing.  No other handle is touched, although descriptors and inodes are
  shared, counted and reused.\<close>

theorem handles_refine_map:
  assumes "tables_reach n T" and "h \<noteq> int n"
  shows "refined (yaffs_open_sharing env path q T) (spec_open n (if ye_path_ok env path then open_object env path q T else None) (files T)) n \<and>
    refined (yaffs_dup h T) (spec_open n (behind n h (files T)) (files T)) n \<and>
    refined (yaffs_close h T) (spec_close n h (h_use (handles T ! nat h) \<noteq> 1) (files T)) n \<and>
    refined (get_handle h T) (if behind n h (files T) = None then - 1 else 0, files T) n"
proof -
  have ok: "tables_ok T" "n_handles T = n" using tables_reach_ok [OF assms(1)] by simp_all
  show ?thesis using open_refined [OF ok(1)] dup_refined [OF ok(1), of h] close_refined [OF ok(1), of h] get_refined [OF ok(1), of h] assms(2)
    by (simp add: ok(2))
qed

text \<open>A file system with one file, and a call that opens it for reading and denies others writing.\<close>

definition one_file :: yaffs_env where
  "one_file = \<lparr>ye_path_ok = (\<lambda>_. True), ye_find = (\<lambda>p. if p = ''f'' then Some 7 else None), ye_is_dir = (\<lambda>_. False),
     ye_readable = (\<lambda>_. True), ye_writable = (\<lambda>_. True), ye_read_only = (\<lambda>_. False), ye_find_dir = (\<lambda>_. None), ye_create = (\<lambda>_ _. None)\<rparr>"

definition reading_only :: open_flags where
  "reading_only = \<lparr>of_read = True, of_write = False, of_append = False, of_creat = False, of_excl = False, of_share_read = True, of_share_write = False\<rparr>"

lemmas handle_ops = yaffs_open_sharing_def new_handle_and_file_des_def new_handle_def handle_to_file_des_def handle_to_pointer_def the_handle_def
  open_object_def open_denied_def sharing_denied_def open_on_def get_inode_for_def init_handles_def no_fd_def one_file_def reading_only_def Let_def

definition opened_once :: tables where
  "opened_once = snd (the (yaffs_open_sharing one_file ''f'' reading_only (init_handles 2)))"

lemma opens_once: "yaffs_open_sharing one_file ''f'' reading_only (init_handles 2) = Some (0, opened_once)"
  by (simp add: opened_once_def handle_ops numeral_2_eq_2)

lemma opened_once_reach: "tables_reach 2 opened_once"
  by (rule tables_reach.opened [OF tables_reach.start _ opens_once]) (simp add: makes_new_def one_file_def)

theorem handles_refine_map_witness:
  "refined (yaffs_dup 0 opened_once) (spec_open 2 (behind 2 0 (files opened_once)) (files opened_once)) 2 \<and>
   spec_open 2 (behind 2 0 (files opened_once)) (files opened_once) = (1, (files opened_once)(1 \<mapsto> 7))"
proof -
  have "spec_open 2 (behind 2 0 (files opened_once)) (files opened_once) = (1, (files opened_once)(1 \<mapsto> 7))"
    by (simp add: opened_once_def handle_ops numeral_2_eq_2 spec_open_def behind_def files_def free_handle_def)
  then show ?thesis using handles_refine_map [OF opened_once_reach, of 0] by simp
qed

text \<open>C36: in every state of the tables, two open descriptors of one file respect each other: what one was opened
  for, the other had agreed to share; and the count kept with each open file is the number of its descriptors, the
  count kept with each descriptor the number of its handles.\<close>

theorem open_files_shared:
  assumes "tables_reach n T"
  shows "shares_ok T \<and> (\<forall>k < n. fd_count (fds T ! k) = fd_refs (handles T) k) \<and>
    (\<forall>j < n. in_obj (inodes T ! j) = None \<and> inode_refs (fds T) j = 0 \<or> in_obj (inodes T ! j) \<noteq> None \<and> in_count (inodes T ! j) = inode_refs (fds T) j)"
proof -
  have ok: "tables_ok T" "shares_ok T" "n_handles T = n" using tables_reach_ok [OF assms] by simp_all
  show ?thesis using ok(2) tables_okD(5,8,9) [OF ok(1)] by (auto simp: ok(3))
qed

theorem open_files_shared_witness:
  "shares_ok opened_once \<and> fd_count (fds opened_once ! 0) = 1 \<and> fd_refs (handles opened_once) 0 = 1 \<and>
   yaffs_open_sharing one_file ''f'' (reading_only\<lparr>of_write := True\<rparr>) opened_once = Some (- 1, opened_once)"
proof -
  have "fd_count (fds opened_once ! 0) = 1" "yaffs_open_sharing one_file ''f'' (reading_only\<lparr>of_write := True\<rparr>) opened_once = Some (- 1, opened_once)"
    by (simp_all add: opened_once_def handle_ops numeral_2_eq_2 put_handle_def put_file_des_def)
  then show ?thesis using open_files_shared [OF opened_once_reach] by auto
qed


end
