(* ===== verification/YaffsRW.thy ===== *)
theory YaffsRW
  imports YaffsHandles
begin

text \<open>
  Reading and writing through a handle (\<open>yaffsfs_do_read\<close>, \<open>yaffsfs_do_write\<close>, \<open>yaffs_lseek\<close>,
  \<open>yaffs_ftruncate\<close> and \<open>tr_lseek\<close> in yaffsfs.c).  A transfer is cut into pieces that stay within blocks of 8192 bytes;
  the lock of the file system is let go between two of them, and the model describes a transfer that no other call
  interrupts.  What one piece does to an object is YAFFS itself and an argument: \<open>rd\<close> and \<open>wr\<close> stand for
  \<open>yaffs_file_rd\<close> and \<open>yaffs_wr_file\<close> (with the transaction of the call), \<open>len\<close> for \<open>yaffs_get_obj_length\<close>,
  \<open>maxsize\<close> for \<open>YAFFS_MAX_FILE_SIZE\<close>, and \<open>'w\<close> is the state of the objects.  The buffer is never NULL.
\<close>

section \<open>The transfers\<close>

definition piece :: "int \<Rightarrow> int \<Rightarrow> int" where
  "piece pos nbyte = min nbyte (8192 - pos mod 8192)"

lemma piece_bounds: "0 < nbyte \<Longrightarrow> 0 < piece pos nbyte \<and> piece pos nbyte \<le> nbyte"
  using pos_mod_bound [of 8192 pos] by (auto simp: piece_def min_def)

function read_loop :: "(int \<Rightarrow> int \<Rightarrow> int \<Rightarrow> 'w \<Rightarrow> int \<times> char list \<times> 'w) \<Rightarrow> tables \<Rightarrow> int \<Rightarrow> int \<Rightarrow> int \<Rightarrow> int \<Rightarrow> char list \<Rightarrow> 'w \<Rightarrow>
    (int \<times> char list \<times> 'w) option" where
  "read_loop rd T h pos nbyte tot buf w =
     (if nbyte \<le> 0 then Some (tot, buf, w)
      else do {
        ob \<leftarrow> handle_to_object T h;
        let (k, out, w) = (case ob of None \<Rightarrow> (0, [], w) | Some obj \<Rightarrow> rd obj pos (piece pos nbyte) w);
        let (tot, pos', buf) = (if 0 < k then (tot + k, pos + k, buf @ out) else (tot, pos, buf));
        if k = piece pos nbyte then read_loop rd T h pos' (nbyte - k) tot buf w
        else Some (tot, buf, w) })"
  by pat_completeness auto
termination
  by (relation "measure (\<lambda>(rd, T, h, pos, nbyte, tot, buf, w). nat nbyte)") (auto dest: piece_bounds split: if_splits simp: piece_bounds)

function write_loop :: "(int \<Rightarrow> char list \<Rightarrow> int \<Rightarrow> 'w \<Rightarrow> int \<times> 'w) \<Rightarrow> (int \<Rightarrow> bool) \<Rightarrow> tables \<Rightarrow> int \<Rightarrow> int \<Rightarrow> int \<Rightarrow> int \<Rightarrow> char list \<Rightarrow> 'w \<Rightarrow>
    (int \<times> 'w) option" where
  "write_loop wr ro T h pos nbyte tot buf w =
     (if nbyte \<le> 0 then Some (tot, w)
      else do {
        ob \<leftarrow> handle_to_object T h;
        let (k, w) = (case ob of None \<Rightarrow> (0, w) | Some obj \<Rightarrow> if ro obj then (0, w) else wr obj (take (nat (piece pos nbyte)) buf) pos w);
        let (tot, pos', buf) = (if 0 < k then (tot + k, pos + k, drop (nat k) buf) else (tot, pos, buf));
        if k = piece pos nbyte then write_loop wr ro T h pos' (nbyte - k) tot buf w
        else Some (if k < 1 \<and> tot < 1 then - 1 else tot, w) })"
  by pat_completeness auto
termination
  by (relation "measure (\<lambda>(wr, ro, T, h, pos, nbyte, tot, buf, w). nat nbyte)") (auto dest: piece_bounds split: if_splits simp: piece_bounds)

declare read_loop.simps [simp del] write_loop.simps [simp del]

definition in_range :: "int \<Rightarrow> int \<Rightarrow> int \<Rightarrow> bool" where
  "in_range maxsize pos nbyte \<longleftrightarrow> 0 \<le> pos \<and> pos \<le> maxsize \<and> nbyte \<le> maxsize \<and> 0 \<le> s32 (pos + nbyte) \<and> s32 (pos + nbyte) \<le> maxsize"

definition set_position :: "nat \<Rightarrow> int \<Rightarrow> tables \<Rightarrow> tables" where
  "set_position k pos T = T\<lparr>fds := (fds T)[k := (fds T ! k)\<lparr>fd_position := pos\<rparr>]\<rparr>"

text \<open>A read stops at the end of the file.\<close>

definition readable :: "int \<Rightarrow> int \<Rightarrow> int \<Rightarrow> int" where
  "readable end pos nbyte = min nbyte (if pos < end then end - pos else 0)"

definition yaffsfs_do_read :: "int \<Rightarrow> (int \<Rightarrow> 'w \<Rightarrow> int) \<Rightarrow> (int \<Rightarrow> int \<Rightarrow> int \<Rightarrow> 'w \<Rightarrow> int \<times> char list \<times> 'w) \<Rightarrow> int \<Rightarrow> int \<Rightarrow> bool \<Rightarrow> int \<Rightarrow>
    tables \<Rightarrow> 'w \<Rightarrow> (int \<times> char list \<times> tables \<times> 'w) option" where
  "yaffsfs_do_read maxsize len rd h nbyte isPread offset T w = do {
     fd \<leftarrow> handle_to_file_des T h;
     ob \<leftarrow> handle_to_object T h;
     case (fd, ob) of
       (Some k, Some obj) \<Rightarrow>
         if \<not> fd_reading (fds T ! k) \<or> maxsize < nbyte then Some (- 1, [], T, w)
         else do {
           let start = (if isPread then offset else fd_position (fds T ! k));
           let nbyte = readable (len obj w) start nbyte;
           (_, T) \<leftarrow> get_handle h T;
           (tot, buf, w) \<leftarrow> (if in_range maxsize start nbyte then read_loop rd T h start nbyte 0 [] w else Some (- 1, [], w));
           T \<leftarrow> put_handle h T;
           Some (tot, buf, if \<not> isPread \<and> 0 \<le> tot then set_position k (start + tot) T else T, w) }
     | _ \<Rightarrow> Some (- 1, [], T, w) }"

definition yaffsfs_do_write :: "int \<Rightarrow> (int \<Rightarrow> 'w \<Rightarrow> int) \<Rightarrow> (int \<Rightarrow> bool) \<Rightarrow> (int \<Rightarrow> char list \<Rightarrow> int \<Rightarrow> 'w \<Rightarrow> int \<times> 'w) \<Rightarrow> int \<Rightarrow> char list \<Rightarrow> int \<Rightarrow>
    bool \<Rightarrow> int \<Rightarrow> tables \<Rightarrow> 'w \<Rightarrow> (int \<times> tables \<times> 'w) option" where
  "yaffsfs_do_write maxsize len ro wr h buf nbyte isPwrite offset T w = do {
     fd \<leftarrow> handle_to_file_des T h;
     ob \<leftarrow> handle_to_object T h;
     case (fd, ob) of
       (Some k, Some obj) \<Rightarrow>
         if \<not> fd_writing (fds T ! k) \<or> ro obj then Some (- 1, T, w)
         else do {
           let start = (if fd_append (fds T ! k) then len obj w else if isPwrite then offset else fd_position (fds T ! k));
           (_, T) \<leftarrow> get_handle h T;
           (tot, w) \<leftarrow> (if in_range maxsize start nbyte then write_loop wr ro T h start nbyte 0 buf w else Some (- 1, w));
           T \<leftarrow> put_handle h T;
           Some (tot, if \<not> isPwrite \<and> 0 < tot then set_position k (start + tot) T else T, w) }
     | _ \<Rightarrow> Some (- 1, T, w) }"

definition yaffs_read where "yaffs_read maxsize len rd h nbyte = yaffsfs_do_read maxsize len rd h nbyte False 0"

definition yaffs_pread where "yaffs_pread maxsize len rd h nbyte offset = yaffsfs_do_read maxsize len rd h nbyte True offset"

definition yaffs_write where "yaffs_write maxsize len ro wr h buf nbyte = yaffsfs_do_write maxsize len ro wr h buf nbyte False 0"

definition yaffs_pwrite where "yaffs_pwrite maxsize len ro wr h buf nbyte offset = yaffsfs_do_write maxsize len ro wr h buf nbyte True offset"

datatype whence = SEEK_SET | SEEK_CUR | SEEK_END

definition yaffs_lseek :: "int \<Rightarrow> (int \<Rightarrow> 'w \<Rightarrow> int) \<Rightarrow> int \<Rightarrow> int \<Rightarrow> whence \<Rightarrow> tables \<Rightarrow> 'w \<Rightarrow> (int \<times> tables) option" where
  "yaffs_lseek maxsize len h offset wh T w = do {
     fd \<leftarrow> handle_to_file_des T h;
     ob \<leftarrow> handle_to_object T h;
     case (fd, ob) of
       (Some k, Some obj) \<Rightarrow>
         if maxsize < offset then Some (- 1, T)
         else
           (let base = (case wh of SEEK_SET \<Rightarrow> 0 | SEEK_CUR \<Rightarrow> fd_position (fds T ! k) | SEEK_END \<Rightarrow> len obj w);
                pos = (if (wh = SEEK_END \<longrightarrow> 0 \<le> base) \<and> 0 \<le> base + offset then base + offset else - 1) in
            if 0 \<le> pos \<and> pos \<le> maxsize then Some (pos, set_position k pos T) else Some (- 1, T))
     | _ \<Rightarrow> Some (- 1, T) }"

text \<open>The server's own variant looks the descriptor up again without a test.\<close>

definition tr_lseek :: "int \<Rightarrow> (int \<Rightarrow> 'w \<Rightarrow> int) \<Rightarrow> int \<Rightarrow> int \<Rightarrow> whence \<Rightarrow> tables \<Rightarrow> 'w \<Rightarrow> (int \<times> tables) option" where
  "tr_lseek maxsize len h offset wh T w = do {
     (_, T) \<leftarrow> yaffs_lseek maxsize len h offset wh T w;
     fd \<leftarrow> handle_to_file_des T h;
     k \<leftarrow> fd;
     Some (fd_position (fds T ! k), T) }"

section \<open>A transfer in pieces is one transfer\<close>

text \<open>What is documented of the two functions, over the contents \<open>view w obj\<close> of the objects: a read inside the
  file is complete; a write stores a prefix of what it is given.\<close>

definition reads_whole :: "('w \<Rightarrow> int \<Rightarrow> char list) \<Rightarrow> (int \<Rightarrow> 'w \<Rightarrow> int) \<Rightarrow> (int \<Rightarrow> int \<Rightarrow> int \<Rightarrow> 'w \<Rightarrow> int \<times> char list \<times> 'w) \<Rightarrow> bool" where
  "reads_whole view len rd \<longleftrightarrow> (\<forall>obj w. len obj w = int (length (view w obj))) \<and>
     (\<forall>obj pos n w. 0 \<le> pos \<and> 0 < n \<and> pos + n \<le> int (length (view w obj)) \<longrightarrow>
        (\<exists>w'. rd obj pos n w = (n, take (nat n) (drop (nat pos) (view w obj)), w') \<and> view w' = view w))"

definition writes_prefix :: "('w \<Rightarrow> int \<Rightarrow> char list) \<Rightarrow> (int \<Rightarrow> char list \<Rightarrow> int \<Rightarrow> 'w \<Rightarrow> int \<times> 'w) \<Rightarrow> bool" where
  "writes_prefix view wr \<longleftrightarrow> (\<forall>obj bs pos w. 0 \<le> pos \<longrightarrow>
     (\<exists>k w'. wr obj bs pos w = (k, w') \<and> k \<le> int (length bs) \<and> view w' = (view w)(obj := pwrite_bytes (nat pos) (take (nat k) bs) (view w obj))))"

lemma read_loop_whole:
  assumes "reads_whole view len rd" and "handle_to_object T h = Some (Some obj)"
    and "0 \<le> pos" and "0 \<le> nbyte" and "pos + nbyte \<le> int (length (view w obj))"
  shows "\<exists>w'. read_loop rd T h pos nbyte tot buf w = Some (tot + nbyte, buf @ take (nat nbyte) (drop (nat pos) (view w obj)), w') \<and> view w' = view w"
  using assms(3-)
proof (induction "nat nbyte" arbitrary: pos nbyte tot buf w rule: less_induct)
  case less
  show ?case
  proof (cases "nbyte = 0")
    case True
    then show ?thesis by (simp add: read_loop.simps)
  next
    case False
    let ?n = "piece pos nbyte"
    have n: "0 < ?n" "?n \<le> nbyte" using piece_bounds [of nbyte pos] less.prems False by auto
    obtain w1 where w1: "rd obj pos ?n w = (?n, take (nat ?n) (drop (nat pos) (view w obj)), w1)" "view w1 = view w"
      using assms(1) n less.prems unfolding reads_whole_def by force
    obtain w' where w': "read_loop rd T h (pos + ?n) (nbyte - ?n) (tot + ?n) (buf @ take (nat ?n) (drop (nat pos) (view w obj))) w1 =
        Some (tot + ?n + (nbyte - ?n), (buf @ take (nat ?n) (drop (nat pos) (view w obj))) @ take (nat (nbyte - ?n)) (drop (nat (pos + ?n)) (view w1 obj)), w')"
        "view w' = view w1"
      using less.hyps [of "nbyte - ?n" "pos + ?n" w1 "tot + ?n" "buf @ take (nat ?n) (drop (nat pos) (view w obj))"] n less.prems w1(2) by auto
    have "take (nat ?n) (drop (nat pos) (view w obj)) @ take (nat (nbyte - ?n)) (drop (nat (pos + ?n)) (view w obj)) =
        take (nat ?n + nat (nbyte - ?n)) (drop (nat pos) (view w obj))"
      using n less.prems(1) by (simp add: take_add nat_add_distrib add.commute)
    moreover have "nat ?n + nat (nbyte - ?n) = nat nbyte" using n by simp
    ultimately show ?thesis using w1 w' n assms(2) False less.prems(2)
      by (subst read_loop.simps) simp
  qed
qed

lemma write_loop_prefix:
  assumes "writes_prefix view wr" and "handle_to_object T h = Some (Some obj)" and "\<not> ro obj"
    and "0 \<le> pos" and "0 \<le> nbyte" and "nbyte = int (length buf)" and "0 \<le> tot"
  shows "\<exists>k w'. write_loop wr ro T h pos nbyte tot buf w = Some (if k = 0 \<and> tot = 0 \<and> 0 < nbyte then - 1 else tot + k, w') \<and> 0 \<le> k \<and> k \<le> nbyte \<and>
    view w' = (view w)(obj := pwrite_bytes (nat pos) (take (nat k) buf) (view w obj))"
  using assms(4-)
proof (induction "nat nbyte" arbitrary: pos nbyte tot buf w rule: less_induct)
  case less
  show ?case
  proof (cases "nbyte = 0")
    case True
    then show ?thesis by (intro exI [of _ 0] exI [of _ w]) (simp add: write_loop.simps pwrite_bytes_def)
  next
    case False
    let ?n = "piece pos nbyte"
    have n: "0 < ?n" "?n \<le> nbyte" using piece_bounds [of nbyte pos] less.prems False by auto
    obtain k w1 where w1: "wr obj (take (nat ?n) buf) pos w = (k, w1)" "k \<le> int (length (take (nat ?n) buf))"
        "view w1 = (view w)(obj := pwrite_bytes (nat pos) (take (nat k) (take (nat ?n) buf)) (view w obj))"
      using assms(1) less.prems(1) unfolding writes_prefix_def by blast
    have k: "k \<le> ?n" using w1(2) n(1) by (auto simp: min_def split: if_splits)
    then have k: "k \<le> ?n" "take (nat k) (take (nat ?n) buf) = take (nat k) buf" by (simp_all add: min_def nat_mono)
    show ?thesis
    proof (cases "k = ?n")
      case False
      then show ?thesis using w1 k n assms(2,3) \<open>nbyte \<noteq> 0\<close> less.prems
        by (subst write_loop.simps) (auto intro!: exI [of _ "max 0 k"] exI [of _ w1] simp: max_def split: if_splits)
    next
      case True
      let ?rest = "drop (nat ?n) buf"
      have "nat (nbyte - ?n) < nat nbyte" "0 \<le> pos + ?n" "0 \<le> nbyte - ?n" "nbyte - ?n = int (length ?rest)" "0 \<le> tot + ?n" "tot + ?n \<noteq> 0"
        using n less.prems by (simp_all add: of_nat_diff)
      then obtain k' w' where w': "write_loop wr ro T h (pos + ?n) (nbyte - ?n) (tot + ?n) ?rest w1 = Some (tot + ?n + k', w')" "0 \<le> k'" "k' \<le> nbyte - ?n"
          "view w' = (view w1)(obj := pwrite_bytes (nat (pos + ?n)) (take (nat k') ?rest) (view w1 obj))"
        using less.hyps [of "nbyte - ?n" "pos + ?n" "?rest" "tot + ?n" w1] by auto
      have at: "nat (pos + ?n) = nat pos + length (take (nat ?n) buf)" using n less.prems by (simp add: nat_add_distrib nat_le_iff)
      have "pwrite_bytes (nat (pos + ?n)) (take (nat k') ?rest) (pwrite_bytes (nat pos) (take (nat ?n) buf) (view w obj)) =
          pwrite_bytes (nat pos) (take (nat ?n) buf @ take (nat k') ?rest) (view w obj)"
        unfolding at by (rule pwrite_twice)
      also have "take (nat ?n) buf @ take (nat k') ?rest = take (nat (?n + k')) buf" using n w'(2) by (simp add: take_add nat_add_distrib)
      finally have "view w' = (view w)(obj := pwrite_bytes (nat pos) (take (nat (?n + k')) buf) (view w obj))" using w'(4) w1(3) k(2) True by simp
      moreover have "write_loop wr ro T h pos nbyte tot buf w = Some (tot + (?n + k'), w')"
        using w1(1) w'(1) True n assms(2,3) \<open>nbyte \<noteq> 0\<close> less.prems by (subst write_loop.simps) (simp add: algebra_simps)
      ultimately show ?thesis using n w'(2,3) less.prems(4) by (intro exI [of _ "?n + k'"] exI [of _ w']) auto
    qed
  qed
qed

section \<open>Reading back what was written\<close>

lemma get_put_cancel:
  assumes ok: "tables_ok T" and obj: "behind (n_handles T) h (files T) = Some obj"
  shows "\<exists>T'. get_handle h T = Some (0, T') \<and> handle_to_object T' h = Some (Some obj) \<and> put_handle h T' = Some T"
proof -
  have i: "0 \<le> h" "h < int (n_handles T)" "nat h < n_handles T" "files T (nat h) = Some obj"
    using obj by (auto simp: behind_def split: if_splits)
  have u: "0 < h_use (handles T ! nat h)" using live_iff_files [OF ok i(3)] i(4) by simp
  let ?T = "T\<lparr>handles := (handles T)[nat h := (handles T ! nat h)\<lparr>h_use := h_use (handles T ! nat h) + 1\<rparr>]\<rparr>"
  have get: "get_handle h T = Some (0, ?T)" using i u by (simp add: get_handle_def handle_to_pointer_def the_handle_def)
  have h: "h \<noteq> int (n_handles T)" using i by simp
  have ok': "tables_ok ?T" "files ?T = files T" using get_refined [OF ok h] get by (auto simp: refined_def)
  have "handle_to_object ?T h = Some (Some obj)" using handle_to_object_files [OF ok'(1) i(1)] i ok'(2) by simp
  moreover have "put_handle h ?T = Some T" using i u
    by (simp add: put_handle_def handle_to_pointer_def the_handle_def Let_def)
  ultimately show ?thesis using get by blast
qed

definition fd_of :: "tables \<Rightarrow> int \<Rightarrow> yf_fd" where
  "fd_of T h = fds T ! nat (h_fd (handles T ! nat h))"

lemma do_read_whole:
  assumes ok: "tables_ok T" and obj: "behind (n_handles T) h (files T) = Some obj" and rd: "reads_whole view len rd" and fd: "fd_reading (fd_of T h)"
    and start: "start = (if isPread then offset else fd_position (fd_of T h))" "0 \<le> start" "start \<le> maxsize"
    and nb: "0 \<le> nbyte" "nbyte \<le> maxsize" and len: "int (length (view w obj)) \<le> maxsize" and max: "maxsize < 2147483648"
  shows "\<exists>w'. yaffsfs_do_read maxsize len rd h nbyte isPread offset T w =
      Some (int (length (take (nat nbyte) (drop (nat start) (view w obj)))), take (nat nbyte) (drop (nat start) (view w obj)),
        if isPread then T else set_position (nat (h_fd (handles T ! nat h))) (start + int (length (take (nat nbyte) (drop (nat start) (view w obj))))) T, w') \<and>
    view w' = view w"
proof -
  have h: "h \<noteq> int (n_handles T)" using obj by (auto simp: behind_def split: if_splits)
  obtain T' where T': "get_handle h T = Some (0, T')" "handle_to_object T' h = Some (Some obj)" "put_handle h T' = Some T"
    using get_put_cancel [OF ok obj] by blast
  obtain n where n: "readable (len obj w) start nbyte = n" by blast
  have l: "len obj w = int (length (view w obj))" using rd by (simp add: reads_whole_def)
  have "0 \<le> start + n" "start + n \<le> maxsize" "n \<le> maxsize" using start(2,3) nb len l n by (auto simp: readable_def min_def split: if_splits)
  then have range: "in_range maxsize start n" using start(2,3) max by (simp add: in_range_def in_s32_def)
  have out: "take (nat n) (drop (nat start) (view w obj)) = take (nat nbyte) (drop (nat start) (view w obj))"
    "n = int (length (take (nat nbyte) (drop (nat start) (view w obj))))"
    using start(2) nb(1) l n by (auto simp: readable_def min_def split: if_splits)
  have pos: "0 \<le> n \<and> (n = 0 \<or> start + n \<le> int (length (view w obj)))" using nb(1) l n by (auto simp: readable_def min_def split: if_splits)
  have "\<exists>w'. read_loop rd T' h start n 0 [] w = Some (n, take (nat n) (drop (nat start) (view w obj)), w') \<and> view w' = view w"
    using pos read_loop_whole [OF rd T'(2) start(2), of n w 0 "[]"] by (cases "n = 0") (simp_all add: read_loop.simps [of _ _ _ _ 0])
  then obtain w' where w': "read_loop rd T' h start n 0 [] w = Some (n, take (nat nbyte) (drop (nat start) (view w obj)), w')" "view w' = view w"
    unfolding out(1) by blast
  have fds: "handle_to_file_des T h = Some (Some (nat (h_fd (handles T ! nat h))))" "handle_to_object T h = Some (Some obj)"
    using behind_live [OF ok h] obj by simp_all
  have "yaffsfs_do_read maxsize len rd h nbyte isPread offset T w =
      Some (n, take (nat nbyte) (drop (nat start) (view w obj)), if isPread then T else set_position (nat (h_fd (handles T ! nat h))) (start + n) T, w')"
    using fds w' T'(1,3) fd range start(1) nb(2) n pos
    by (cases isPread) (simp_all add: yaffsfs_do_read_def fd_of_def Let_def)
  then show ?thesis using w'(2) unfolding out(2) by blast
qed

lemma do_write_prefix:
  assumes ok: "tables_ok T" and obj: "behind (n_handles T) h (files T) = Some obj" and wr: "writes_prefix view wr" and ro: "\<not> ro obj"
    and fd: "fd_writing (fd_of T h)"
    and start: "start = (if fd_append (fd_of T h) then len obj w else if isPwrite then offset else fd_position (fd_of T h))" "0 \<le> start"
    and nb: "start + int (length buf) \<le> maxsize" and max: "maxsize < 2147483648"
  shows "\<exists>k r w'. yaffsfs_do_write maxsize len ro wr h buf (int (length buf)) isPwrite offset T w =
      Some (r, if \<not> isPwrite \<and> 0 < r then set_position (nat (h_fd (handles T ! nat h))) (start + r) T else T, w') \<and>
    r = (if k = 0 \<and> buf \<noteq> [] then - 1 else k) \<and> 0 \<le> k \<and> k \<le> int (length buf) \<and>
    view w' = (view w)(obj := pwrite_bytes (nat start) (take (nat k) buf) (view w obj))"
proof -
  have h: "h \<noteq> int (n_handles T)" using obj by (auto simp: behind_def split: if_splits)
  obtain T' where T': "get_handle h T = Some (0, T')" "handle_to_object T' h = Some (Some obj)" "put_handle h T' = Some T"
    using get_put_cancel [OF ok obj] by blast
  have range: "in_range maxsize start (int (length buf))" using start(2) nb max by (simp add: in_range_def in_s32_def)
  obtain k w' where w': "write_loop wr ro T' h start (int (length buf)) 0 buf w = Some (if k = 0 \<and> 0 < int (length buf) then - 1 else k, w')"
      "0 \<le> k" "k \<le> int (length buf)" "view w' = (view w)(obj := pwrite_bytes (nat start) (take (nat k) buf) (view w obj))"
    using write_loop_prefix [where ro = ro, OF wr T'(2) ro start(2), of "int (length buf)" buf 0 w] by (simp only: add_0 simp_thms of_nat_0_le_iff) blast
  define r where "r = (if k = 0 \<and> buf \<noteq> [] then - 1 else k)"
  have r: "(if k = 0 \<and> 0 < int (length buf) then - 1 else k) = r" by (simp add: r_def)
  have fds: "handle_to_file_des T h = Some (Some (nat (h_fd (handles T ! nat h))))" "handle_to_object T h = Some (Some obj)"
    using behind_live [OF ok h] obj by simp_all
  have "yaffsfs_do_write maxsize len ro wr h buf (int (length buf)) isPwrite offset T w =
      Some (r, if \<not> isPwrite \<and> 0 < r then set_position (nat (h_fd (handles T ! nat h))) (start + r) T else T, w')"
    using fds w'(1) [unfolded r] T'(1,3) fd ro range start(1) unfolding fd_of_def
    by (cases "fd_append (fds T ! nat (h_fd (handles T ! nat h)))"; cases isPwrite) (simp_all add: yaffsfs_do_write_def Let_def)
  then show ?thesis using w'(2-) r_def by blast
qed

lemma pwrite_then_read: "take (length bs) (drop off (pwrite_bytes off bs c)) = bs"
  by (cases "bs = []") (simp_all add: pwrite_bytes_def)

lemma length_pwrite: "length (pwrite_bytes off bs c) = (if bs = [] then length c else max (length c) (off + length bs))"
  by (auto simp: pwrite_bytes_def)

text \<open>C39: what a positioned write puts into a file through one handle, a positioned read through any handle of the
  file gives back, for any number of pieces and also when YAFFS stores less than it was given: the bytes returned are
  the first ones of the buffer, as many as the write reported, the rest of the file is as it was, and no table of
  handles has changed.\<close>

theorem written_bytes_read_back:
  assumes "tables_reach n T" and "reads_whole view len rd" and "writes_prefix view wr"
    and "behind n h (files T) = Some obj" and "fd_writing (fd_of T h)" and "\<not> fd_append (fd_of T h)" and "\<not> ro obj"
    and "behind n g (files T) = Some obj" and "fd_reading (fd_of T g)"
    and "0 \<le> off" and "off + int (length buf) \<le> maxsize" and "int (length (view w obj)) \<le> maxsize" and "maxsize < 2147483648"
  shows "\<exists>r w1. yaffs_pwrite maxsize len ro wr h buf (int (length buf)) off T w = Some (r, T, w1) \<and> r \<le> int (length buf) \<and>
    view w1 = (view w)(obj := pwrite_bytes (nat off) (take (nat r) buf) (view w obj)) \<and>
    (0 \<le> r \<longrightarrow> (\<exists>w2. yaffs_pread maxsize len rd g r off T w1 = Some (r, take (nat r) buf, T, w2) \<and> view w2 = view w1))"
proof -
  have ok: "tables_ok T" "n_handles T = n" using tables_reach_ok [OF assms(1)] by simp_all
  obtain k r w1 where w1: "yaffs_pwrite maxsize len ro wr h buf (int (length buf)) off T w = Some (r, T, w1)"
      "r = (if k = 0 \<and> buf \<noteq> [] then - 1 else k)" "0 \<le> k" "k \<le> int (length buf)"
      "view w1 = (view w)(obj := pwrite_bytes (nat off) (take (nat k) buf) (view w obj))"
    using do_write_prefix [where ro = ro and h = h and obj = obj and buf = buf and maxsize = maxsize and start = off and w = w and isPwrite = True and offset = off and len = len, OF ok(1) _ assms(3)] assms ok(2)
    unfolding yaffs_pwrite_def by auto
  have k: "take (nat r) buf = take (nat k) buf" "r \<le> int (length buf)" using w1(2-4) by (auto split: if_splits)
  have "\<exists>w2. yaffs_pread maxsize len rd g r off T w1 = Some (r, take (nat r) buf, T, w2) \<and> view w2 = view w1" if "0 \<le> r"
  proof -
    let ?bs = "take (nat r) buf"
    have bs: "nat r = length ?bs" using that k(2) by simp
    have len: "int (length (view w1 obj)) \<le> maxsize" using w1(5) k assms(10-12) by (simp add: length_pwrite) linarith
    have "take (nat r) (drop (nat off) (view w1 obj)) = ?bs" using w1(5) k(1) pwrite_then_read [of ?bs "nat off"] bs by simp
    then show ?thesis
      using do_read_whole [OF ok(1) _ assms(2,9), of obj off True off maxsize r w1] assms(8,10-13) ok(2) that k(2) bs len
      unfolding yaffs_pread_def by auto
  qed
  then show ?thesis using w1(1,5) k by auto
qed

text \<open>A file system that keeps the contents of its objects and stores at most four bytes at a time.\<close>

definition plain_len :: "int \<Rightarrow> (int \<Rightarrow> char list) \<Rightarrow> int" where
  "plain_len obj w = int (length (w obj))"

definition plain_rd :: "int \<Rightarrow> int \<Rightarrow> int \<Rightarrow> (int \<Rightarrow> char list) \<Rightarrow> int \<times> char list \<times> (int \<Rightarrow> char list)" where
  "plain_rd obj pos n w = (n, take (nat n) (drop (nat pos) (w obj)), w)"

definition plain_wr :: "int \<Rightarrow> char list \<Rightarrow> int \<Rightarrow> (int \<Rightarrow> char list) \<Rightarrow> int \<times> (int \<Rightarrow> char list)" where
  "plain_wr obj bs pos w = (min 4 (int (length bs)), w(obj := pwrite_bytes (nat pos) (take 4 bs) (w obj)))"

definition read_write :: open_flags where
  "read_write = \<lparr>of_read = True, of_write = True, of_append = False, of_creat = False, of_excl = False, of_share_read = True, of_share_write = True\<rparr>"

definition opened_rw :: tables where
  "opened_rw = snd (the (yaffs_open_sharing one_file ''f'' read_write (init_handles 2)))"

lemma opened_rw_reach: "tables_reach 2 opened_rw"
proof (rule tables_reach.opened [OF tables_reach.start])
  show "yaffs_open_sharing one_file ''f'' read_write (init_handles 2) = Some (0, opened_rw)"
    by (simp add: opened_rw_def handle_ops read_write_def numeral_2_eq_2)
qed (simp add: makes_new_def one_file_def)

lemma plain_laws: "reads_whole (\<lambda>w. w) plain_len plain_rd" "writes_prefix (\<lambda>w. w) plain_wr"
proof -
  show "reads_whole (\<lambda>w. w) plain_len plain_rd" by (simp add: reads_whole_def plain_len_def plain_rd_def)
  have "take (nat (min 4 (int (length bs)))) bs = take 4 bs" for bs :: "char list" by (simp add: min_def nat_le_iff)
  then show "writes_prefix (\<lambda>w. w) plain_wr" by (simp add: writes_prefix_def plain_wr_def)
qed

theorem written_bytes_read_back_witness:
  "\<exists>w1 w2. yaffs_pwrite 100 plain_len (\<lambda>_. False) plain_wr 0 ''hello'' 5 2 opened_rw (\<lambda>_. ''abcd'') = Some (4, opened_rw, w1) \<and>
     w1 7 = ''abhell'' \<and> yaffs_pread 100 plain_len plain_rd 0 4 2 opened_rw w1 = Some (4, ''hell'', opened_rw, w2)"
proof -
  have T: "behind 2 0 (files opened_rw) = Some 7 \<and> fd_writing (fd_of opened_rw 0) \<and> \<not> fd_append (fd_of opened_rw 0) \<and> fd_reading (fd_of opened_rw 0)"
    by (simp add: opened_rw_def handle_ops read_write_def behind_def files_def fd_of_def numeral_2_eq_2)
  obtain r w1 where r: "yaffs_pwrite 100 plain_len (\<lambda>_. False) plain_wr 0 ''hello'' 5 2 opened_rw (\<lambda>_. ''abcd'') = Some (r, opened_rw, w1)"
      "w1 = (\<lambda>_. ''abcd'')(7 := pwrite_bytes 2 (take (nat r) ''hello'') ''abcd'')"
      "0 \<le> r \<longrightarrow> (\<exists>w2. yaffs_pread 100 plain_len plain_rd 0 r 2 opened_rw w1 = Some (r, take (nat r) ''hello'', opened_rw, w2))"
    using written_bytes_read_back [OF opened_rw_reach plain_laws, of 0 7 "\<lambda>_. False" 0 2 "''hello''" 100 "\<lambda>_. ''abcd''"] T by auto
  have "map_option fst (yaffs_pwrite 100 plain_len (\<lambda>_. False) plain_wr 0 ''hello'' 5 2 opened_rw (\<lambda>_. ''abcd'')) = Some 4"
    by (simp add: yaffs_pwrite_def yaffsfs_do_write_def opened_rw_def handle_ops read_write_def numeral_2_eq_2 handle_to_object_def handle_to_inode_def
        get_handle_def put_handle_def in_range_def s32_def write_loop.simps piece_def plain_wr_def)
  then have "r = 4" using r(1) by simp
  then show ?thesis using r by (auto simp: pwrite_bytes_def pad_to_def numeral_eq_Suc)
qed

section \<open>Seeking\<close>

lemma lseek_position:
  assumes ok: "tables_ok T" and obj: "behind (n_handles T) h (files T) = Some obj" and off: "0 \<le> offset" "offset \<le> maxsize"
  shows "\<exists>T'. tr_lseek maxsize len h offset SEEK_SET T w = Some (offset, T') \<and> yaffs_lseek maxsize len h offset SEEK_SET T w = Some (offset, T') \<and>
    fd_position (fd_of T' h) = offset \<and> files T' = files T"
proof -
  have i: "nat h < n_handles T" "files T (nat h) = Some obj" using obj by (auto simp: behind_def split: if_splits)
  have h: "h \<noteq> int (n_handles T)" using obj by (auto simp: behind_def split: if_splits)
  let ?k = "nat (h_fd (handles T ! nat h))"
  have fds: "handle_to_file_des T h = Some (Some ?k)" "handle_to_object T h = Some (Some obj)" using behind_live [OF ok h] obj by simp_all
  have "0 < h_use (handles T ! nat h)" using live_iff_files [OF ok i(1)] i(2) by simp
  then have k: "?k < length (fds T)" using live_chain [OF ok i(1)] tables_okD(2) [OF ok] by auto
  let ?T = "set_position ?k offset T"
  have "handle_to_file_des ?T h = handle_to_file_des T h" by (simp add: set_position_def handle_to_file_des_def handle_to_pointer_def the_handle_def)
  moreover have "fds ?T ! ?k = (fds T ! ?k)\<lparr>fd_position := offset\<rparr>" using k by (simp add: set_position_def)
  moreover have "yaffs_lseek maxsize len h offset SEEK_SET T w = Some (offset, ?T)" using fds off by (simp add: yaffs_lseek_def)
  moreover have "files ?T = files T" using k by (auto simp: fun_eq_iff files_def set_position_def nth_list_update)
  moreover have "fd_of ?T h = fds ?T ! ?k" by (simp add: fd_of_def set_position_def)
  ultimately show ?thesis using fds(1) by (intro exI [of _ ?T]) (simp add: tr_lseek_def)
qed

text \<open>C38: seeking to an offset inside the largest file.  With a file behind the handle, the position of its descriptor
  becomes the offset, which is returned, and no handle changes its file.  With none, \<open>yaffs_lseek\<close> returns -1 and
  changes nothing, and \<open>tr_lseek\<close>, which is what the server calls, goes on to read the position of a
  descriptor that is NULL.\<close>

theorem seek_result:
  assumes "tables_reach n T" and "h \<noteq> int n" and "0 \<le> offset" and "offset \<le> maxsize"
  shows "case behind n h (files T) of
       Some obj \<Rightarrow> \<exists>T'. tr_lseek maxsize len h offset SEEK_SET T w = Some (offset, T') \<and> fd_position (fd_of T' h) = offset \<and> files T' = files T
     | None \<Rightarrow> yaffs_lseek maxsize len h offset SEEK_SET T w = Some (- 1, T) \<and> tr_lseek maxsize len h offset SEEK_SET T w = None"
proof -
  have ok: "tables_ok T" "n_handles T = n" using tables_reach_ok [OF assms(1)] by simp_all
  show ?thesis
  proof (cases "behind n h (files T)")
    case None
    then have "handle_to_file_des T h = Some None" using behind_live(1) [OF ok(1), of h] ok(2) assms(2) by simp
    then show ?thesis using None by (simp add: tr_lseek_def yaffs_lseek_def handle_to_object_def handle_to_inode_def)
  next
    case (Some obj)
    then show ?thesis using lseek_position [OF ok(1) _ assms(3,4), of h obj len w] ok(2) by auto
  qed
qed

theorem seek_result_witness:
  "(\<exists>T'. tr_lseek 100 plain_len 0 3 SEEK_SET opened_rw (\<lambda>_. ''abcd'') = Some (3, T') \<and> fd_position (fd_of T' 0) = 3) \<and>
   tr_lseek 100 plain_len 1 3 SEEK_SET opened_rw (\<lambda>_. ''abcd'') = None"
proof -
  have "behind 2 0 (files opened_rw) = Some 7" "behind 2 1 (files opened_rw) = None"
    by (simp_all add: opened_rw_def handle_ops read_write_def behind_def files_def numeral_2_eq_2)
  then show ?thesis
    using seek_result [OF opened_rw_reach, of 0 3 100 plain_len "\<lambda>_. ''abcd''"] seek_result [OF opened_rw_reach, of 1 3 100 plain_len "\<lambda>_. ''abcd''"] by auto
qed

end
