(* ===== verification/Spec2Isabelle.thy ===== *)
theory Spec2Isabelle
  imports DeadlockProps WaitSystem ProtocolFaults YaffsRW
begin

text \<open>
  TxFS: a user-level server (src/TxFS_Mam/server) that gives its clients (src/TxFS_Mam/client)
  transactions on files, with strict two-phase locking, an event log, delayed writes, and an online
  backup that is itself a transaction.

  The program.  A client program is linked against a library that turns \<open>open\<close>, \<open>read\<close>, \<open>write\<close>, ...
  into messages on a socket (client/libclient.c, client_invoke.c, client.c).  The server has a thread
  for each connection (\<open>handler\<close> in Reader.c) that reads the messages of a call, runs the handler of the
  call (TxFS_manager.c, Update_manager.c) and answers.  A handler takes locks (Lock_manager1.c,
  Lock_manager2.c), where it may have to wait for another transaction (Wait_list_manager.c) or pause for
  the backup (MS_manager.c).  Data goes to YAFFS at once (\<open>tr_file_write\<close>); creations, removals and renames are also
  logged (Log_manager.c).  Commit performs the logged operations that are pending and releases the locks.  The backup (backup_manager.c) walks a
  tree, locking one file at a time; the detector of deadlocks (deadlock.c) names a victim.  Files are those
  of YAFFS, reached through its interface (yaffsfs.c).

  Conventions (Prelude).  An undefined computation (NULL or dangling pointers, an index outside an
  array, a blocked mutex, an endless loop) is \<open>None\<close> of an option; error codes are ordinary values.  C integers
  are HOL integers with \<open>s32\<close> and \<open>s64\<close> written out where a value can leave the range.  Nodes of the lock
  list and write records are cells of a heap with fresh addresses, so that freed memory can be told from
  live memory; nodes that are only found by walking a list (transactions, waiters) are entries of a list.

  Which theory models what:
    ServerState      my_header.h: structures, globals as one record \<open>server\<close>; \<open>fs_calls\<close> records the calls
                     to the file system in order
    CLib             \<open>atoi\<close>, \<open>dirname\<close>; \<open>fs_env\<close>, the answers of the file system
    TxnManager       Txn_manager.c; the locale \<open>live_table\<close> is the contract of a sorted table of live
                     records, interpreted for transactions here and for waiters in WaitList
    LogFile, LogManager, LogChains
                     Log_manager.c, the logging half, and the reader of the log (test_log.c): the
                     format of the records, every \<open>log_*\<close> operation, the chains of each transaction
    DelayedOps       Log_manager.c, the half that performs what was logged
    WaitList         Wait_list_manager.c; a call that blocks ends one step and begins another; how each operation
                     changes the counters of waiters
    LockList         the doubly linked list of Lock_manager1.c
    LockRelease, LockTable, TxnEnd
                     \<open>release_locks_on_success\<close>, \<open>release_locks_on_abort\<close>, \<open>on_txn_commit\<close>, \<open>on_txn_abort\<close>;
                     the invariant of the lock table; the locale \<open>txn_finish\<close> proves once what both ends
                     of a transaction share
    MSManager        MS_manager.c
    LockManager, LockGrant
                     \<open>insert_file_list\<close> and \<open>resume\<close>: taking a lock, with every way to stop and go on; a thread
                     that wakes lets go of \<open>file_mutex\<close> before it asks again or aborts (\<open>Woken\<close>, \<open>Doomed\<close>), so
                     that other threads may come between
    UpdateManager    Update_manager.c
    TxFSManager, HandlerOk
                     the handlers of TxFS_manager.c, cut where they wait; the locale \<open>lock_service\<close> states
                     what a handler may rely on when it asks for a lock
    BackupRelease, Backup, BackupSafe
                     backup_manager.c, \<open>on_bck_beg\<close>
    System           all threads: the step relation \<open>sys_step\<close> and the reachable states; the specification
                     of the locks, a set of grants that only the holder's own steps change; the locale
                     \<open>call_service\<close> carries a contract for locks through whole calls and is interpreted for the
                     grants here and for the counters of waiters in WaitSystem
    WaitCount, WaitSystem
                     the counters of waiters through every call, and in every reachable state
    Deadlock, DeadlockFound, DeadlockProps
                     deadlock.c
    Reader           Reader.c, the loop of a connection
    Client, Protocol, ProtocolFaults
                     the library of the clients, and a client together with its connection
    YaffsHandles, YaffsRW
                     yaffsfs.c: handles, descriptors and open inodes; opening, closing, reading, writing

  What is proved.  The properties are marked in the theories with a C and a number, in the order of importance.
    Locks (System, DeadlockProps, LockList): every step of every thread is a sequence of steps of the
      specification, locks exclude each other, the lists stay well formed, in all reachable states.
    Connections (Reader, Protocol, ProtocolFaults): the use of memory for messages is safe; which calls bring their
      results back; which do not, and why.  No connection ever gets the number of a transaction, since \<open>txn_beg\<close>
      cannot be served; the system of threads (System) therefore starts transactions by \<open>on_txn_beg\<close> itself.
    Ends of transactions (TxnEnd): invariants of lock table and log, and who is woken.
    Log (LogChains, DelayedOps, UpdateManager): what is logged can be read back; commit performs it, with a fault where
      it is a rename; the pair \<open>write_log\<close> and delayed write, and the reader \<open>do_read_old\<close>, which the handlers
      \<open>on_write\<close> and \<open>on_read\<close> do not call any more, do what they should but for one loop that does not end.
    Waiting and deadlocks (WaitSystem, Deadlock*): the counters of waiters are exact, so no thread runs into a wait
      node that is gone and none is left behind; a victim is in a deadlock; for exclusive locks every deadlock is
      found; where the detector fails.
    Backup (Backup, MSManager): the walk ends and flips the sticky bit of every file; how often a transaction pauses.
    YAFFS handles (YaffsHandles, YaffsRW): the three tables of counts implement a map, sharing is respected,
      bytes written in pieces are read back; handles out of range or not open.

  Bounds.  A walk through a heap has fuel one more than the number of cells ever allocated (\<open>Suc (brk m)\<close>), enough
  for a list without cycles; the invariants say there are none, and with a cycle the C loop does not end either.
  \<open>link_edges\<close> has fuel for one pass over the waiters for each cell of the heap; \<open>cycle\<close> has 50 rounds, the length
  of the array it fills; a conversation (\<open>call_execute\<close>) has 20 steps, where the longest call, \<open>read\<close>, needs 12.  The
  backup's loop takes its number of turns as an argument, and \<open>backup_walks_tree\<close> says which is enough.

  Parameters.  \<open>fs_env\<close> are the answers of the file system to the server, one per stretch of a handler, so they may
  change from one to the next; \<open>bck_env\<close> those to the backup, where \<open>stat\<close> depends on the calls made before
  (\<open>chmod_works\<close> says that it shows what \<open>chmod\<close> did) and \<open>be_copying\<close> says whether the two files of \<open>copying\<close> can be
  opened (they are not tested, so the backup faults where they cannot); \<open>yaffs_env\<close>, \<open>rd\<close>, \<open>wr\<close> and \<open>len\<close> are the
  YAFFS core below yaffsfs.c, which is not in the repository.  \<open>env_read_bit\<close> is the content of a variable the
  code never sets.

  Simplifications.  A step of the system is what one thread does under \<open>file_mutex\<close> from one wait to the next; what it
  does to its own transaction between two such stretches (\<open>stop_waiting\<close>) is counted to the second one.  The
  other mutexes (\<open>txn_mutex\<close>, \<open>wait_mutex\<close>, \<open>pause_mutex\<close>) only guard single operations inside such a step and are left
  out; \<open>log_mutex\<close> is kept because an error can leave it locked.  The sockets keep messages apart, on which the
  protocol relies and which TCP does not promise.  A transfer of yaffsfs.c is not interrupted between two pieces.
  Counters of 16 bits (\<open>useCount\<close>) do not overflow.

  Not modelled.  Names, links, mounting, directories and attributes of yaffsfs.c, and yaffcfg.c: calls into the YAFFS
  core that is not in the repository.  The programs that replay traces (client/transaction.c, simulator.c, backup.c) and
  those that make traces and count results (Traces): drivers around the library, mostly input and output.
  backup_manager_working.c, an older copy that is not built.  Setting up sockets, and output for the eye.
\<close>

end
